(* ===== verification/Prelude.thy ===== *)
theory Prelude
  imports Main "HOL-Library.Word"
begin

unbundle bit_operations_syntax

section \<open>Prelude\<close>

text \<open>
  What every component shares: the machine types, the result of a fallible Rust function,
  the sequencing of state-passing operations (the \<^verbatim>\<open>?\<close> operator), mutexes that can be
  poisoned, big-endian integers, and list lemmas. The collections declared here
  (\<open>limits\<close>, \<open>res_simps\<close>, \<open>mutex_simps\<close>) are filled by the component theories.
\<close>

named_theorems limits \<open>the numeric constants of the program\<close>
named_theorems res_simps \<open>sequencing of fallible operations\<close>
named_theorems mutex_simps \<open>locking and unlocking\<close>

subsection \<open>Machine types\<close>

type_synonym u8 = "8 word"
type_synonym u16 = "16 word"
type_synonym u32 = "32 word"
type_synonym u64 = "64 word"
type_synonym bytes = "u8 list"

subsection \<open>Fallible operations\<close>

text \<open>
  A Rust function returns a value, returns an error, or unwinds. Unwinding (an out-of-range
  slice, an \<^verbatim>\<open>unwrap\<close> on \<^verbatim>\<open>None\<close>, an arithmetic overflow) is the constructor \<open>Panic\<close>, so a
  theorem can say that it never happens.
\<close>

datatype ('a, 'e) result = Ok 'a | Err 'e | Panic

fun is_Panic :: "('a, 'e) result \<Rightarrow> bool" where
  "is_Panic Panic = True"
| "is_Panic _ = False"

fun is_Ok :: "('a, 'e) result \<Rightarrow> bool" where
  "is_Ok (Ok _) = True"
| "is_Ok _ = False"

text \<open>
  \<open>seq r f\<close> is the code after a \<^verbatim>\<open>?\<close>: it goes on with the value and the state an operation
  left, and returns early with its error, keeping what the operation already wrote.
\<close>

fun seq :: "('a, 'e) result \<times> 's \<Rightarrow> ('a \<Rightarrow> 's \<Rightarrow> ('b, 'e) result \<times> 's) \<Rightarrow> ('b, 'e) result \<times> 's" where
  "seq (Ok a, s) f = f a s"
| "seq (Err e, s) f = (Err e, s)"
| "seq (Panic, s) f = (Panic, s)"

lemma seq_split:
  "P (seq r f) \<longleftrightarrow>
     (\<forall>a s. r = (Ok a, s) \<longrightarrow> P (f a s)) \<and>
     (\<forall>e s. r = (Err e, s) \<longrightarrow> P (Err e, s)) \<and>
     (\<forall>s. r = (Panic, s) \<longrightarrow> P (Panic, s))"
  by (cases r; cases "fst r") auto

lemma seq_snd_inv:
  assumes "I (snd r)" and "\<And>a s. r = (Ok a, s) \<Longrightarrow> I s \<Longrightarrow> I (snd (f a s))"
  shows "I (snd (seq r f))"
  using assms by (cases r; cases "fst r") auto

lemma seq_no_panic:
  assumes "fst r \<noteq> Panic" and "\<And>a s. r = (Ok a, s) \<Longrightarrow> fst (f a s) \<noteq> Panic"
  shows "fst (seq r f) \<noteq> Panic"
  using assms by (cases r; cases "fst r") auto

lemma seq_eq_Ok:
  "seq r f = (Ok b, t) \<longleftrightarrow> (\<exists>a s. r = (Ok a, s) \<and> f a s = (Ok b, t))"
  by (cases r; cases "fst r") auto

lemma seq_assoc: "seq (seq r f) g = seq r (\<lambda>a s. seq (f a s) g)"
  by (cases r; cases "fst r") auto

declare seq.simps [res_simps]

subsection \<open>Mutexes\<close>

text \<open>
  \<^verbatim>\<open>std::sync::Mutex\<close>: the protected value and the poison flag. \<^verbatim>\<open>lock()\<close> on a poisoned mutex
  is an error; a thread that panics while it holds the guard poisons the mutex.
\<close>

record 'a mutex =
  poisoned :: bool
  guarded :: 'a

definition mutex_new :: "'a \<Rightarrow> 'a mutex" where
  "mutex_new v = \<lparr>poisoned = False, guarded = v\<rparr>"

definition mutex_set :: "'a \<Rightarrow> 'a mutex \<Rightarrow> 'a mutex" where
  "mutex_set v m = m\<lparr>guarded := v\<rparr>"

definition poison :: "'a mutex \<Rightarrow> 'a mutex" where
  "poison m = m\<lparr>poisoned := True\<rparr>"

lemma mutex_new_sel [simp, mutex_simps]:
  "poisoned (mutex_new v) = False" "guarded (mutex_new v) = v"
  by (simp_all add: mutex_new_def)

lemma mutex_set_sel [simp, mutex_simps]:
  "poisoned (mutex_set v m) = poisoned m" "guarded (mutex_set v m) = v"
  by (simp_all add: mutex_set_def)

lemma poison_sel [simp, mutex_simps]:
  "poisoned (poison m) = True" "guarded (poison m) = guarded m"
  by (simp_all add: poison_def)

lemma mutex_set_set [simp, mutex_simps]: "mutex_set v (mutex_set w m) = mutex_set v m"
  by (simp add: mutex_set_def)

lemma mutex_set_guarded [simp, mutex_simps]: "mutex_set (guarded m) m = m"
  by (simp add: mutex_set_def)

subsection \<open>Big-endian integers\<close>

definition to_be_u16 :: "u16 \<Rightarrow> bytes" where
  "to_be_u16 w = [ucast (drop_bit 8 w), ucast w]"

definition from_be_u16 :: "u8 \<Rightarrow> u8 \<Rightarrow> u16" where
  "from_be_u16 a b = push_bit 8 (ucast a) OR ucast b"

definition from_be_u32 :: "u8 \<Rightarrow> u8 \<Rightarrow> u8 \<Rightarrow> u8 \<Rightarrow> u32" where
  "from_be_u32 a b c d =
     push_bit 24 (ucast a) OR push_bit 16 (ucast b) OR push_bit 8 (ucast c) OR ucast d"

text \<open>\<^verbatim>\<open>u16::try_from(usize)\<close>.\<close>

definition u16_try_from :: "nat \<Rightarrow> u16 option" where
  "u16_try_from n = (if n \<le> 65535 then Some (of_nat n) else None)"

lemma u16_try_from_Some:
  "u16_try_from n = Some w \<longleftrightarrow> n \<le> 65535 \<and> w = of_nat n"
  by (auto simp: u16_try_from_def)

lemma length_to_be_u16 [simp]: "length (to_be_u16 w) = 2"
  by (simp add: to_be_u16_def)

lemma u8_no_high_bit [simp]: "8 \<le> k \<Longrightarrow> \<not> bit (b :: u8) k"
  by (auto dest: bit_imp_le_length)

lemma from_be_u16_to_be: "from_be_u16 (ucast (drop_bit 8 w)) (ucast w) = w"
  unfolding from_be_u16_def
  by (rule bit_word_eqI) (auto simp: bit_simps)

lemma to_be_u16_from_be: "to_be_u16 (from_be_u16 a b) = [a, b]"
  unfolding from_be_u16_def to_be_u16_def
  by (auto intro!: bit_word_eqI simp: bit_simps)

lemma unat_of_nat_u16: "n \<le> 65535 \<Longrightarrow> unat (of_nat n :: u16) = n"
  by (simp add: unat_of_nat)

lemma and_255: "(n :: 'a :: len word) AND 255 = take_bit 8 n"
  by (simp add: take_bit_eq_mask mask_eq_exp_minus_1)

text \<open>The four length bytes of a frame header, cut out of a 64-bit \<^verbatim>\<open>usize\<close>, give the length back.\<close>

lemma from_be_u32_of_usize:
  fixes n :: u64
  shows "from_be_u32 (ucast (drop_bit 24 n AND 255)) (ucast (drop_bit 16 n AND 255))
           (ucast (drop_bit 8 n AND 255)) (ucast (n AND 255)) = ucast n"
  unfolding and_255
proof (rule bit_word_eqI)
  fix k :: nat
  assume "k < LENGTH(32)"
  then consider "k < 8" | "8 \<le> k" "k < 16" | "16 \<le> k" "k < 24" | "24 \<le> k" "k < 32"
    by force
  then show "bit (from_be_u32 (ucast (take_bit 8 (drop_bit 24 n)))
      (ucast (take_bit 8 (drop_bit 16 n))) (ucast (take_bit 8 (drop_bit 8 n)))
      (ucast (take_bit 8 n))) k = bit (ucast n :: u32) k"
    by cases (auto simp: from_be_u32_def bit_simps)
qed

subsection \<open>Lists\<close>

text \<open>\<^verbatim>\<open>iter_mut().find(p)\<close> followed by a change of what it finds.\<close>

fun update_first :: "('a \<Rightarrow> bool) \<Rightarrow> ('a \<Rightarrow> 'a) \<Rightarrow> 'a list \<Rightarrow> 'a list" where
  "update_first P f [] = []"
| "update_first P f (x # xs) = (if P x then f x # xs else x # update_first P f xs)"

lemma length_update_first [simp]: "length (update_first P f xs) = length xs"
  by (induction xs) auto

lemma map_update_first: "(\<And>x. g (f x) = g x) \<Longrightarrow> map g (update_first P f xs) = map g xs"
  by (induction xs) auto

lemma set_update_first: "x \<in> set (update_first P f xs) \<Longrightarrow> x \<in> set xs \<or> (\<exists>y \<in> set xs. P y \<and> x = f y)"
  by (induction xs) (auto split: if_splits)

lemma update_first_eq_Nil [simp]: "update_first P f xs = [] \<longleftrightarrow> xs = []"
  by (cases xs) auto

lemma update_first_none: "(\<And>x. x \<in> set xs \<Longrightarrow> \<not> P x) \<Longrightarrow> update_first P f xs = xs"
  by (induction xs) auto

lemma find_update_first: "find P xs = Some x \<Longrightarrow> P (f x) \<Longrightarrow> find P (update_first P f xs) = Some (f x)"
  by (induction xs) (auto split: if_splits)

lemma find_Some_in: "find P xs = Some x \<Longrightarrow> x \<in> set xs \<and> P x"
  by (induction xs) (auto split: if_splits)

lemma find_None_iff_all: "find P xs = None \<longleftrightarrow> (\<forall>x \<in> set xs. \<not> P x)"
  by (induction xs) auto

lemma length_filter_key:
  assumes "distinct (map f xs)"
  shows "length (filter (\<lambda>x. f x \<noteq> k) xs) + (if k \<in> f ` set xs then 1 else 0) = length xs"
  using assms
proof (induction xs)
  case (Cons x xs)
  then show ?case by (cases "f x = k") (auto simp: filter_id_conv)
qed simp

lemma map_filter_append: "List.map_filter f (xs @ ys) = List.map_filter f xs @ List.map_filter f ys"
  by (induction xs) (auto simp: map_filter_simps split: option.splits)

lemma set_map_filter: "set (List.map_filter f xs) = {y. \<exists>x \<in> set xs. f x = Some y}"
  by (induction xs) (auto simp: List.map_filter_simps split: option.splits)

end
