(* ===== verification/Rust_Str.thy ===== *)
theory Rust_Str
  imports Prelude "HOL-Library.Sublist"
begin

section \<open>Rust strings\<close>

text \<open>
  The part of \<^verbatim>\<open>str\<close>, \<^verbatim>\<open>String\<close> and \<^verbatim>\<open>char\<close> the program uses. A string is the list of its
  Unicode scalar values; \<open>as_bytes\<close> is its UTF-8 form, \<open>from_utf8\<close> the strict decoder, and
  every index the program takes is a byte index, as in Rust: \<open>str_find\<close> returns one,
  \<open>split_at_byte\<close> fails off a character boundary. The lemmas show that encoding and strict
  decoding are inverse to each other and how searching and slicing compose.
\<close>

type_synonym uchar = nat
type_synonym ustr = "uchar list"

definition lit :: "string \<Rightarrow> ustr" where
  "lit s = map of_char s"

lemma lit_Nil: "lit [] = []" and lit_Cons: "lit (c # s) = of_char c # lit s"
  by (simp_all add: lit_def)

text \<open>The punctuation the parsers look for, as code points.\<close>

lemma lit_codes:
  "lit ''['' = [0x5B]" "lit '']('' = [0x5D, 0x28]" "lit ''): '' = [0x29, 0x3A, 0x20]" "lit ''@'' = [0x40]"
  by (simp_all add: lit_def)

lemma length_lit [simp]: "length (lit s) = length s"
  by (simp add: lit_def)

definition is_scalar :: "uchar \<Rightarrow> bool" where
  "is_scalar c \<longleftrightarrow> c < 0xD800 \<or> (0xE000 \<le> c \<and> c \<le> 0x10FFFF)"

definition valid_str :: "ustr \<Rightarrow> bool" where
  "valid_str s = list_all is_scalar s"

lemma valid_str_simps [simp]:
  "valid_str []" "valid_str (c # s) \<longleftrightarrow> is_scalar c \<and> valid_str s"
  "valid_str (s @ t) \<longleftrightarrow> valid_str s \<and> valid_str t"
  by (simp_all add: valid_str_def)

lemma valid_str_lit [simp]: "valid_str (lit s)"
  proof (induction s)
  case (Cons c s)
  have "of_char c < (0xD800 :: nat)" using nat_of_char_less_256 [of c] by linarith
  with Cons show ?case by (simp add: is_scalar_def lit_Cons)
qed (simp add: lit_Nil)

lemma valid_str_subset: "valid_str s \<Longrightarrow> set t \<subseteq> set s \<Longrightarrow> valid_str t"
  by (auto simp: valid_str_def list_all_iff)

subsection \<open>UTF-8\<close>

definition utf8_nat :: "uchar \<Rightarrow> nat list" where
  "utf8_nat c =
     (if c < 0x80 then [c]
      else if c < 0x800 then [0xC0 + c div 64, 0x80 + c mod 64]
      else if c < 0x10000 then [0xE0 + c div 4096, 0x80 + c div 64 mod 64, 0x80 + c mod 64]
      else [0xF0 + c div 262144, 0x80 + c div 4096 mod 64, 0x80 + c div 64 mod 64, 0x80 + c mod 64])"

definition encode_utf8 :: "uchar \<Rightarrow> bytes" where
  "encode_utf8 c = map of_nat (utf8_nat c)"

definition len_utf8 :: "uchar \<Rightarrow> nat" where
  "len_utf8 c = (if c < 0x80 then 1 else if c < 0x800 then 2 else if c < 0x10000 then 3 else 4)"

definition as_bytes :: "ustr \<Rightarrow> bytes" where
  "as_bytes s = concat (map encode_utf8 s)"

fun str_len :: "ustr \<Rightarrow> nat" where
  "str_len [] = 0"
| "str_len (c # s) = len_utf8 c + str_len s"

definition utf8_cont :: "nat \<Rightarrow> bool" where
  "utf8_cont b \<longleftrightarrow> 0x80 \<le> b \<and> b \<le> 0xBF"

text \<open>The second byte's range depends on the first: overlong forms, surrogates and values past
  U+10FFFF are refused, as \<^verbatim>\<open>str::from_utf8\<close> does.\<close>

definition utf8_second :: "nat \<Rightarrow> nat \<Rightarrow> bool" where
  "utf8_second a b \<longleftrightarrow>
     (if a = 0xE0 then 0xA0 \<le> b \<and> b \<le> 0xBF
      else if a = 0xED then 0x80 \<le> b \<and> b \<le> 0x9F
      else if a = 0xF0 then 0x90 \<le> b \<and> b \<le> 0xBF
      else if a = 0xF4 then 0x80 \<le> b \<and> b \<le> 0x8F
      else utf8_cont b)"

fun decode_char :: "nat list \<Rightarrow> (uchar \<times> nat list) option" where
  "decode_char [] = None"
| "decode_char (a # r) =
     (if a < 0x80 then Some (a, r)
      else if 0xC2 \<le> a \<and> a \<le> 0xDF then
        (case r of
           b # r' \<Rightarrow> if utf8_cont b then Some ((a - 0xC0) * 64 + (b - 0x80), r') else None
         | _ \<Rightarrow> None)
      else if 0xE0 \<le> a \<and> a \<le> 0xEF then
        (case r of
           b # c # r' \<Rightarrow>
             if utf8_second a b \<and> utf8_cont c
             then Some ((a - 0xE0) * 4096 + (b - 0x80) * 64 + (c - 0x80), r') else None
         | _ \<Rightarrow> None)
      else if 0xF0 \<le> a \<and> a \<le> 0xF4 then
        (case r of
           b # c # d # r' \<Rightarrow>
             if utf8_second a b \<and> utf8_cont c \<and> utf8_cont d
             then Some ((a - 0xF0) * 262144 + (b - 0x80) * 4096 + (c - 0x80) * 64 + (d - 0x80), r')
             else None
         | _ \<Rightarrow> None)
      else None)"

lemma decode_char_shorter: "decode_char bs = Some (c, r) \<Longrightarrow> length r < length bs"
  by (cases bs) (auto split: if_splits list.splits)

lemma decode_char_shorter': "decode_char bs = Some p \<Longrightarrow> (c, r) = p \<Longrightarrow> length r < length bs"
  using decode_char_shorter by blast

function decode_all :: "nat list \<Rightarrow> ustr option" where
  "decode_all [] = Some []"
| "decode_all (b # bs) =
     (case decode_char (b # bs) of
        None \<Rightarrow> None
      | Some (c, r) \<Rightarrow> map_option (Cons c) (decode_all r))"
  by pat_completeness auto
termination
proof (relation "measure length")
  fix b bs p c r
  assume "decode_char (b # bs) = Some p" "(c, r) = p"
  then show "(r, b # bs) \<in> measure length"
    using decode_char_shorter' [of "b # bs" p c r] by (simp del: decode_char.simps)
qed simp

definition from_utf8 :: "bytes \<Rightarrow> ustr option" where
  "from_utf8 bs = decode_all (map unat bs)"

lemma length_utf8_nat [simp]: "length (utf8_nat c) = len_utf8 c"
  by (simp add: utf8_nat_def len_utf8_def)

lemma length_encode_utf8 [simp]: "length (encode_utf8 c) = len_utf8 c"
  by (simp add: encode_utf8_def)

lemma len_utf8_bounds: "0 < len_utf8 c" "len_utf8 c \<le> 4"
  by (simp_all add: len_utf8_def)

lemma len_utf8_ascii [simp]: "c < 128 \<Longrightarrow> len_utf8 c = 1"
  by (simp add: len_utf8_def)

lemma len_utf8_nonzero [simp]: "len_utf8 c \<noteq> 0"
  by (simp add: len_utf8_def)

lemma as_bytes_simps [simp]:
  "as_bytes [] = []" "as_bytes (c # s) = encode_utf8 c @ as_bytes s"
  "as_bytes (s @ t) = as_bytes s @ as_bytes t"
  by (simp_all add: as_bytes_def)

lemma length_as_bytes [simp]: "length (as_bytes s) = str_len s"
  by (induction s) auto

lemma str_len_append [simp]: "str_len (s @ t) = str_len s + str_len t"
  by (induction s) auto

lemma str_len_eq_0 [simp]: "str_len s = 0 \<longleftrightarrow> s = []"
  by (cases s) auto

lemma str_len_ge_length: "length s \<le> str_len s"
proof (induction s)
  case (Cons c s)
  then show ?case using len_utf8_bounds(1) [of c] by simp
qed simp

lemma str_len_lit_le: "str_len (lit s) \<le> 2 * length s"
proof (induction s)
  case (Cons c s)
  have "of_char c < (256 :: nat)" by (rule nat_of_char_less_256)
  then have "(of_char c :: nat) < 0x800" by linarith
  then have "len_utf8 (of_char c) \<le> 2" by (simp add: len_utf8_def)
  with Cons show ?case by (simp add: lit_Cons)
qed (simp add: lit_Nil)

lemma str_len_sublist: "sublist t s \<Longrightarrow> str_len t \<le> str_len s"
  by (auto simp: sublist_def)

lemma utf8_nat_byte: "is_scalar c \<Longrightarrow> list_all (\<lambda>b. b < 256) (utf8_nat c)"
  by (auto simp: utf8_nat_def is_scalar_def)

lemma unat_encode_utf8: "is_scalar c \<Longrightarrow> map unat (encode_utf8 c) = utf8_nat c"
  using utf8_nat_byte [of c]
  by (auto simp: encode_utf8_def list_all_iff unat_of_nat intro!: map_idI)

text \<open>The base-64 digits of a scalar value: the multi-byte forms below are in terms of them.\<close>

lemma base64_digits:
  fixes x y z :: nat
  assumes "z < 64"
  shows "(x * 64 + z) div 64 = x" "(x * 64 + z) mod 64 = z"
  using assms by auto

lemma utf8_nat_2:
  assumes "c = x * 64 + z" "z < 64" "2 \<le> x" "x < 32"
  shows "utf8_nat c = [0xC0 + x, 0x80 + z]"
proof -
  have "c div 64 = x" "c mod 64 = z" using assms(1,2) by (simp_all only: base64_digits)
  moreover have "0x80 \<le> c" "c < 0x800" using assms by linarith+
  ultimately show ?thesis by (simp add: utf8_nat_def)
qed

lemma utf8_nat_3:
  assumes "c = (x * 64 + y) * 64 + z" "z < 64" "y < 64" "x < 16" "x = 0 \<longrightarrow> 32 \<le> y"
  shows "utf8_nat c = [0xE0 + x, 0x80 + y, 0x80 + z]"
proof -
  have d: "c div 64 = x * 64 + y" "c mod 64 = z"
    using assms(1,2) by (simp_all only: base64_digits)
  have "c div 4096 = c div 64 div 64" by (simp flip: div_mult2_eq)
  also have "\<dots> = x" using assms(3) by (simp only: d base64_digits)
  finally have "c div 4096 = x" .
  moreover have "c div 64 mod 64 = y" using assms(3) by (simp only: d base64_digits)
  moreover have "0x800 \<le> c" using assms(1,5) by (cases "x = 0") simp_all
  moreover have "c < 0x10000" using assms(1-4) by simp
  ultimately show ?thesis using d(2) by (simp add: utf8_nat_def)
qed

lemma utf8_nat_4:
  assumes "c = ((w * 64 + x) * 64 + y) * 64 + z" "z < 64" "y < 64" "x < 64" "w < 5" "w = 0 \<longrightarrow> 16 \<le> x"
  shows "utf8_nat c = [0xF0 + w, 0x80 + x, 0x80 + y, 0x80 + z]"
proof -
  have d: "c div 64 = (w * 64 + x) * 64 + y" "c mod 64 = z"
    using assms(1,2) by (simp_all only: base64_digits)
  have "c div 4096 = c div 64 div 64" by (simp flip: div_mult2_eq)
  also have "\<dots> = w * 64 + x" using assms(3) by (simp only: d base64_digits)
  finally have e: "c div 4096 = w * 64 + x" .
  have "c div 262144 = c div 4096 div 64" by (simp flip: div_mult2_eq)
  also have "\<dots> = w" using assms(4) by (simp only: e base64_digits)
  finally have "c div 262144 = w" .
  moreover have "c div 4096 mod 64 = x" using assms(4) by (simp only: e base64_digits)
  moreover have "c div 64 mod 64 = y" using assms(3) by (simp only: d base64_digits)
  moreover have "0x10000 \<le> c" using assms(1,6) by (cases "w = 0") simp_all
  ultimately show ?thesis using d(2) by (simp add: utf8_nat_def)
qed

lemma scalar_shape:
  assumes "is_scalar c"
  obtains (one) "c < 0x80"
  | (two) x z where "c = x * 64 + z" "z < 64" "2 \<le> x" "x < 32"
  | (three) x y z where "c = (x * 64 + y) * 64 + z" "z < 64" "y < 64" "x < 16"
      "x = 0 \<longrightarrow> 32 \<le> y" "x = 13 \<longrightarrow> y < 32"
  | (four) w x y z where "c = ((w * 64 + x) * 64 + y) * 64 + z" "z < 64" "y < 64" "x < 64" "w < 5"
      "w = 0 \<longrightarrow> 16 \<le> x" "w = 4 \<longrightarrow> x < 16"
proof -
  define q1 q2 q3 where "q1 = c div 64" and "q2 = q1 div 64" and "q3 = q2 div 64"
  have c: "c = q1 * 64 + c mod 64" "q1 = q2 * 64 + q1 mod 64" "q2 = q3 * 64 + q2 mod 64"
    by (simp_all add: q1_def q2_def q3_def)
  have m: "c mod 64 < 64" "q1 mod 64 < 64" "q2 mod 64 < 64" by simp_all
  consider "c < 0x80" | "0x80 \<le> c" "c < 0x800" | "0x800 \<le> c" "c < 0x10000"
    | "0x10000 \<le> c" "c \<le> 0x10FFFF"
    using assms by (fastforce simp: is_scalar_def)
  then show ?thesis
  proof cases
    case 1
    then show ?thesis by (rule one)
  next
    case 2
    show ?thesis by (rule two [of q1 "c mod 64"]) (use 2 c m in linarith)+
  next
    case 3
    show ?thesis
    proof (rule three [of q2 "q1 mod 64" "c mod 64"])
      show "c = (q2 * 64 + q1 mod 64) * 64 + c mod 64" using c by metis
      show "q2 = 13 \<longrightarrow> q1 mod 64 < 32"
      proof
        assume q: "q2 = 13"
        have "c < 0xD800 \<or> 0xE000 \<le> c" using assms by (auto simp: is_scalar_def)
        then show "q1 mod 64 < 32" using c(1,2) m(1,2) q by (elim disjE) linarith+
      qed
    qed (use 3 c m in linarith)+
  next
    case 4
    show ?thesis
    proof (rule four [of q3 "q2 mod 64" "q1 mod 64" "c mod 64"])
      show "c = ((q3 * 64 + q2 mod 64) * 64 + q1 mod 64) * 64 + c mod 64" using c by metis
    qed (use 4 c m in linarith)+
  qed
qed

lemma decode_char_utf8_nat:
  assumes "is_scalar c"
  shows "decode_char (utf8_nat c @ r) = Some (c, r)"
  using assms
proof (cases c rule: scalar_shape)
  case one
  then show ?thesis by (simp add: utf8_nat_def)
next
  case (two x z)
  note u = utf8_nat_2 [OF two]
  from two show ?thesis unfolding u by (simp add: utf8_cont_def)
next
  case (three x y z)
  note u = utf8_nat_3 [OF three(1-5)]
  have s: "utf8_second (0xE0 + x) (0x80 + y)"
    using three by (auto simp: utf8_second_def utf8_cont_def)
  from three s show ?thesis unfolding u by (simp add: utf8_cont_def)
next
  case (four w x y z)
  note u = utf8_nat_4 [OF four(1-6)]
  have s: "utf8_second (0xF0 + w) (0x80 + x)"
    using four by (auto simp: utf8_second_def utf8_cont_def)
  from four s show ?thesis unfolding u by (simp add: utf8_cont_def)
qed

lemma decode_char_SomeD:
  assumes "decode_char bs = Some (c, r)"
  shows "bs = utf8_nat c @ r \<and> is_scalar c"
proof -
  obtain a t where bs: "bs = a # t" using assms by (cases bs) auto
  consider "a < 0x80" | "0xC2 \<le> a" "a \<le> 0xDF" | "0xE0 \<le> a" "a \<le> 0xEF" | "0xF0 \<le> a" "a \<le> 0xF4"
    using assms bs by (force split: if_splits)
  then show ?thesis
  proof cases
    case 1
    with assms bs show ?thesis by (simp add: utf8_nat_def is_scalar_def)
  next
    case 2
    then obtain b where t: "t = b # r" "utf8_cont b" "c = (a - 0xC0) * 64 + (b - 0x80)"
      using assms bs by (auto split: list.splits if_splits)
    define x z where "x = a - 0xC0" and "z = b - 0x80"
    have v: "a = 0xC0 + x" "b = 0x80 + z" "z < 64" "2 \<le> x" "x < 32"
      using 2 t by (auto simp: x_def z_def utf8_cont_def)
    have c: "c = x * 64 + z" using t(3) by (simp add: x_def z_def)
    then have "is_scalar c" using v by (simp add: is_scalar_def)
    with v t bs show ?thesis using utf8_nat_2 [OF c v(3-5)] by simp
  next
    case 3
    then obtain b d where t: "t = b # d # r" "utf8_second a b" "utf8_cont d"
      "c = (a - 0xE0) * 4096 + (b - 0x80) * 64 + (d - 0x80)"
      using assms bs by (auto split: list.splits if_splits)
    define x y z where "x = a - 0xE0" and "y = b - 0x80" and "z = d - 0x80"
    have v: "a = 0xE0 + x" "b = 0x80 + y" "d = 0x80 + z" "z < 64" "y < 64" "x < 16"
      "x = 0 \<longrightarrow> 32 \<le> y" "x = 13 \<longrightarrow> y < 32"
      using 3 t by (auto simp: x_def y_def z_def utf8_cont_def utf8_second_def split: if_splits)
    have c: "c = (x * 64 + y) * 64 + z" using t(4) by (simp add: x_def y_def z_def)
    have "is_scalar c"
    proof (cases "x \<le> 13")
      case True
      with v(4,5,8) have "(x * 64 + y) * 64 + z < 0xD800" by (cases "x = 13") simp_all
      with c show ?thesis by (simp add: is_scalar_def)
    next
      case False
      with v(4-6) have "0xE000 \<le> (x * 64 + y) * 64 + z" "(x * 64 + y) * 64 + z < 0x10000" by simp_all
      with c show ?thesis by (simp add: is_scalar_def)
    qed
    with v t bs show ?thesis using utf8_nat_3 [OF c v(4-7)] by simp
  next
    case 4
    then obtain b d e where t: "t = b # d # e # r" "utf8_second a b" "utf8_cont d" "utf8_cont e"
      "c = (a - 0xF0) * 262144 + (b - 0x80) * 4096 + (d - 0x80) * 64 + (e - 0x80)"
      using assms bs by (auto split: list.splits if_splits)
    define w x y z where "w = a - 0xF0" and "x = b - 0x80" and "y = d - 0x80" and "z = e - 0x80"
    have v: "a = 0xF0 + w" "b = 0x80 + x" "d = 0x80 + y" "e = 0x80 + z" "z < 64" "y < 64" "x < 64"
      "w < 5" "w = 0 \<longrightarrow> 16 \<le> x" "w = 4 \<longrightarrow> x < 16"
      using 4 t by (auto simp: w_def x_def y_def z_def utf8_cont_def utf8_second_def split: if_splits)
    have c: "c = ((w * 64 + x) * 64 + y) * 64 + z" using t(5) by (simp add: w_def x_def y_def z_def)
    have "0x10000 \<le> c" using c v(9) by (cases "w = 0") simp_all
    moreover have "c \<le> 0x10FFFF" using c v(5-8,10) by (cases "w = 4") simp_all
    ultimately have "is_scalar c" by (simp add: is_scalar_def)
    with v t bs show ?thesis using utf8_nat_4 [OF c v(5-9)] by simp
  qed
qed

lemma decode_all_utf8: "valid_str s \<Longrightarrow> decode_all (concat (map utf8_nat s)) = Some s"
proof (induction s)
  case (Cons c s)
  then obtain b bs where bs: "utf8_nat c @ concat (map utf8_nat s) = b # bs"
    by (cases "utf8_nat c @ concat (map utf8_nat s)") (auto simp: utf8_nat_def split: if_splits)
  have "decode_all (b # bs) = map_option (Cons c) (decode_all (concat (map utf8_nat s)))"
    using Cons.prems decode_char_utf8_nat [of c "concat (map utf8_nat s)"]
    by (simp add: bs del: decode_char.simps)
  with Cons show ?case by (simp add: bs)
qed simp

lemma decode_all_SomeD: "decode_all bs = Some s \<Longrightarrow> bs = concat (map utf8_nat s) \<and> valid_str s"
proof (induction bs arbitrary: s rule: decode_all.induct)
  case (2 b bs)
  then obtain c r t where c: "decode_char (b # bs) = Some (c, r)" and t: "decode_all r = Some t"
    and s: "s = c # t"
    by (auto split: option.splits simp del: decode_char.simps)
  from 2 c t have "r = concat (map utf8_nat t) \<and> valid_str t"
    by (simp del: decode_char.simps)
  with decode_char_SomeD [OF c] s show ?case by simp
qed simp

text \<open>Strict decoding inverts encoding, and accepts nothing else.\<close>

lemma from_utf8_as_bytes: "valid_str s \<Longrightarrow> from_utf8 (as_bytes s) = Some s"
proof -
  assume v: "valid_str s"
  then have "map unat (as_bytes s) = concat (map utf8_nat s)"
    by (induction s) (auto simp: unat_encode_utf8)
  with v show ?thesis by (simp add: from_utf8_def decode_all_utf8)
qed

lemma from_utf8_SomeD:
  assumes "from_utf8 bs = Some s"
  shows "as_bytes s = bs" and "valid_str s"
proof -
  from assms have d: "map unat bs = concat (map utf8_nat s)" and v: "valid_str s"
    by (auto simp: from_utf8_def dest: decode_all_SomeD)
  have "as_bytes s = map of_nat (concat (map utf8_nat s))"
    by (simp add: as_bytes_def encode_utf8_def [abs_def] map_concat comp_def)
  also have "\<dots> = bs"
    by (simp add: d [symmetric] comp_def)
  finally show "as_bytes s = bs" .
  show "valid_str s" by (rule v)
qed

lemma from_utf8_Some_iff: "from_utf8 bs = Some s \<longleftrightarrow> valid_str s \<and> as_bytes s = bs"
  using from_utf8_SomeD from_utf8_as_bytes by blast

subsection \<open>Characters\<close>

text \<open>\<^verbatim>\<open>char::is_whitespace\<close> is the Unicode property White\_Space, \<^verbatim>\<open>char::is_control\<close> the
  general category Cc.\<close>

definition is_whitespace :: "uchar \<Rightarrow> bool" where
  "is_whitespace c \<longleftrightarrow>
     (0x09 \<le> c \<and> c \<le> 0x0D) \<or> c = 0x20 \<or> c = 0x85 \<or> c = 0xA0 \<or> c = 0x1680 \<or>
     (0x2000 \<le> c \<and> c \<le> 0x200A) \<or> c = 0x2028 \<or> c = 0x2029 \<or> c = 0x202F \<or> c = 0x205F \<or> c = 0x3000"

definition is_control :: "uchar \<Rightarrow> bool" where
  "is_control c \<longleftrightarrow> c \<le> 0x1F \<or> (0x7F \<le> c \<and> c \<le> 0x9F)"

definition to_ascii_lower :: "uchar \<Rightarrow> uchar" where
  "to_ascii_lower c = (if 65 \<le> c \<and> c \<le> 90 then c + 32 else c)"

definition to_ascii_lowercase :: "ustr \<Rightarrow> ustr" where
  "to_ascii_lowercase s = map to_ascii_lower s"

subsection \<open>Trimming\<close>

definition trim_start :: "ustr \<Rightarrow> ustr" where
  "trim_start s = dropWhile is_whitespace s"

definition trim_end :: "ustr \<Rightarrow> ustr" where
  "trim_end s = rev (dropWhile is_whitespace (rev s))"

definition trim :: "ustr \<Rightarrow> ustr" where
  "trim s = trim_end (trim_start s)"

definition trim_end_matches :: "uchar \<Rightarrow> ustr \<Rightarrow> ustr" where
  "trim_end_matches c s = rev (dropWhile (\<lambda>d. d = c) (rev s))"

lemma trim_eq_Nil: "trim s = [] \<longleftrightarrow> list_all is_whitespace s"
proof -
  have "trim s = [] \<longleftrightarrow> list_all is_whitespace (dropWhile is_whitespace s)"
    by (simp add: trim_def trim_end_def trim_start_def list_all_iff)
  also have "\<dots> \<longleftrightarrow> list_all is_whitespace s"
    by (induction s) auto
  finally show ?thesis .
qed

lemma trim_end_sublist: "sublist (trim_end s) s"
proof -
  have "suffix (dropWhile is_whitespace (rev s)) (rev s)" by (rule suffix_dropWhile)
  then have "prefix (trim_end s) s"
    by (simp add: trim_end_def suffix_to_prefix)
  then show ?thesis by (rule prefix_imp_sublist)
qed

lemma trim_Nil [simp]: "trim [] = []"
  by (simp add: trim_def trim_start_def trim_end_def)

lemma trim_sublist: "sublist (trim s) s"
  using trim_end_sublist [of "trim_start s"] suffix_imp_sublist [OF suffix_dropWhile]
  unfolding trim_def trim_start_def by (rule sublist_order.order.trans)

lemma trim_end_matches_sublist: "sublist (trim_end_matches c s) s"
proof -
  have "suffix (dropWhile (\<lambda>d. d = c) (rev s)) (rev s)" by (rule suffix_dropWhile)
  then have "prefix (trim_end_matches c s) s"
    by (simp add: trim_end_matches_def suffix_to_prefix)
  then show ?thesis by (rule prefix_imp_sublist)
qed

lemma sublist_set_subset: "sublist t s \<Longrightarrow> set t \<subseteq> set s"
  by (rule set_mono_sublist)

lemma str_len_trim_le: "str_len (trim s) \<le> str_len s"
  by (rule str_len_sublist) (rule trim_sublist)

lemma valid_str_trim: "valid_str s \<Longrightarrow> valid_str (trim s)"
  by (rule valid_str_subset) (auto dest: set_mono_sublist [OF trim_sublist, THEN subsetD])

lemma dropWhile_rev_idem:
  "dropWhile P (rev (dropWhile P (rev (dropWhile P s)))) = rev (dropWhile P (rev (dropWhile P s)))"
proof (cases "dropWhile P s")
  case Nil
  show ?thesis unfolding Nil by simp
next
  case (Cons x xs)
  then have "\<not> P x" by (metis dropWhile_eq_Cons_conv)
  have "dropWhile P (rev xs @ [x]) = dropWhile P (rev xs) @ [x]"
    using \<open>\<not> P x\<close> by (induction xs rule: rev_induct) auto
  with Cons \<open>\<not> P x\<close> show ?thesis by simp
qed

lemma trim_idem [simp]: "trim (trim s) = trim s"
  unfolding trim_def trim_end_def trim_start_def by (simp add: dropWhile_rev_idem)

subsection \<open>Byte-indexed searching and slicing\<close>

text \<open>\<^verbatim>\<open>s.find(needle)\<close> with a string needle: the byte index of the first occurrence.\<close>

fun str_find :: "ustr \<Rightarrow> ustr \<Rightarrow> nat option" where
  "str_find n [] = (if n = [] then Some 0 else None)"
| "str_find n (c # s) =
     (if prefix n (c # s) then Some 0 else map_option (\<lambda>i. len_utf8 c + i) (str_find n s))"

text \<open>\<^verbatim>\<open>s.rfind(c)\<close> with a character: the byte index of its last occurrence.\<close>

fun str_rfind :: "uchar \<Rightarrow> ustr \<Rightarrow> nat option" where
  "str_rfind c [] = None"
| "str_rfind c (d # s) =
     (case str_rfind c s of
        Some i \<Rightarrow> Some (len_utf8 d + i)
      | None \<Rightarrow> if d = c then Some 0 else None)"

text \<open>Cutting at a byte index: \<open>None\<close> past the end or inside a character, where \<^verbatim>\<open>get\<close> returns
  \<^verbatim>\<open>None\<close> and the index operator panics.\<close>

fun split_at_byte :: "nat \<Rightarrow> ustr \<Rightarrow> (ustr \<times> ustr) option" where
  "split_at_byte i [] = (if i = 0 then Some ([], []) else None)"
| "split_at_byte i (c # s) =
     (if i = 0 then Some ([], c # s)
      else if i < len_utf8 c then None
      else map_option (\<lambda>(a, b). (c # a, b)) (split_at_byte (i - len_utf8 c) s))"

definition str_from :: "nat \<Rightarrow> ustr \<Rightarrow> ustr option" where
  "str_from i s = map_option snd (split_at_byte i s)"

definition str_to :: "nat \<Rightarrow> ustr \<Rightarrow> ustr option" where
  "str_to i s = map_option fst (split_at_byte i s)"

definition str_get :: "nat \<Rightarrow> nat \<Rightarrow> ustr \<Rightarrow> ustr option" where
  "str_get i j s = (if i \<le> j then Option.bind (str_to j s) (str_from i) else None)"

lemma split_at_byte_append [simp]: "split_at_byte (str_len a) (a @ b) = Some (a, b)"
proof (induction a)
  case Nil
  then show ?case by (cases b) auto
qed auto

lemma split_at_byte_append_add:
  "split_at_byte (str_len a + i) (a @ b) = map_option (\<lambda>(x, y). (a @ x, y)) (split_at_byte i b)"
  by (induction a) (auto simp: option.map_comp comp_def case_prod_beta option.map_ident)

lemma split_at_byte_SomeD: "split_at_byte i s = Some (a, b) \<Longrightarrow> s = a @ b \<and> str_len a = i"
  by (induction i s arbitrary: a rule: split_at_byte.induct) (auto split: if_splits)

lemma str_from_append [simp]: "str_from (str_len a) (a @ b) = Some b"
  by (simp add: str_from_def)

lemma str_to_append [simp]: "str_to (str_len a) (a @ b) = Some a"
  by (simp add: str_to_def)

lemma str_from_SomeD: "str_from i s = Some b \<Longrightarrow> \<exists>a. s = a @ b \<and> str_len a = i"
  by (auto simp: str_from_def dest: split_at_byte_SomeD)

lemma str_get_append: "str_get (str_len a) (str_len a + str_len b) (a @ b @ c) = Some b"
proof -
  have "str_to (str_len a + str_len b) (a @ b @ c) = Some (a @ b)"
    using str_to_append [of "a @ b" c] by simp
  then show ?thesis by (simp add: str_get_def)
qed

lemma str_find_SomeD:
  "str_find n s = Some i \<Longrightarrow> \<exists>a b. s = a @ n @ b \<and> str_len a = i \<and> (\<forall>a' b'. s = a' @ n @ b' \<longrightarrow> length a \<le> length a')"
proof (induction n s arbitrary: i rule: str_find.induct)
  case (1 n)
  then show ?case by (auto split: if_splits)
next
  case (2 n c s)
  show ?case
  proof (cases "prefix n (c # s)")
    case True
    then obtain b where "c # s = n @ b" by (auto simp: prefix_def)
    moreover have "i = 0" using True 2(2) by simp
    ultimately show ?thesis
      by (intro exI [of _ "[]"] exI [of _ b]) simp
  next
    case False
    then obtain j where j: "str_find n s = Some j" "i = len_utf8 c + j" using 2(2) by auto
    from 2(1) [OF False j(1)] obtain a b where ab: "s = a @ n @ b" "str_len a = j"
      and least: "\<forall>a' b'. s = a' @ n @ b' \<longrightarrow> length a \<le> length a'" by blast
    have "length (c # a) \<le> length a'" if "c # s = a' @ n @ b'" for a' b'
    proof (cases a')
      case Nil
      with that False show ?thesis by (simp add: prefix_def)
    next
      case (Cons d a'')
      with that least show ?thesis by auto
    qed
    with ab j show ?thesis by (intro exI [of _ "c # a"] exI [of _ b]) auto
  qed
qed

lemma str_find_NoneD: "str_find n s = None \<longleftrightarrow> \<not> sublist n s"
  by (induction n s rule: str_find.induct) (auto simp: sublist_Cons_right)

text \<open>The first occurrence of \<open>n\<close> in \<open>a @ n @ b\<close> is at \<open>a\<close> when no earlier one starts in \<open>a\<close>.\<close>

lemma str_find_at:
  assumes "\<forall>p q. a = p @ q \<and> q \<noteq> [] \<longrightarrow> \<not> prefix n (q @ n @ b)"
  shows "str_find n (a @ n @ b) = Some (str_len a)"
  using assms
proof (induction a)
  case Nil
  have "prefix n (n @ b)" by simp
  then have "str_find n (n @ b) = Some 0" by (cases "n @ b") simp_all
  then show ?case by simp
next
  case (Cons c a)
  have "\<not> prefix n (c # a @ n @ b)" using Cons.prems by (metis append_Cons append_Nil list.distinct(1))
  moreover have "\<forall>p q. a = p @ q \<and> q \<noteq> [] \<longrightarrow> \<not> prefix n (q @ n @ b)"
    using Cons.prems by (metis append_Cons)
  ultimately show ?case using Cons.IH by simp
qed

lemma str_rfind_None: "str_rfind c s = None \<longleftrightarrow> c \<notin> set s"
  by (induction s) (auto split: option.splits)

lemma str_rfind_SomeD:
  "str_rfind c s = Some i \<Longrightarrow> \<exists>a b. s = a @ c # b \<and> str_len a = i \<and> c \<notin> set b"
proof (induction s arbitrary: i)
  case (Cons d s)
  show ?case
  proof (cases "str_rfind c s")
    case None
    with Cons.prems show ?thesis
      by (intro exI [of _ "[]"] exI [of _ s]) (auto split: if_splits simp: str_rfind_None)
  next
    case (Some j)
    from Cons.IH [OF Some] obtain a b where "s = a @ c # b" "str_len a = j" "c \<notin> set b" by blast
    with Cons.prems Some show ?thesis by (intro exI [of _ "d # a"] exI [of _ b]) auto
  qed
qed simp

end
