(* ===== verification/Rust_Io.thy ===== *)
theory Rust_Io
  imports Prelude
begin

section \<open>Byte streams\<close>

text \<open>
  The reading side of a connection. A reader is used through two operations, \<^verbatim>\<open>read\<close> and
  \<^verbatim>\<open>read_exact\<close>, passed as a record \<open>read_ops\<close>: the program's decoders are generic in the
  reader (\<^verbatim>\<open>R: Read\<close>, \<^verbatim>\<open>R: AsyncRead\<close>), and so are their models. The locale \<open>byte_reader\<close> states
  what the documentation of these operations promises while the transport does not fail;
  the standard library's behaviour on a scripted transport (a list of arriving chunks and
  failures, with \<^verbatim>\<open>read_exact\<close> retrying on \<^verbatim>\<open>Interrupted\<close>) is an instance of it.
\<close>

datatype error_kind =
    Interrupted | UnexpectedEof | TimedOut | InvalidInput | BrokenPipe
  | ConnectionAborted | ConnectionReset | OtherKind nat

record 'r read_ops =
  op_read :: "nat \<Rightarrow> 'r \<Rightarrow> (bytes, error_kind) result \<times> 'r"
  op_read_exact :: "nat \<Rightarrow> 'r \<Rightarrow> (bytes, error_kind) result \<times> 'r"

text \<open>\<open>avail r\<close> are the bytes still to come before the end of the stream; \<open>live r\<close> says that no
  transport failure comes before it.\<close>

locale byte_reader =
  fixes ops :: "'r read_ops"
    and avail :: "'r \<Rightarrow> bytes"
    and live :: "'r \<Rightarrow> bool"
  assumes read_live:
    "live r \<Longrightarrow> 0 < n \<Longrightarrow>
       \<exists>bs r'. op_read ops n r = (Ok bs, r') \<and> live r' \<and> avail r = bs @ avail r' \<and>
         length bs \<le> n \<and> (bs = [] \<longrightarrow> avail r = [])"
    and read_exact_live:
    "live r \<Longrightarrow> n \<le> length (avail r) \<Longrightarrow>
       \<exists>r'. op_read_exact ops n r = (Ok (take n (avail r)), r') \<and> live r' \<and> avail r' = drop n (avail r)"
    and read_exact_short:
    "live r \<Longrightarrow> length (avail r) < n \<Longrightarrow> \<exists>r'. op_read_exact ops n r = (Err UnexpectedEof, r') \<and> live r'"

subsection \<open>The scripted transport\<close>

datatype chunk = Data bytes | Fail error_kind

type_synonym script = "chunk list"

fun script_read :: "nat \<Rightarrow> script \<Rightarrow> (bytes, error_kind) result \<times> script" where
  "script_read n [] = (Ok [], [])"
| "script_read n (Fail k # r) = (Err k, r)"
| "script_read n (Data bs # r) =
     (Ok (take n bs), if length bs \<le> n then r else Data (drop n bs) # r)"

lemma script_read_shrinks:
  "script_read n r = (Err k, r') \<Longrightarrow> length r' < length r"
  "script_read n r = (Ok bs, r') \<Longrightarrow> length r' \<le> length r"
  by (cases "(n, r)" rule: script_read.cases; auto split: if_splits)+

lemma script_read_nonempty: "script_read n r = (Ok bs, r') \<Longrightarrow> length bs \<le> n"
  by (cases "(n, r)" rule: script_read.cases) auto

text \<open>\<^verbatim>\<open>Read::read_exact\<close>: read until the buffer is full, an end of stream or an error other than
  \<^verbatim>\<open>Interrupted\<close>.\<close>

function script_read_exact :: "nat \<Rightarrow> script \<Rightarrow> (bytes, error_kind) result \<times> script" where
  "script_read_exact n r =
     (if n = 0 then (Ok [], r)
      else
        (case script_read n r of
           (Ok bs, r') \<Rightarrow>
             if bs = [] then (Err UnexpectedEof, r')
             else
               (case script_read_exact (n - length bs) r' of
                  (Ok cs, r'') \<Rightarrow> (Ok (bs @ cs), r'')
                | other \<Rightarrow> other)
         | (Err k, r') \<Rightarrow> if k = Interrupted then script_read_exact n r' else (Err k, r')
         | (Panic, r') \<Rightarrow> (Panic, r')))"
  by pat_completeness auto
termination
proof (relation "measure (\<lambda>(n, r). n + length r)")
  fix n :: nat and r :: script and res :: "(bytes, error_kind) result" and r' :: script and bs
  assume n: "n \<noteq> 0" and p: "(res, r') = script_read n r" "res = Ok bs" and bs: "bs \<noteq> []"
  have "script_read n r = (Ok bs, r')" using p by simp
  then have "length r' \<le> length r" "length bs \<le> n" "bs \<noteq> []"
    using bs by (auto dest: script_read_shrinks(2) script_read_nonempty)
  then show "((n - length bs, r'), (n, r)) \<in> measure (\<lambda>(n, r). n + length r)"
    using n by (cases bs) auto
next
  fix n :: nat and r :: script and res :: "(bytes, error_kind) result" and r' :: script and k
  assume "(res, r') = script_read n r" "res = Err k"
  then have "script_read n r = (Err k, r')" by simp
  then show "((n, r'), (n, r)) \<in> measure (\<lambda>(n, r). n + length r)"
    using script_read_shrinks(1) by auto
qed simp

declare script_read_exact.simps [simp del]

definition script_ops :: "script read_ops" where
  "script_ops = \<lparr>op_read = script_read, op_read_exact = script_read_exact\<rparr>"

fun script_bytes :: "script \<Rightarrow> bytes" where
  "script_bytes [] = []"
| "script_bytes (Data bs # r) = bs @ script_bytes r"
| "script_bytes (Fail k # r) = []"

fun script_live :: "script \<Rightarrow> bool" where
  "script_live [] = True"
| "script_live (Data bs # r) \<longleftrightarrow> bs \<noteq> [] \<and> script_live r"
| "script_live (Fail k # r) = False"

lemma script_read_live:
  assumes "script_live r" and "0 < n"
  shows "\<exists>bs r'. script_read n r = (Ok bs, r') \<and> script_live r' \<and>
           script_bytes r = bs @ script_bytes r' \<and> length bs \<le> n \<and> (bs = [] \<longrightarrow> script_bytes r = [])"
  using assms by (cases r rule: script_live.cases) auto

lemma script_read_exact_live:
  "script_live r \<Longrightarrow> n \<le> length (script_bytes r) \<Longrightarrow>
     \<exists>r'. script_read_exact n r = (Ok (take n (script_bytes r)), r') \<and> script_live r' \<and>
       script_bytes r' = drop n (script_bytes r)"
proof (induction n r rule: script_read_exact.induct)
  case (1 n r)
  show ?case
  proof (cases "n = 0")
    case True
    with 1(3) show ?thesis by (simp add: script_read_exact.simps)
  next
    case False
    then obtain bs r' where rd: "script_read n r = (Ok bs, r')" and l: "script_live r'"
      and b: "script_bytes r = bs @ script_bytes r'" "length bs \<le> n" "bs = [] \<longrightarrow> script_bytes r = []"
      using script_read_live [OF 1(3), of n] by auto
    have ne: "bs \<noteq> []" using b(3) 1(4) False by auto
    have "n - length bs \<le> length (script_bytes r')" using 1(4) b by simp
    from 1(1) [OF False rd [symmetric] refl ne l this] obtain r'' where
      "script_read_exact (n - length bs) r' = (Ok (take (n - length bs) (script_bytes r')), r'')"
      "script_live r''" "script_bytes r'' = drop (n - length bs) (script_bytes r')"
      by blast
    with False rd ne b show ?thesis by (subst script_read_exact.simps) simp
  qed
qed

lemma script_read_exact_short:
  "script_live r \<Longrightarrow> length (script_bytes r) < n \<Longrightarrow>
     \<exists>r'. script_read_exact n r = (Err UnexpectedEof, r') \<and> script_live r'"
proof (induction n r rule: script_read_exact.induct)
  case (1 n r)
  have n: "n \<noteq> 0" using 1(4) by simp
  then obtain bs r' where rd: "script_read n r = (Ok bs, r')" and l: "script_live r'"
    and b: "script_bytes r = bs @ script_bytes r'" "length bs \<le> n"
    using script_read_live [OF 1(3), of n] by auto
  show ?case
  proof (cases "bs = []")
    case True
    with n rd l show ?thesis by (subst script_read_exact.simps) simp
  next
    case False
    have "length (script_bytes r') < n - length bs" using 1(4) b by simp
    from 1(1) [OF n rd [symmetric] refl False l this] show ?thesis
      using n rd False by (subst script_read_exact.simps) auto
  qed
qed

interpretation script: byte_reader script_ops script_bytes script_live
  by unfold_locales
    (simp_all add: script_ops_def script_read_live script_read_exact_live script_read_exact_short)

end
