(* ===== verification/Protocol.thy ===== *)
theory Protocol
  imports Rust_Str Rust_Io
begin

section \<open>The wire protocol\<close>

text \<open>
  Model of \<^verbatim>\<open>crates/protocol/src/lib.rs\<close>: frames (a six-byte header with version, type and a
  big-endian length, then the payload), presence payloads, chat-line formatting and parsing,
  and mention detection. The blocking decoder \<open>read_frame\<close> is generic in its reader, as in
  the source; inside the locale \<open>byte_reader\<close> it is shown to compute \<open>decode_frame\<close>, the
  same decoder on the plain byte sequence, whatever the chunking of the transport.
\<close>

unbundle bit_operations_syntax

definition CURRENT_PROTOCOL_VERSION :: u8 where
  [limits]: "CURRENT_PROTOCOL_VERSION = 1"

definition FRAME_HEADER_BYTES :: nat where
  [limits]: "FRAME_HEADER_BYTES = 6"

definition MAX_CHAT_MESSAGE_BYTES :: nat where
  [limits]: "MAX_CHAT_MESSAGE_BYTES = 4 * 1024"

definition MAX_FRAME_PAYLOAD_BYTES :: nat where
  [limits]: "MAX_FRAME_PAYLOAD_BYTES = 16 * 1024"

datatype frame_type = Handshake | Chat | Presence

datatype frame_error =
    FrameIo error_kind
  | UnsupportedVersion u8
  | UnknownType u8
  | TooLarge nat
  | InvalidUsername
  | Truncated

record frame =
  version :: u8
  kind :: frame_type
  payload :: bytes

fun frame_type_as_u8 :: "frame_type \<Rightarrow> u8" where
  "frame_type_as_u8 Handshake = 1"
| "frame_type_as_u8 Chat = 2"
| "frame_type_as_u8 Presence = 3"

definition frame_type_try_from :: "u8 \<Rightarrow> (frame_type, frame_error) result" where
  "frame_type_try_from v =
     (if v = 1 then Ok Handshake
      else if v = 2 then Ok Chat
      else if v = 3 then Ok Presence
      else Err (UnknownType v))"

lemma frame_type_roundtrip [simp]: "frame_type_try_from (frame_type_as_u8 k) = Ok k"
  by (cases k) (auto simp: frame_type_try_from_def)

lemma frame_type_try_from_Ok: "frame_type_try_from v = Ok k \<longleftrightarrow> v = frame_type_as_u8 k"
  by (cases k) (auto simp: frame_type_try_from_def split: if_splits)

lemma frame_type_try_from_no_panic [simp]: "frame_type_try_from v \<noteq> Panic"
  by (simp add: frame_type_try_from_def)

subsection \<open>Encoding a frame\<close>

definition encode_frame :: "frame_type \<Rightarrow> bytes \<Rightarrow> (bytes, frame_error) result" where
  "encode_frame k p =
     (if length p > MAX_FRAME_PAYLOAD_BYTES then Err (TooLarge (length p))
      else
        let len = (of_nat (length p) :: u64) in
        Ok ([CURRENT_PROTOCOL_VERSION,
             frame_type_as_u8 k,
             ucast (drop_bit 24 len AND 0xff),
             ucast (drop_bit 16 len AND 0xff),
             ucast (drop_bit 8 len AND 0xff),
             ucast (len AND 0xff)] @ p))"

subsection \<open>Reading a frame\<close>

text \<open>\<^verbatim>\<open>read_header\<close> loops over \<^verbatim>\<open>read\<close> until six bytes are there; \<open>hdr\<close> is what has been read so
  far. The result \<open>Ok None\<close> is the source's \<^verbatim>\<open>Ok(false)\<close>, \<open>Ok (Some hdr)\<close> its \<^verbatim>\<open>Ok(true)\<close> with the
  filled buffer.\<close>

function read_header :: "'r read_ops \<Rightarrow> bytes \<Rightarrow> 'r \<Rightarrow> (bytes option, frame_error) result \<times> 'r" where
  "read_header ops hdr r =
     (if length hdr < FRAME_HEADER_BYTES then
        (case op_read ops (FRAME_HEADER_BYTES - length hdr) r of
           (Ok bs, r') \<Rightarrow>
             if bs = [] then (if hdr = [] then (Ok None, r') else (Err Truncated, r'))
             else read_header ops (hdr @ bs) r'
         | (Err k, r') \<Rightarrow> (Err (FrameIo k), r')
         | (Panic, r') \<Rightarrow> (Panic, r'))
      else (Ok (Some hdr), r))"
  by pat_completeness auto
termination
  by (relation "measure (\<lambda>(ops, hdr, r). FRAME_HEADER_BYTES - length hdr)")
    (auto simp flip: length_greater_0_conv)

declare read_header.simps [simp del]

definition payload_length :: "bytes \<Rightarrow> nat" where
  "payload_length header = unat (from_be_u32 (header ! 2) (header ! 3) (header ! 4) (header ! 5))"

definition read_frame :: "'r read_ops \<Rightarrow> 'r \<Rightarrow> (frame option, frame_error) result \<times> 'r" where
  "read_frame ops r =
     seq (read_header ops [] r) (\<lambda>hdr r.
       case hdr of
         None \<Rightarrow> (Ok None, r)
       | Some header \<Rightarrow>
           if header ! 0 \<noteq> CURRENT_PROTOCOL_VERSION then (Err (UnsupportedVersion (header ! 0)), r)
           else
             (case frame_type_try_from (header ! 1) of
                Ok k \<Rightarrow>
                  let payload_len = payload_length header in
                  if payload_len > MAX_FRAME_PAYLOAD_BYTES then (Err (TooLarge payload_len), r)
                  else
                    (case op_read_exact ops payload_len r of
                       (Ok p, r') \<Rightarrow> (Ok (Some \<lparr>version = header ! 0, kind = k, payload = p\<rparr>), r')
                     | (Err e, r') \<Rightarrow>
                         (Err (if e = UnexpectedEof then Truncated else FrameIo e), r')
                     | (Panic, r') \<Rightarrow> (Panic, r'))
              | Err e \<Rightarrow> (Err e, r)
              | Panic \<Rightarrow> (Panic, r)))"

subsection \<open>Frames as byte sequences\<close>

text \<open>
  The specification of both decoders of the program: what a byte sequence up to the end of
  the stream means. \<open>decode_frame bs\<close> is the first frame of \<open>bs\<close> and the bytes after it.
\<close>

definition decode_frame :: "bytes \<Rightarrow> (frame option \<times> bytes, frame_error) result" where
  "decode_frame bs =
     (if bs = [] then Ok (None, [])
      else if length bs < FRAME_HEADER_BYTES then Err Truncated
      else if bs ! 0 \<noteq> CURRENT_PROTOCOL_VERSION then Err (UnsupportedVersion (bs ! 0))
      else
        (case frame_type_try_from (bs ! 1) of
           Ok k \<Rightarrow>
             if payload_length bs > MAX_FRAME_PAYLOAD_BYTES then Err (TooLarge (payload_length bs))
             else if length bs < FRAME_HEADER_BYTES + payload_length bs then Err Truncated
             else
               Ok (Some \<lparr>version = bs ! 0, kind = k,
                         payload = take (payload_length bs) (drop FRAME_HEADER_BYTES bs)\<rparr>,
                   drop (FRAME_HEADER_BYTES + payload_length bs) bs)
         | Err e \<Rightarrow> Err e
         | Panic \<Rightarrow> Panic))"

text \<open>A frame the encoder can produce, and its bytes.\<close>

definition wf_frame :: "frame \<Rightarrow> bool" where
  "wf_frame f \<longleftrightarrow> version f = CURRENT_PROTOCOL_VERSION \<and> length (payload f) \<le> MAX_FRAME_PAYLOAD_BYTES"

definition frame_bytes :: "frame \<Rightarrow> bytes" where
  "frame_bytes f = (case encode_frame (kind f) (payload f) of Ok bs \<Rightarrow> bs | _ \<Rightarrow> [])"

lemma encode_frame_Ok_iff:
  "(\<exists>bs. encode_frame k p = Ok bs) \<longleftrightarrow> length p \<le> MAX_FRAME_PAYLOAD_BYTES"
  by (auto simp: encode_frame_def Let_def)

lemma encode_frame_no_panic [simp]: "encode_frame k p \<noteq> Panic"
  by (simp add: encode_frame_def Let_def)

lemma encode_frame_length:
  "encode_frame k p = Ok bs \<Longrightarrow> length bs = FRAME_HEADER_BYTES + length p"
  by (auto simp: encode_frame_def Let_def FRAME_HEADER_BYTES_def split: if_splits)

lemma payload_length_encode:
  assumes "encode_frame k p = Ok bs"
  shows "payload_length (bs @ rest) = length p"
proof -
  have len: "length p \<le> 16384" using assms by (auto simp: encode_frame_def limits split: if_splits)
  have "from_be_u32 ((bs @ rest) ! 2) ((bs @ rest) ! 3) ((bs @ rest) ! 4) ((bs @ rest) ! 5)
      = ucast (of_nat (length p) :: u64)"
    using assms by (auto simp: encode_frame_def Let_def from_be_u32_of_usize [simplified] split: if_splits)
  moreover have "unat (ucast (of_nat (length p) :: u64) :: u32) = length p"
    using len by (simp add: unsigned_ucast_eq take_bit_eq_mod unat_of_nat)
  ultimately show ?thesis by (simp add: payload_length_def)
qed

lemma decode_frame_encode:
  assumes "encode_frame k p = Ok bs"
  shows "decode_frame (bs @ rest) =
           Ok (Some \<lparr>version = CURRENT_PROTOCOL_VERSION, kind = k, payload = p\<rparr>, rest)"
proof -
  have h: "length bs = 6 + length p" "(bs @ rest) ! 0 = CURRENT_PROTOCOL_VERSION"
    "(bs @ rest) ! 1 = frame_type_as_u8 k" "drop 6 (bs @ rest) = p @ rest" "bs \<noteq> []"
    using assms by (auto simp: encode_frame_def Let_def split: if_splits)
  have "length p \<le> MAX_FRAME_PAYLOAD_BYTES" using assms encode_frame_Ok_iff by blast
  moreover have "drop (6 + length p) (bs @ rest) = rest" by (simp add: h(1))
  ultimately show ?thesis
    unfolding decode_frame_def payload_length_encode [OF assms]
    using h by (simp add: FRAME_HEADER_BYTES_def)
qed

lemma decode_frame_wf:
  assumes "wf_frame f"
  shows "decode_frame (frame_bytes f @ rest) = Ok (Some f, rest)"
proof -
  from assms obtain bs where bs: "encode_frame (kind f) (payload f) = Ok bs"
    using encode_frame_Ok_iff by (auto simp: wf_frame_def)
  then show ?thesis
    using decode_frame_encode [OF bs, of rest] assms
    by (cases f) (simp add: frame_bytes_def wf_frame_def)
qed

text \<open>The decoder accepts only canonical encodings: what it returns re-encodes to what it read.\<close>

lemma to_be_split_u32:
  fixes a b c d :: u8
  defines "n \<equiv> (of_nat (unat (from_be_u32 a b c d)) :: u64)"
  shows "ucast (drop_bit 24 n AND 255) = a" "ucast (drop_bit 16 n AND 255) = b"
    "ucast (drop_bit 8 n AND 255) = c" "ucast (n AND 255) = d"
proof -
  have n: "n = ucast (from_be_u32 a b c d)" by (simp add: n_def unsigned_ucast_eq)
  show "ucast (drop_bit 24 n AND 255) = a" "ucast (drop_bit 16 n AND 255) = b"
    "ucast (drop_bit 8 n AND 255) = c" "ucast (n AND 255) = d"
    unfolding n and_255 from_be_u32_def by (rule bit_word_eqI, auto simp: bit_simps)+
qed

lemma decode_frame_canonical:
  assumes "decode_frame bs = Ok (Some f, rest)"
  shows "wf_frame f" and "bs = frame_bytes f @ rest"
proof -
  obtain k where k: "frame_type_try_from (bs ! 1) = Ok k"
    and len: "FRAME_HEADER_BYTES + payload_length bs \<le> length bs"
      "payload_length bs \<le> MAX_FRAME_PAYLOAD_BYTES"
    and v: "bs ! 0 = CURRENT_PROTOCOL_VERSION"
    and f: "f = \<lparr>version = bs ! 0, kind = k, payload = take (payload_length bs) (drop FRAME_HEADER_BYTES bs)\<rparr>"
    and rest: "rest = drop (FRAME_HEADER_BYTES + payload_length bs) bs"
    using assms by (auto simp: decode_frame_def split: if_splits result.splits)
  have p: "length (payload f) = payload_length bs" using len(1) f by simp
  then show wf: "wf_frame f" using len(2) v f by (simp add: wf_frame_def)
  obtain b0 b1 b2 b3 b4 b5 t where bs: "bs = b0 # b1 # b2 # b3 # b4 # b5 # t"
  proof -
    have "6 \<le> length bs" using len(1) by (simp add: FRAME_HEADER_BYTES_def)
    then show ?thesis
      using that by (auto simp: Suc_le_length_iff numeral_eq_Suc)
  qed
  have n: "payload_length bs = unat (from_be_u32 b2 b3 b4 b5)" by (simp add: bs payload_length_def)
  have "t = drop FRAME_HEADER_BYTES bs" by (simp add: bs FRAME_HEADER_BYTES_def)
  moreover have "rest = drop (payload_length bs) (drop FRAME_HEADER_BYTES bs)"
    by (simp add: rest add.commute)
  ultimately have t: "t = payload f @ rest"
    unfolding f by (simp only: frame.select_convs append_take_drop_id)
  have "b1 = frame_type_as_u8 (kind f)" using k f by (simp add: bs frame_type_try_from_Ok)
  moreover have "b0 = CURRENT_PROTOCOL_VERSION" using v by (simp add: bs)
  moreover have "length (payload f) = unat (from_be_u32 b2 b3 b4 b5)" by (simp add: p n)
  then have "frame_bytes f = [CURRENT_PROTOCOL_VERSION, frame_type_as_u8 (kind f), b2, b3, b4, b5] @ payload f"
    using wf unfolding frame_bytes_def encode_frame_def wf_frame_def Let_def
    by (simp only: to_be_split_u32) simp
  ultimately show "bs = frame_bytes f @ rest" using t bs by simp
qed

lemma frame_bytes_nonempty [simp]: "wf_frame f \<Longrightarrow> frame_bytes f \<noteq> []"
  by (auto simp: frame_bytes_def wf_frame_def encode_frame_def Let_def)

subsection \<open>The blocking decoder refines the byte-level one\<close>

context byte_reader
begin

lemma read_header_live:
  "live r \<Longrightarrow> length hdr < FRAME_HEADER_BYTES \<Longrightarrow> avail r \<noteq> [] \<or> hdr \<noteq> [] \<Longrightarrow>
   FRAME_HEADER_BYTES \<le> length hdr + length (avail r) \<Longrightarrow>
   \<exists>r'. read_header ops hdr r = (Ok (Some (take FRAME_HEADER_BYTES (hdr @ avail r))), r') \<and> live r' \<and>
     avail r' = drop FRAME_HEADER_BYTES (hdr @ avail r)"
proof (induction "FRAME_HEADER_BYTES - length hdr" arbitrary: hdr r rule: less_induct)
  case 1: less
  let ?n = "FRAME_HEADER_BYTES - length hdr"
  have "0 < ?n" using 1(3) by simp
  from read_live [OF 1(2) this] obtain bs r' where rd: "op_read ops ?n r = (Ok bs, r')"
    and l: "live r'" and b: "avail r = bs @ avail r'" "length bs \<le> ?n" "bs = [] \<longrightarrow> avail r = []"
    by blast
  have ne: "bs \<noteq> []" using b(3) 1(5) \<open>0 < ?n\<close> by auto
  show ?case
  proof (cases "length (hdr @ bs) < FRAME_HEADER_BYTES")
    case True
    have "FRAME_HEADER_BYTES - length (hdr @ bs) < ?n" using ne 1(3) by (simp flip: length_greater_0_conv)
    from 1(1) [OF this l True _] b(1) 1(5) ne
    obtain r'' where "read_header ops (hdr @ bs) r' =
        (Ok (Some (take FRAME_HEADER_BYTES ((hdr @ bs) @ avail r'))), r'') \<and> live r'' \<and>
        avail r'' = drop FRAME_HEADER_BYTES ((hdr @ bs) @ avail r')" by auto
    with 1(3) rd ne b(1) show ?thesis by (subst read_header.simps) simp
  next
    case False
    then have "length (hdr @ bs) = FRAME_HEADER_BYTES" using b(2) 1(3) by simp
    moreover from this have "read_header ops (hdr @ bs) r' = (Ok (Some (hdr @ bs)), r')"
      by (simp add: read_header.simps)
    ultimately show ?thesis
      using 1(3) rd ne b(1) l by (subst read_header.simps) simp
  qed
qed

lemma read_header_short:
  "live r \<Longrightarrow> length hdr + length (avail r) < FRAME_HEADER_BYTES \<Longrightarrow>
   \<exists>r'. read_header ops hdr r = (if hdr = [] \<and> avail r = [] then Ok None else Err Truncated, r') \<and>
     live r' \<and> (avail r = [] \<longrightarrow> avail r' = [])"
proof (induction "FRAME_HEADER_BYTES - length hdr" arbitrary: hdr r rule: less_induct)
  case 1: less
  let ?n = "FRAME_HEADER_BYTES - length hdr"
  have "0 < ?n" and h: "length hdr < FRAME_HEADER_BYTES" using 1(3) by simp_all
  from read_live [OF 1(2) \<open>0 < ?n\<close>] obtain bs r' where rd: "op_read ops ?n r = (Ok bs, r')"
    and l: "live r'" and b: "avail r = bs @ avail r'" "bs = [] \<longrightarrow> avail r = []"
    by blast
  show ?case
  proof (cases "bs = []")
    case True
    with h rd b l show ?thesis by (subst read_header.simps) simp
  next
    case False
    have "FRAME_HEADER_BYTES - length (hdr @ bs) < ?n" using False h by (simp flip: length_greater_0_conv)
    from 1(1) [OF this l] b(1) 1(3) False
    have "\<exists>r''. read_header ops (hdr @ bs) r' = (Err Truncated, r'') \<and> live r''" by auto
    with h rd False b(1) show ?thesis by (subst read_header.simps) auto
  qed
qed

lemma read_header_cases:
  assumes "live r"
  obtains (eof) r' where "avail r = []" "read_header ops [] r = (Ok None, r')" "live r'" "avail r' = []"
  | (short) r' where "avail r \<noteq> []" "length (avail r) < FRAME_HEADER_BYTES"
      "read_header ops [] r = (Err Truncated, r')" "live r'"
  | (full) r' where "FRAME_HEADER_BYTES \<le> length (avail r)"
      "read_header ops [] r = (Ok (Some (take FRAME_HEADER_BYTES (avail r))), r')"
      "live r'" "avail r' = drop FRAME_HEADER_BYTES (avail r)"
proof (cases "length (avail r) < FRAME_HEADER_BYTES")
  case True
  with read_header_short [OF assms, of "[]"] eof short show ?thesis by (cases "avail r = []") auto
next
  case False
  then have "avail r \<noteq> []" by (auto simp: FRAME_HEADER_BYTES_def)
  with False read_header_live [OF assms, of "[]"] full show ?thesis by (auto simp: FRAME_HEADER_BYTES_def)
qed

text \<open>The result of \<open>read_frame\<close> on a live reader is that of \<open>decode_frame\<close> on its bytes, and the
  reader is left where the frame ends.\<close>

lemma read_frame_refines:
  assumes "live r"
  shows "\<exists>r'. live r' \<and>
    (case decode_frame (avail r) of
       Ok (fo, rest) \<Rightarrow> read_frame ops r = (Ok fo, r') \<and> avail r' = rest
     | Err e \<Rightarrow> read_frame ops r = (Err e, r')
     | Panic \<Rightarrow> False)"
  using assms
proof (cases r rule: read_header_cases)
  case (eof r')
  then show ?thesis by (auto simp: read_frame_def decode_frame_def)
next
  case (short r')
  then show ?thesis by (auto simp: read_frame_def decode_frame_def)
next
  case (full r')
  let ?bs = "avail r" and ?h = "take FRAME_HEADER_BYTES (avail r)"
  have h: "?h ! 0 = ?bs ! 0" "?h ! 1 = ?bs ! 1" "payload_length ?h = payload_length ?bs" "?bs \<noteq> []"
    using full(1) by (auto simp: FRAME_HEADER_BYTES_def payload_length_def)
  have n: "length ?bs < FRAME_HEADER_BYTES + payload_length ?bs \<longleftrightarrow> length (avail r') < payload_length ?bs"
    using full(1,4) by auto
  show ?thesis
  proof (cases "length (avail r') < payload_length ?bs")
    case True
    from read_exact_short [OF full(3) this] obtain r'' where
      "op_read_exact ops (payload_length ?bs) r' = (Err UnexpectedEof, r'')" "live r''" by blast
    with True full h n show ?thesis
      by (auto simp: read_frame_def decode_frame_def Let_def split: result.splits)
  next
    case False
    then have "payload_length ?bs \<le> length (avail r')" by simp
    from read_exact_live [OF full(3) this] obtain r'' where
      "op_read_exact ops (payload_length ?bs) r' = (Ok (take (payload_length ?bs) (avail r')), r'')"
      "live r''" "avail r'' = drop (payload_length ?bs) (avail r')" by blast
    with False full h n show ?thesis
      by (auto simp: read_frame_def decode_frame_def Let_def drop_drop add.commute split: result.splits)
  qed
qed

end

subsection \<open>A source of frames\<close>

text \<open>
  What both decoders of the program (\<open>read_frame\<close> here, the server's asynchronous one) promise
  their callers: an encoded frame comes back as it was, the bytes after it are left, and the
  end of the stream between two frames is not an error. The locale's lemma, that a stream of
  encoded frames is read back frame by frame, is proved once for both.
\<close>

fun read_frames :: "('r \<Rightarrow> (frame option, 'e) result \<times> 'r) \<Rightarrow> nat \<Rightarrow> 'r \<Rightarrow> (frame list, 'e) result \<times> 'r" where
  "read_frames dec 0 r = (Ok [], r)"
| "read_frames dec (Suc n) r =
     seq (dec r) (\<lambda>fo r.
       case fo of
         None \<Rightarrow> (Ok [], r)
       | Some f \<Rightarrow> seq (read_frames dec n r) (\<lambda>fs r. (Ok (f # fs), r)))"

locale frame_source =
  fixes dec :: "'r \<Rightarrow> (frame option, 'e) result \<times> 'r"
    and avail :: "'r \<Rightarrow> bytes"
    and live :: "'r \<Rightarrow> bool"
  assumes dec_frame:
    "live r \<Longrightarrow> wf_frame f \<Longrightarrow> avail r = frame_bytes f @ rest \<Longrightarrow>
       \<exists>r'. dec r = (Ok (Some f), r') \<and> live r' \<and> avail r' = rest"
    and dec_eof: "live r \<Longrightarrow> avail r = [] \<Longrightarrow> \<exists>r'. dec r = (Ok None, r')"
    and dec_sound:
    "live r \<Longrightarrow> dec r = (Ok (Some f), r') \<Longrightarrow> wf_frame f \<and> avail r = frame_bytes f @ avail r'"
begin

lemma stream:
  "live r \<Longrightarrow> list_all wf_frame fs \<Longrightarrow> avail r = concat (map frame_bytes fs) \<Longrightarrow> length fs < n \<Longrightarrow>
     \<exists>r'. read_frames dec n r = (Ok fs, r')"
proof (induction fs arbitrary: r n)
  case Nil
  then show ?case using dec_eof [of r] by (cases n) auto
next
  case (Cons f fs)
  then obtain m where n: "n = Suc m" "length fs < m" by (cases n) auto
  from Cons.prems have "avail r = frame_bytes f @ concat (map frame_bytes fs)" by simp
  from dec_frame [OF Cons.prems(1) _ this] Cons.prems(2) obtain r' where
    "dec r = (Ok (Some f), r')" "live r'" "avail r' = concat (map frame_bytes fs)" by auto
  moreover from Cons.IH [OF this(2) _ this(3) n(2)] Cons.prems(2)
  obtain r'' where "read_frames dec m r' = (Ok fs, r'')" by auto
  ultimately show ?case by (simp add: n)
qed

end

sublocale byte_reader \<subseteq> sync: frame_source "read_frame ops" avail live
proof unfold_locales
  fix r f rest
  assume l: "live r" and w: "wf_frame f" and a: "avail r = frame_bytes f @ rest"
  show "\<exists>r'. read_frame ops r = (Ok (Some f), r') \<and> live r' \<and> avail r' = rest"
    using read_frame_refines [OF l] decode_frame_wf [OF w, of rest] a by auto
next
  fix r
  assume l: "live r" and a: "avail r = []"
  show "\<exists>r'. read_frame ops r = (Ok None, r')"
    using read_frame_refines [OF l] a by (auto simp: decode_frame_def)
next
  fix r f r'
  assume l: "live r" and d: "read_frame ops r = (Ok (Some f), r')"
  then have "decode_frame (avail r) = Ok (Some f, avail r')"
    using read_frame_refines [OF l] by (cases "decode_frame (avail r)") auto
  then show "wf_frame f \<and> avail r = frame_bytes f @ avail r'"
    using decode_frame_canonical by blast
qed

context byte_reader
begin

lemma sync_stream:
  "live r \<Longrightarrow> list_all wf_frame fs \<Longrightarrow> avail r = concat (map frame_bytes fs) \<Longrightarrow> length fs < n \<Longrightarrow>
     \<exists>r'. read_frames (read_frame ops) n r = (Ok fs, r')"
  by (rule sync.stream)

end

subsection \<open>Properties\<close>

text \<open>
  C18. Every payload within the limit can be encoded, the encoding is six bytes longer than the
  payload, and decoding it from the front of any byte sequence gives back its type and payload
  and leaves exactly the bytes after it.
\<close>

theorem frame_roundtrip:
  assumes "length p \<le> MAX_FRAME_PAYLOAD_BYTES"
  shows "\<exists>bs. encode_frame k p = Ok bs \<and> length bs = FRAME_HEADER_BYTES + length p \<and>
    (\<forall>rest. decode_frame (bs @ rest) =
       Ok (Some \<lparr>version = CURRENT_PROTOCOL_VERSION, kind = k, payload = p\<rparr>, rest))"
  using assms encode_frame_Ok_iff encode_frame_length decode_frame_encode by blast

theorem frame_roundtrip_witness:
  "\<exists>bs. encode_frame Chat [104, 105] = Ok bs \<and> length bs = 8 \<and>
    decode_frame (bs @ [1]) = Ok (Some \<lparr>version = 1, kind = Chat, payload = [104, 105]\<rparr>, [1])"
  using frame_roundtrip [of "[104, 105]" Chat] by (auto simp: limits)

text \<open>
  Decoding is canonical: a frame is accepted only from the bytes that the encoder produces
  for it, so no two byte sequences decode to the same frame and the same rest.
\<close>

lemma decode_canonical:
  assumes "decode_frame bs = Ok (Some f, rest)"
  shows "version f = CURRENT_PROTOCOL_VERSION \<and>
    (\<exists>hd. encode_frame (kind f) (payload f) = Ok hd \<and> bs = hd @ rest)"
proof -
  have wf: "wf_frame f" and bs: "bs = frame_bytes f @ rest" using decode_frame_canonical [OF assms] by simp_all
  obtain hd where "encode_frame (kind f) (payload f) = Ok hd"
    using wf encode_frame_Ok_iff by (auto simp: wf_frame_def)
  then show ?thesis using wf bs by (simp add: wf_frame_def frame_bytes_def)
qed

text \<open>
  C17. Whatever the chunks in which the transport delivers the bytes, the blocking decoder
  returns what the byte-level specification says (frame, clean end of stream, or the error for
  a bad version, a bad type, an oversized length or a truncated frame) and stops right after the
  frame.
\<close>

theorem read_frame_chunking:
  assumes "byte_reader ops avail live" and "live r"
  shows "\<exists>r'. live r' \<and>
    (case decode_frame (avail r) of
       Ok (fo, rest) \<Rightarrow> read_frame ops r = (Ok fo, r') \<and> avail r' = rest
     | Err e \<Rightarrow> read_frame ops r = (Err e, r')
     | Panic \<Rightarrow> False)"
  using assms by (rule byte_reader.read_frame_refines)

theorem read_frame_chunking_witness:
  "\<exists>r'. read_frame script_ops [Data [1, 2], Data [0, 0, 0], Data [2, 104], Data [105, 1]] =
      (Ok (Some \<lparr>version = 1, kind = Chat, payload = [104, 105]\<rparr>), r') \<and> script_bytes r' = [1]"
proof -
  let ?r = "[Data [1, 2], Data [0, 0, 0], Data [2, 104], Data [105, 1]]"
  have d: "decode_frame (script_bytes ?r) = Ok (Some \<lparr>version = 1, kind = Chat, payload = [104, 105]\<rparr>, [1])"
    by (simp add: decode_frame_def limits payload_length_def from_be_u32_def frame_type_try_from_def)
  show ?thesis using read_frame_chunking [OF script.byte_reader_axioms, of ?r] unfolding d by auto
qed

text \<open>
  A stream of well-formed frames is read back frame by frame and ends without an error.
\<close>

lemma read_frame_stream:
  assumes "byte_reader ops avail live" and "live r" and "list_all wf_frame fs"
    and "avail r = concat (map frame_bytes fs)"
  shows "\<exists>r'. read_frames (read_frame ops) (Suc (length fs)) r = (Ok fs, r')"
  using assms by (rule byte_reader.sync_stream) simp

end
