(* ===== verification/Protocol_Text.thy ===== *)
theory Protocol_Text
  imports Protocol
begin

section \<open>Presence payloads, chat lines and mentions\<close>

text \<open>
  The second half of \<^verbatim>\<open>crates/protocol/src/lib.rs\<close>: username validity, presence encoding and
  parsing, chat-line formatting and parsing, and the mention search. \<^verbatim>\<open>char::is_alphanumeric\<close>
  depends on the Unicode tables of the compiler's release and is an argument \<open>alnum\<close> of
  the mention search.
\<close>

subsection \<open>Usernames\<close>

definition is_valid_username :: "ustr \<Rightarrow> bool" where
  "is_valid_username u \<longleftrightarrow> trim u \<noteq> [] \<and> \<not> list_ex is_control u"

lemma is_valid_username_trim: "is_valid_username u \<Longrightarrow> is_valid_username (trim u)"
  using set_mono_sublist [OF trim_sublist [of u]]
  by (auto simp: is_valid_username_def list_ex_iff)

subsection \<open>Presence\<close>

definition USIZE_MAX :: nat where
  "USIZE_MAX = 2 ^ 64 - 1"

fun encode_users :: "bytes \<Rightarrow> ustr list \<Rightarrow> (bytes, frame_error) result" where
  "encode_users pl [] = Ok pl"
| "encode_users pl (user # users) =
     (if \<not> is_valid_username user then Err InvalidUsername
      else
        (case u16_try_from (length (as_bytes user)) of
           None \<Rightarrow> Err (TooLarge (length (as_bytes user)))
         | Some len \<Rightarrow> encode_users (pl @ to_be_u16 len @ as_bytes user) users))"

definition encode_presence :: "ustr list \<Rightarrow> (bytes, frame_error) result" where
  "encode_presence users =
     (case u16_try_from (length users) of
        None \<Rightarrow> Err (TooLarge USIZE_MAX)
      | Some count \<Rightarrow>
          (case encode_users (to_be_u16 count) users of
             Ok pl \<Rightarrow> encode_frame Presence pl
           | Err e \<Rightarrow> Err e
           | Panic \<Rightarrow> Panic))"

text \<open>\<^verbatim>\<open>payload.get(i..j)\<close> on a byte slice.\<close>

definition bytes_get :: "nat \<Rightarrow> nat \<Rightarrow> bytes \<Rightarrow> bytes option" where
  "bytes_get i j p = (if i \<le> j \<and> j \<le> length p then Some (take (j - i) (drop i p)) else None)"

fun parse_users :: "nat \<Rightarrow> bytes \<Rightarrow> nat \<Rightarrow> ustr list \<Rightarrow> (nat \<times> ustr list) option" where
  "parse_users 0 p offset users = Some (offset, users)"
| "parse_users (Suc n) p offset users =
     (case bytes_get offset (offset + 2) p of
        None \<Rightarrow> None
      | Some lb \<Rightarrow>
          let len = unat (from_be_u16 (lb ! 0) (lb ! 1)); offset = offset + 2 in
          (case bytes_get offset (offset + len) p of
             None \<Rightarrow> None
           | Some ub \<Rightarrow>
               (case from_utf8 ub of
                  None \<Rightarrow> None
                | Some user \<Rightarrow>
                    if \<not> is_valid_username user then None
                    else parse_users n p (offset + len) (users @ [user]))))"

definition parse_presence :: "bytes \<Rightarrow> ustr list option" where
  "parse_presence p =
     (case bytes_get 0 2 p of
        None \<Rightarrow> None
      | Some cb \<Rightarrow>
          (case parse_users (unat (from_be_u16 (cb ! 0) (cb ! 1))) p 2 [] of
             None \<Rightarrow> None
           | Some (offset, users) \<Rightarrow> if offset = length p then Some users else None))"

subsubsection \<open>The payload as a concatenation of entries\<close>

definition presence_entry :: "ustr \<Rightarrow> bytes" where
  "presence_entry u = to_be_u16 (of_nat (str_len u)) @ as_bytes u"

definition presence_payload :: "ustr list \<Rightarrow> bytes" where
  "presence_payload us = to_be_u16 (of_nat (length us)) @ concat (map presence_entry us)"

definition presence_user :: "ustr \<Rightarrow> bool" where
  "presence_user u \<longleftrightarrow> valid_str u \<and> is_valid_username u \<and> str_len u \<le> 65535"

lemma length_presence_entry [simp]: "length (presence_entry u) = 2 + str_len u"
  by (simp add: presence_entry_def)

lemma length_presence_payload:
  "length (presence_payload us) = 2 + sum_list (map (\<lambda>u. 2 + str_len u) us)"
  by (simp add: presence_payload_def length_concat comp_def)

lemma encode_users_Ok:
  "list_all (\<lambda>u. is_valid_username u \<and> str_len u \<le> 65535) us \<Longrightarrow>
     encode_users pl us = Ok (pl @ concat (map presence_entry us))"
  by (induction us arbitrary: pl) (auto simp: u16_try_from_def presence_entry_def)

lemma encode_users_OkD:
  "encode_users pl us = Ok pl' \<Longrightarrow>
     list_all (\<lambda>u. is_valid_username u \<and> str_len u \<le> 65535) us \<and>
     pl' = pl @ concat (map presence_entry us)"
proof (induction us arbitrary: pl)
  case (Cons u us)
  then have u: "is_valid_username u" "str_len u \<le> 65535"
    and r: "encode_users (pl @ presence_entry u) us = Ok pl'"
    by (auto simp: u16_try_from_def presence_entry_def split: if_splits)
  from Cons.IH [OF r] u show ?case by simp
qed simp

lemma encode_presence_Ok:
  assumes "length us \<le> 65535" and "list_all (\<lambda>u. is_valid_username u \<and> str_len u \<le> 65535) us"
  shows "encode_presence us = encode_frame Presence (presence_payload us)"
  using assms by (simp add: encode_presence_def u16_try_from_def encode_users_Ok presence_payload_def)

lemma bytes_get_prefix: "bytes_get (length a) (length a + length b) (a @ b @ c) = Some b"
  by (simp add: bytes_get_def)

lemma bytes_get_SomeD:
  "bytes_get i j p = Some b \<Longrightarrow> p = take i p @ b @ drop j p \<and> length b = j - i \<and> i \<le> j \<and> j \<le> length p"
  by (auto simp: bytes_get_def split: if_splits) (metis append_take_drop_id drop_drop le_add_diff_inverse2)

lemma parse_users_entries:
  "list_all presence_user us \<Longrightarrow>
     parse_users (length us) (pre @ concat (map presence_entry us) @ post) (length pre) acc =
       Some (length pre + length (concat (map presence_entry us)), acc @ us)"
proof (induction us arbitrary: pre acc)
  case (Cons u us)
  let ?w = "of_nat (str_len u) :: u16" and ?rest = "concat (map presence_entry us) @ post"
  let ?p = "pre @ to_be_u16 ?w @ as_bytes u @ ?rest"
  have len: "unat ?w = str_len u" using Cons.prems by (simp add: presence_user_def unat_of_nat)
  have 1: "bytes_get (length pre) (length pre + 2) ?p = Some (to_be_u16 ?w)"
    using bytes_get_prefix [of pre "to_be_u16 ?w" "as_bytes u @ ?rest"] by simp
  have 2: "bytes_get (length pre + 2) (length pre + 2 + str_len u) ?p = Some (as_bytes u)"
    using bytes_get_prefix [of "pre @ to_be_u16 ?w" "as_bytes u" ?rest] by simp
  have 3: "from_utf8 (as_bytes u) = Some u" using Cons.prems by (simp add: presence_user_def from_utf8_as_bytes)
  have w: "from_be_u16 (to_be_u16 ?w ! 0) (to_be_u16 ?w ! 1) = ?w"
    by (simp add: to_be_u16_def from_be_u16_to_be)
  have 4: "parse_users (length us) ?p (length pre + 2 + str_len u) (acc @ [u]) =
      Some (length pre + 2 + str_len u + length (concat (map presence_entry us)), acc @ [u] @ us)"
    using Cons.IH [of "pre @ to_be_u16 ?w @ as_bytes u" "acc @ [u]"] Cons.prems by simp
  have "parse_users (Suc (length us)) ?p (length pre) acc =
      Some (length pre + 2 + str_len u + length (concat (map presence_entry us)), acc @ [u] @ us)"
    unfolding parse_users.simps Let_def 1 option.case w len 2 3 4
    using Cons.prems by (simp add: presence_user_def)
  moreover have "pre @ concat (map presence_entry (u # us)) @ post = ?p" by (simp add: presence_entry_def)
  ultimately show ?case by (simp only: list.size add_0_right add_Suc_right) simp
qed simp

lemma parse_users_SomeD:
  "parse_users n p off acc = Some (off', us') \<Longrightarrow> off \<le> length p \<Longrightarrow>
     \<exists>us. us' = acc @ us \<and> length us = n \<and> list_all presence_user us \<and> off' \<le> length p \<and>
       drop off p = concat (map presence_entry us) @ drop off' p"
proof (induction n arbitrary: off acc)
  case (Suc n)
  then obtain lb ub u where lb: "bytes_get off (off + 2) p = Some lb"
    and ub: "bytes_get (off + 2) (off + 2 + unat (from_be_u16 (lb ! 0) (lb ! 1))) p = Some ub"
    and u: "from_utf8 ub = Some u" "is_valid_username u"
    and rec: "parse_users n p (off + 2 + unat (from_be_u16 (lb ! 0) (lb ! 1))) (acc @ [u]) = Some (off', us')"
    by (auto simp: Let_def split: option.splits if_splits)
  let ?w = "from_be_u16 (lb ! 0) (lb ! 1)"
  have lbl: "lb = [lb ! 0, lb ! 1]" using bytes_get_SomeD [OF lb]
    by (auto simp: length_Suc_conv numeral_2_eq_2)
  have ubl: "length ub = unat ?w" "off + 2 + unat ?w \<le> length p" using bytes_get_SomeD [OF ub] by auto
  have s: "str_len u = unat ?w" "valid_str u" "as_bytes u = ub"
    using from_utf8_SomeD [OF u(1)] ubl by auto
  have w: "to_be_u16 (of_nat (str_len u)) = lb"
    using lbl by (simp add: s(1) to_be_u16_from_be)
  have "unat ?w < 2 ^ LENGTH(16)" by (rule unsigned_less)
  then have pu: "presence_user u" using s u(2) by (simp add: presence_user_def)
  from Suc.IH [OF rec ubl(2)] obtain us where us: "us' = acc @ u # us" "length us = n"
    "list_all presence_user us" "off' \<le> length p"
    "drop (off + 2 + unat ?w) p = concat (map presence_entry us) @ drop off' p" by auto
  have "drop off p = lb @ ub @ drop (off + 2 + unat ?w) p"
  proof -
    have "lb = take 2 (drop off p)" "ub = take (unat ?w) (drop (off + 2) p)"
      using lb ub by (auto simp: bytes_get_def split: if_splits)
    then show ?thesis by (metis append_take_drop_id drop_drop add.commute add.assoc)
  qed
  then have "drop off p = concat (map presence_entry (u # us)) @ drop off' p"
    using us(5) w s(3) by (simp add: presence_entry_def)
  with us pu show ?case by (intro exI [of _ "u # us"]) simp
qed simp

lemma parse_presence_payload:
  assumes "length us \<le> 65535" and "list_all presence_user us"
  shows "parse_presence (presence_payload us) = Some us"
proof -
  let ?w = "of_nat (length us) :: u16"
  have "bytes_get 0 2 (presence_payload us) = Some (to_be_u16 ?w)"
    by (simp add: presence_payload_def bytes_get_def)
  moreover have "unat (from_be_u16 (to_be_u16 ?w ! 0) (to_be_u16 ?w ! 1)) = length us"
    using assms(1) by (simp add: to_be_u16_def from_be_u16_to_be unat_of_nat)
  moreover have "parse_users (length us) (presence_payload us) 2 [] = Some (length (presence_payload us), us)"
    using parse_users_entries [OF assms(2), of "to_be_u16 ?w" "[]" "[]"] by (simp add: presence_payload_def)
  ultimately show ?thesis unfolding parse_presence_def by simp
qed

lemma parse_presence_SomeD:
  assumes "parse_presence p = Some us"
  shows "list_all presence_user us" "length us \<le> 65535" "p = presence_payload us"
proof -
  obtain cb where cb: "bytes_get 0 2 p = Some cb"
    and rec: "parse_users (unat (from_be_u16 (cb ! 0) (cb ! 1))) p 2 [] = Some (length p, us)"
    using assms by (auto simp: parse_presence_def split: option.splits if_splits)
  let ?w = "from_be_u16 (cb ! 0) (cb ! 1)"
  have cbl: "cb = [cb ! 0, cb ! 1]" "2 \<le> length p" "cb = take 2 p" using bytes_get_SomeD [OF cb] cb
    by (auto simp: length_Suc_conv numeral_2_eq_2 bytes_get_def split: if_splits)
  from parse_users_SomeD [OF rec cbl(2)] have us: "length us = unat ?w" "list_all presence_user us"
    "drop 2 p = concat (map presence_entry us)" by auto
  have "unat ?w < 2 ^ LENGTH(16)" by (rule unsigned_less)
  with us show "list_all presence_user us" "length us \<le> 65535" by auto
  have "to_be_u16 (of_nat (length us)) = cb" using cbl(1) by (simp add: us(1) to_be_u16_from_be)
  with us(3) cbl(3) show "p = presence_payload us"
    by (metis append_take_drop_id presence_payload_def)
qed

subsection \<open>Chat lines\<close>

definition format_chat_message :: "ustr \<Rightarrow> ustr \<Rightarrow> ustr \<Rightarrow> ustr" where
  "format_chat_message username timestamp content =
     lit ''['' @ username @ lit '']('' @ timestamp @ lit ''): '' @ content"

definition parse_chat_message :: "ustr \<Rightarrow> ((ustr \<times> ustr \<times> ustr) option, unit) result" where
  "parse_chat_message message =
     (case str_find (lit '']('') message of
        None \<Rightarrow> Ok None
      | Some close_user \<Rightarrow>
          (case str_from (close_user + 2) message of
             None \<Rightarrow> Panic
           | Some tail \<Rightarrow>
               (case str_find (lit ''): '') tail of
                  None \<Rightarrow> Ok None
                | Some i \<Rightarrow>
                    let close_time = i + close_user + 2 in
                    (case str_get 1 close_user message of
                       None \<Rightarrow> Ok None
                     | Some username \<Rightarrow>
                         (case str_get (close_user + 2) close_time message of
                            None \<Rightarrow> Ok None
                          | Some timestamp \<Rightarrow>
                              (case str_from (close_time + 3) message of
                                 None \<Rightarrow> Ok None
                               | Some body \<Rightarrow>
                                   Ok (if prefix (lit ''['') message
                                       then Some (username, timestamp, body) else None)))))))"

lemma str_len_lit:
  "str_len (lit ''['') = 1" "str_len (lit '']('') = 2" "str_len (lit ''): '') = 3" "str_len (lit ''@'') = 1"
  by (simp_all add: lit_codes)

lemma parse_chat_message_no_panic: "parse_chat_message message \<noteq> Panic"
proof -
  have "str_from (i + 2) message \<noteq> None" if f: "str_find (lit '']('') message = Some i" for i
  proof -
    from str_find_SomeD [OF f] obtain a b where "message = (a @ lit '']('') @ b" "str_len a = i" by auto
    then have "str_from (i + 2) message = Some b"
      using str_from_append [of "a @ lit ''](''" b] by (simp only: str_len_append str_len_lit)
    then show ?thesis by simp
  qed
  then show ?thesis by (auto simp: parse_chat_message_def Let_def split: option.splits)
qed

lemma parse_chat_message_Ok: "\<exists>r. parse_chat_message message = Ok r"
proof (cases "parse_chat_message message")
  case (Err e)
  then show ?thesis by (simp add: parse_chat_message_def Let_def split: option.splits)
qed (simp_all add: parse_chat_message_no_panic)

lemma find_bracket:
  assumes "\<not> sublist (lit '']('') u"
  shows "str_find (lit '']('') (lit ''['' @ u @ lit '']('' @ b) = Some (1 + str_len u)"
proof -
  have "\<not> prefix (lit '']('') (q @ lit '']('' @ b)" if "lit ''['' @ u = p @ q" "q \<noteq> []" for p q
  proof
    assume pre: "prefix (lit '']('') (q @ lit '']('' @ b)"
    then obtain x y t where q: "q = x # y # t" "x = 0x5D" "y = 0x28"
      using \<open>q \<noteq> []\<close> by (cases q; cases "tl q") (auto simp: lit_codes)
    with that obtain p' where "p = 0x5B # p'" by (cases p) (auto simp: lit_codes)
    with that q have "u = p' @ lit '']('' @ t" by (simp add: lit_codes)
    with assms show False by (metis sublist_appendI)
  qed
  then show ?thesis
    using str_find_at [of "lit ''['' @ u" "lit ''](''" b] by (simp add: str_len_lit)
qed

lemma find_paren:
  assumes "\<not> sublist (lit ''): '') t"
  shows "str_find (lit ''): '') (t @ lit ''): '' @ b) = Some (str_len t)"
proof (rule str_find_at, intro allI impI notI)
  fix p q
  assume t: "t = p @ q \<and> q \<noteq> []" and pre: "prefix (lit ''): '') (q @ lit ''): '' @ b)"
  then obtain w where "q = lit ''): '' @ w"
    by (cases q; cases "tl q"; cases "tl (tl q)") (auto simp: lit_codes)
  with t assms show False by (metis sublist_appendI)
qed

lemma parse_format:
  assumes "\<not> sublist (lit '']('') u" and "\<not> sublist (lit ''): '') t"
  shows "parse_chat_message (format_chat_message u t c) = Ok (Some (u, t, c))"
proof -
  let ?m = "lit ''['' @ u @ lit '']('' @ t @ lit ''): '' @ c"
  have 1: "str_find (lit '']('') ?m = Some (1 + str_len u)" by (rule find_bracket [OF assms(1)])
  have 2: "str_from (1 + str_len u + 2) ?m = Some (t @ lit ''): '' @ c)"
    using str_from_append [of "lit ''['' @ u @ lit ''](''" "t @ lit ''): '' @ c"]
    by (simp add: str_len_lit)
  have 3: "str_find (lit ''): '') (t @ lit ''): '' @ c) = Some (str_len t)" by (rule find_paren [OF assms(2)])
  have 4: "str_get 1 (1 + str_len u) ?m = Some u"
    using str_get_append [of "lit ''[''" u "lit '']('' @ t @ lit ''): '' @ c"] by (simp add: str_len_lit)
  have 5: "str_get (1 + str_len u + 2) (str_len t + (1 + str_len u) + 2) ?m = Some t"
    using str_get_append [of "lit ''['' @ u @ lit ''](''" t "lit ''): '' @ c"]
    by (simp add: str_len_lit add.commute add.left_commute)
  have 6: "str_from (str_len t + (1 + str_len u) + 2 + 3) ?m = Some c"
    using str_from_append [of "lit ''['' @ u @ lit '']('' @ t @ lit ''): ''" c]
    by (simp add: str_len_lit add.commute add.left_commute)
  show ?thesis
    unfolding format_chat_message_def parse_chat_message_def Let_def 1 option.case 2 3 4 5 6 by simp
qed

text \<open>What is parsed is what was formatted: the parts determine the line.\<close>

lemma parse_chat_message_parts:
  assumes "parse_chat_message m = Ok (Some (u, t, b))"
  shows "m = format_chat_message u t b \<and> \<not> sublist (lit '']('') u \<and> \<not> sublist (lit ''): '') t"
proof -
  obtain i tail j where i: "str_find (lit '']('') m = Some i" and tail: "str_from (i + 2) m = Some tail"
    and j: "str_find (lit ''): '') tail = Some j" and u: "str_get 1 i m = Some u"
    and t: "str_get (i + 2) (j + i + 2) m = Some t" and b: "str_from (j + i + 2 + 3) m = Some b"
    and pre: "prefix (lit ''['') m"
    using assms by (auto simp: parse_chat_message_def Let_def split: option.splits if_splits)
  from str_find_SomeD [OF i] obtain a r where m: "m = a @ lit '']('' @ r" "str_len a = i"
    and first: "\<forall>p s. m = p @ lit '']('' @ s \<longrightarrow> length a \<le> length p" by blast
  from pre m(1) obtain a' where a: "a = lit ''['' @ a'" by (cases a) (auto simp: lit_codes)
  have i': "i = 1 + str_len a'" using m(2) a by (simp add: str_len_lit)
  have "str_from (i + 2) m = Some r"
    using str_from_append [of "a @ lit ''](''" r] m by (simp add: str_len_lit)
  with tail have "tail = r" by simp
  with str_find_SomeD [OF j] obtain x y where r: "r = x @ lit ''): '' @ y" "str_len x = j"
    and next_one: "\<forall>p s. r = p @ lit ''): '' @ s \<longrightarrow> length x \<le> length p" by blast
  have "u = a'"
    using u str_get_append [of "lit ''[''" a' "lit '']('' @ r"] m(1) a i' by (simp add: str_len_lit)
  moreover have "t = x"
    using t str_get_append [of "a @ lit ''](''" x "lit ''): '' @ y"] m r
    by (simp add: str_len_lit ac_simps)
  moreover have "b = y"
    using b str_from_append [of "a @ lit '']('' @ x @ lit ''): ''" y] m r
    by (simp add: str_len_lit ac_simps)
  moreover have "\<not> sublist (lit '']('') a'"
  proof
    assume "sublist (lit '']('') a'"
    then obtain p s where p: "a' = p @ lit '']('' @ s" by (auto simp: sublist_def)
    then have "m = (lit ''['' @ p) @ lit '']('' @ (s @ lit '']('' @ r)" using m(1) a by simp
    with first have "length a \<le> length (lit ''['' @ p)" by blast
    with a p show False by (simp add: lit_codes)
  qed
  moreover have "\<not> sublist (lit ''): '') x"
  proof
    assume "sublist (lit ''): '') x"
    then obtain p s where p: "x = p @ lit ''): '' @ s" by (auto simp: sublist_def)
    then have "r = p @ lit ''): '' @ (s @ lit ''): '' @ y)" using r(1) by simp
    with next_one have "length x \<le> length p" by blast
    with p show False by (simp add: lit_codes)
  qed
  ultimately show ?thesis using m(1) a r(1) by (simp add: format_chat_message_def)
qed

lemma parse_chat_message_SomeD: "parse_chat_message m = Ok (Some (u, t, b)) \<Longrightarrow> m = format_chat_message u t b"
  using parse_chat_message_parts by blast

subsection \<open>Mentions\<close>

definition mention_needle :: "ustr \<Rightarrow> ustr" where
  "mention_needle username = lit ''@'' @ username"

text \<open>The character after a mention: none, or neither alphanumeric nor an underscore.\<close>

definition mention_boundary :: "(uchar \<Rightarrow> bool) \<Rightarrow> ustr \<Rightarrow> bool" where
  "mention_boundary alnum rest =
     (case rest of [] \<Rightarrow> True | ch # _ \<Rightarrow> \<not> alnum ch \<and> ch \<noteq> 0x5F)"

lemma str_len_needle: "0 < str_len (mention_needle u)"
  by (simp add: mention_needle_def lit_codes)

lemma str_from_le: "str_from i s = Some t \<Longrightarrow> i \<le> str_len s"
  by (auto dest: str_from_SomeD)

text \<open>The \<^verbatim>\<open>while let\<close> loop; \<open>search_start\<close> is its byte index into the text. It ends because every
  round moves past one occurrence of the non-empty needle.\<close>

function mention_loop :: "(uchar \<Rightarrow> bool) \<Rightarrow> ustr \<Rightarrow> ustr \<Rightarrow> nat \<Rightarrow> (bool, unit) result" where
  "mention_loop alnum text username search_start =
     (case str_from search_start text of
        None \<Rightarrow> Panic
      | Some tail \<Rightarrow>
          (case str_find (mention_needle username) tail of
             None \<Rightarrow> Ok False
           | Some relative_index \<Rightarrow>
               (case str_from (search_start + relative_index + str_len (mention_needle username)) text of
                  None \<Rightarrow> Panic
                | Some after \<Rightarrow>
                    if mention_boundary alnum after then Ok True
                    else mention_loop alnum text username
                           (search_start + relative_index + str_len (mention_needle username)))))"
  by pat_completeness auto
termination
proof (relation "measure (\<lambda>(alnum, text, username, start). str_len text - start)")
  fix alnum :: "uchar \<Rightarrow> bool" and s username start tail rel t
  assume "str_from (start + rel + str_len (mention_needle username)) s = Some t"
  then have "start + rel + str_len (mention_needle username) \<le> str_len s" by (rule str_from_le)
  then show "((alnum, s, username, start + rel + str_len (mention_needle username)),
      (alnum, s, username, start)) \<in> measure (\<lambda>(alnum, text, username, start). str_len text - start)"
    using str_len_needle [of username] by simp
qed simp

declare mention_loop.simps [simp del]

definition message_mentions_user :: "(uchar \<Rightarrow> bool) \<Rightarrow> ustr \<Rightarrow> ustr \<Rightarrow> (bool, unit) result" where
  "message_mentions_user alnum text username = mention_loop alnum text username 0"

text \<open>What it should decide: some occurrence of the needle ends at a boundary.\<close>

definition mentions :: "(uchar \<Rightarrow> bool) \<Rightarrow> ustr \<Rightarrow> ustr \<Rightarrow> bool" where
  "mentions alnum text username \<longleftrightarrow>
     (\<exists>pre post. text = pre @ mention_needle username @ post \<and> mention_boundary alnum post)"

text \<open>Without an \<^verbatim>\<open>@\<close> in the username two occurrences of the needle do not overlap.\<close>

lemma needle_no_overlap:
  assumes u: "0x40 \<notin> set u"
    and eq: "a @ mention_needle u @ b = p @ mention_needle u @ q"
    and le: "length a \<le> length p" and ne: "p \<noteq> a"
  shows "\<exists>p'. b = p' @ mention_needle u @ q"
proof -
  obtain w where w: "p = a @ w" "mention_needle u @ b = w @ mention_needle u @ q"
    using eq le by (auto simp: append_eq_append_conv2 [of a])
  have "w \<noteq> []" using ne w(1) by auto
  have "length (mention_needle u) \<le> length w"
  proof (rule ccontr)
    assume lt: "\<not> length (mention_needle u) \<le> length w"
    have "(mention_needle u @ b) ! length w = 0x40"
      unfolding w(2) by (simp add: mention_needle_def lit_codes)
    moreover have "(mention_needle u @ b) ! length w = u ! (length w - 1)"
      using lt \<open>w \<noteq> []\<close> by (cases w) (auto simp: mention_needle_def lit_codes nth_append)
    moreover have "length w - 1 < length u"
      using lt \<open>w \<noteq> []\<close> by (cases w) (auto simp: mention_needle_def lit_codes)
    ultimately show False using u nth_mem [of "length w - 1" u] by simp
  qed
  then obtain p' where "b = p' @ mention_needle u @ q"
    using w(2) by (auto simp: append_eq_append_conv2 [of "mention_needle u"])
  then show ?thesis by blast
qed

lemma mention_loop_correct:
  "s = pre @ tail \<Longrightarrow> start = str_len pre \<Longrightarrow>
     \<exists>b. mention_loop alnum s u start = Ok b \<and> (b \<longrightarrow> mentions alnum tail u) \<and>
       (0x40 \<notin> set u \<longrightarrow> mentions alnum tail u \<longrightarrow> b)"
proof (induction alnum s u start arbitrary: pre tail rule: mention_loop.induct)
  case (1 alnum s u start)
  let ?n = "mention_needle u"
  have from_start: "str_from start s = Some tail" using 1(2,3) by simp
  show ?case
  proof (cases "str_find ?n tail")
    case None
    then have "mention_loop alnum s u start = Ok False"
      by (simp add: mention_loop.simps [of alnum s u start] from_start)
    moreover have "\<not> mentions alnum tail u"
      using None by (auto simp: mentions_def str_find_NoneD)
    ultimately show ?thesis by blast
  next
    case (Some rel)
    from str_find_SomeD [OF Some] obtain a b where tail: "tail = a @ ?n @ b" "str_len a = rel"
      and least: "\<forall>a' b'. tail = a' @ ?n @ b' \<longrightarrow> length a \<le> length a'" by blast
    have s: "s = (pre @ a @ ?n) @ b" using 1(2) tail(1) by simp
    have len: "start + rel + str_len ?n = str_len (pre @ a @ ?n)" using 1(3) tail(2) by simp
    have from_after: "str_from (start + rel + str_len ?n) s = Some b"
      unfolding s len by (rule str_from_append)
    show ?thesis
    proof (cases "mention_boundary alnum b")
      case True
      then have "mention_loop alnum s u start = Ok True"
        by (simp add: mention_loop.simps [of alnum s u start] from_start Some from_after)
      moreover have "mentions alnum tail u" using True tail(1) by (auto simp: mentions_def)
      ultimately show ?thesis by blast
    next
      case False
      then have step: "mention_loop alnum s u start = mention_loop alnum s u (start + rel + str_len ?n)"
        by (simp add: mention_loop.simps [of alnum s u start] from_start Some from_after)
      from 1(1) [OF from_start Some from_after False s len] obtain r where
        r: "mention_loop alnum s u (start + rel + str_len ?n) = Ok r"
          "r \<longrightarrow> mentions alnum b u" "0x40 \<notin> set u \<longrightarrow> mentions alnum b u \<longrightarrow> r" by blast
      have "mentions alnum tail u" if "mentions alnum b u"
        using that tail(1) unfolding mentions_def by (metis append_assoc)
      moreover have "mentions alnum b u" if m: "mentions alnum tail u" and u: "0x40 \<notin> set u"
      proof -
        from m obtain p q where pq: "tail = p @ ?n @ q" "mention_boundary alnum q"
          by (auto simp: mentions_def)
        have "p \<noteq> a" using pq tail(1) False by auto
        moreover have "length a \<le> length p" using least pq(1) by blast
        ultimately obtain p' where "b = p' @ ?n @ q"
          using needle_no_overlap [OF u, of a b p q] pq(1) tail(1) by auto
        with pq(2) show ?thesis by (auto simp: mentions_def)
      qed
      ultimately show ?thesis using r(2,3) unfolding step r(1) by blast
    qed
  qed
qed

subsection \<open>Two limits of the text format\<close>

lemma mention_first:
  assumes "mention_boundary alnum post"
  shows "message_mentions_user alnum (mention_needle u @ post) u = Ok True"
proof -
  have "str_find (mention_needle u) ([] @ mention_needle u @ post) = Some (str_len [])" by (rule str_find_at) simp
  moreover have "str_from (str_len (mention_needle u)) (mention_needle u @ post) = Some post" by (rule str_from_append)
  moreover have "str_from 0 (mention_needle u @ post) = Some (mention_needle u @ post)"
    using str_from_append [of "[]" "mention_needle u @ post"] by simp
  ultimately show ?thesis
    using assms by (simp add: message_mentions_user_def mention_loop.simps [of alnum "mention_needle u @ post" u 0])
qed

lemma no_needle_no_mention: "\<not> sublist (mention_needle u) s \<Longrightarrow> message_mentions_user alnum s u = Ok False"
  using str_from_append [of "[]" s]
  by (simp add: message_mentions_user_def mention_loop.simps [of alnum s u 0] str_find_NoneD [THEN iffD2])

subsection \<open>Properties\<close>

text \<open>
  C24. A presence list within the limits is encoded into a frame from which the receiver parses
  back exactly the same names in the same order.
\<close>

theorem presence_roundtrip:
  assumes "length us \<le> 65535" and "list_all (\<lambda>u. valid_str u \<and> is_valid_username u) us"
    and "2 + sum_list (map (\<lambda>u. 2 + str_len u) us) \<le> MAX_FRAME_PAYLOAD_BYTES"
  shows "\<exists>bs p. encode_presence us = Ok bs \<and>
    decode_frame bs = Ok (Some \<lparr>version = CURRENT_PROTOCOL_VERSION, kind = Presence, payload = p\<rparr>, []) \<and>
    parse_presence p = Some us"
proof -
  have "str_len u \<le> 65535" if "u \<in> set us" for u
  proof -
    have "2 + str_len u \<le> sum_list (map (\<lambda>u. 2 + str_len u) us)"
      using that by (intro member_le_sum_list) auto
    with assms(3) show ?thesis by (simp add: limits)
  qed
  then have ok: "list_all (\<lambda>u. is_valid_username u \<and> str_len u \<le> 65535) us" "list_all presence_user us"
    using assms(2) by (auto simp: list_all_iff presence_user_def)
  have "length (presence_payload us) \<le> MAX_FRAME_PAYLOAD_BYTES" using assms(3) by (simp add: length_presence_payload)
  then obtain bs where bs: "encode_frame Presence (presence_payload us) = Ok bs"
    using encode_frame_Ok_iff by blast
  with decode_frame_encode [OF bs, of "[]"] parse_presence_payload [OF assms(1) ok(2)]
    encode_presence_Ok [OF assms(1) ok(1)]
  show ?thesis by auto
qed

theorem presence_roundtrip_witness:
  "\<exists>bs p. encode_presence [[97], [98, 0x20AC]] = Ok bs \<and>
    decode_frame bs = Ok (Some \<lparr>version = CURRENT_PROTOCOL_VERSION, kind = Presence, payload = p\<rparr>, []) \<and>
    parse_presence p = Some [[97], [98, 0x20AC]]"
  by (rule presence_roundtrip)
     (simp_all add: is_valid_username_def is_scalar_def trim_def trim_start_def trim_end_def is_whitespace_def
       is_control_def limits len_utf8_def)

text \<open>
  The receiver accepts a presence payload only in the sender's encoding: the names it
  returns are valid text and valid usernames, nothing is left over, and encoding them again
  gives the payload.
\<close>

lemma presence_canonical:
  assumes "parse_presence p = Some us"
  shows "list_all (\<lambda>u. valid_str u \<and> is_valid_username u) us \<and>
    encode_presence us = encode_frame Presence p"
proof -
  note us = parse_presence_SomeD [OF assms]
  from us(1) have "list_all (\<lambda>u. is_valid_username u \<and> str_len u \<le> 65535) us"
    and v: "list_all (\<lambda>u. valid_str u \<and> is_valid_username u) us"
    by (auto simp: list_all_iff presence_user_def)
  with encode_presence_Ok [OF us(2)] us(3) show ?thesis by simp
qed

text \<open>
  C25. A formatted chat line is parsed back into its author, time and text, whatever the text
  contains, exactly when the author's name does not contain the separator after it and the time
  does not contain the separator after it. The server's times never do; a name may (C36).
\<close>

theorem chat_line_roundtrip:
  "parse_chat_message (format_chat_message u t c) = Ok (Some (u, t, c)) \<longleftrightarrow>
     \<not> sublist (lit '']('') u \<and> \<not> sublist (lit ''): '') t"
  using parse_format parse_chat_message_parts by blast

text \<open>
  Parsing a chat line never panics, on any string, and is exact: the parts it returns are
  the ones from which the formatter makes that very line.
\<close>

lemma parse_chat_canonical:
  "\<exists>r. parse_chat_message message = Ok r \<and>
     (case r of None \<Rightarrow> True | Some (u, t, c) \<Rightarrow> message = format_chat_message u t c)"
  using parse_chat_message_Ok [of message] parse_chat_message_SomeD [of message] by (auto split: option.splits)

text \<open>
  C26. Mention detection ends without a panic on every text; an answer \<open>True\<close> is always a real
  mention, and for names without an \<open>@\<close> the answer is exactly whether \<open>@name\<close> occurs followed by
  the end or by a character that cannot continue a name.
\<close>

theorem mention_decides:
  "\<exists>b. message_mentions_user alnum text u = Ok b \<and>
     (if 0x40 \<in> set u then b \<longrightarrow> mentions alnum text u else b = mentions alnum text u)"
proof -
  obtain b where "message_mentions_user alnum text u = Ok b" "b \<longrightarrow> mentions alnum text u"
    "0x40 \<notin> set u \<longrightarrow> mentions alnum text u \<longrightarrow> b"
    using mention_loop_correct [of "text" "[]" "text" 0 alnum u] unfolding message_mentions_user_def by auto
  then show ?thesis by auto
qed

theorem mention_decides_witness:
  "message_mentions_user (\<lambda>c. 97 \<le> c \<and> c \<le> 122) (lit ''hi @bob!'') (lit ''bob'') = Ok True"
proof -
  have "lit ''hi @bob!'' = lit ''hi '' @ mention_needle (lit ''bob'') @ lit ''!''"
    by (simp add: lit_Cons lit_Nil mention_needle_def)
  then have "mentions (\<lambda>c. 97 \<le> c \<and> c \<le> 122) (lit ''hi @bob!'') (lit ''bob'')"
    unfolding mentions_def
    by (intro exI [of _ "lit ''hi ''"] exI [of _ "lit ''!''"] conjI) (auto simp: mention_boundary_def lit_Cons lit_Nil)
  then show ?thesis
    using mention_decides [of "\<lambda>c. 97 \<le> c \<and> c \<le> 122" "lit ''hi @bob!''" "lit ''bob''"]
    by (auto simp: lit_Cons lit_Nil split: if_splits)
qed

text \<open>
  C37. A limit of the mention search: after a needle that is followed by a letter it resumes
  behind the whole needle, so a real mention that overlaps it is missed. This happens for every
  name with an \<open>@\<close> where what follows the \<open>@\<close> is also the beginning of the name and is followed there
  by a letter, a digit or an underscore: the text is the name up to its \<open>@\<close> and then a mention of it.
\<close>

theorem mention_overlap_missed:
  assumes "u = x @ [0x40] @ y" and "u = y @ v" and "alnum (hd v) \<or> hd v = 0x5F"
  shows "mentions alnum ([0x40] @ x @ mention_needle u) u \<and>
    message_mentions_user alnum ([0x40] @ x @ mention_needle u) u = Ok False"
proof
  let ?n = "mention_needle u" and ?s = "[0x40] @ x @ mention_needle u"
  show "mentions alnum ?s u"
    unfolding mentions_def by (intro exI [of _ "[0x40] @ x"] exI [of _ "[]"]) (simp add: mention_boundary_def)
  have n: "?n = [0x40] @ u" by (simp add: mention_needle_def lit_codes)
  have "?s = [0x40] @ x @ [0x40] @ u" by (simp only: n)
  also have "\<dots> = [0x40] @ x @ [0x40] @ y @ v" by (simp only: assms(2))
  also have "\<dots> = ([0x40] @ x @ [0x40] @ y) @ v" by simp
  also have "([0x40] @ x @ [0x40] @ y) = ?n" unfolding n by (simp only: assms(1) append_assoc)
  finally have s: "?s = ?n @ v" .
  have "length v = length x + 1" using assms(1,2) by (metis add.commute append_assoc length_append length_append_singleton plus_1_eq_Suc add_left_cancel)
  then have v: "v \<noteq> []" "length v < length ?n" using n assms(1) by auto
  have find: "str_find ?n ([] @ ?n @ v) = Some (str_len [])" by (rule str_find_at) simp
  have "\<not> mention_boundary alnum v" using v(1) assms(3) by (cases v) (auto simp: mention_boundary_def)
  moreover have "str_find ?n v = None" using v(2) by (auto simp: str_find_NoneD sublist_def)
  moreover have "str_from (str_len ?n) (?n @ v) = Some v" by (rule str_from_append)
  moreover have "str_from 0 (?n @ v) = Some (?n @ v)" using str_from_append [of "[]" "?n @ v"] by simp
  ultimately show "message_mentions_user alnum ?s u = Ok False"
    using find unfolding s message_mentions_user_def
    by (simp add: mention_loop.simps [of alnum "?n @ v" u 0] mention_loop.simps [of alnum "?n @ v" u "str_len ?n"])
qed

theorem mention_overlap_missed_witness:
  "mentions (\<lambda>c. 97 \<le> c \<and> c \<le> 122) (lit ''@ab@ab@a'') (lit ''ab@a'') \<and>
   message_mentions_user (\<lambda>c. 97 \<le> c \<and> c \<le> 122) (lit ''@ab@ab@a'') (lit ''ab@a'') = Ok False"
proof -
  have "[0x40] @ lit ''ab'' @ mention_needle (lit ''ab@a'') = lit ''@ab@ab@a''"
    by (simp add: mention_needle_def lit_Cons lit_Nil)
  then show ?thesis
    using mention_overlap_missed [of "lit ''ab@a''" "lit ''ab''" "lit ''a''" "lit ''b@a''" "\<lambda>c. 97 \<le> c \<and> c \<le> 122"]
    by (simp add: lit_Cons lit_Nil)
qed

end
