(* ===== verification/Hash_Map.thy ===== *)
theory Hash_Map
  imports Main "HOL-Library.Multiset"
begin

section \<open>Hash maps\<close>

text \<open>
  \<^verbatim>\<open>std::collections::HashMap\<close> as an association list with distinct keys. Its iteration order is
  not specified: a component that iterates takes a function \<open>iter\<close> which reorders the keys,
  with the hypothesis \<open>iteration iter\<close> that it visits each of them once. The locale \<open>map_ops\<close>
  is the interface the components use; the laws of summing over a map (\<open>hm_sum\<close>) carry the
  counters of the registry and of the admission control.
\<close>

type_synonym ('k, 'v) hash_map = "('k \<times> 'v) list"

definition hm_empty :: "('k, 'v) hash_map" where
  "hm_empty = []"

definition hm_get :: "'k \<Rightarrow> ('k, 'v) hash_map \<Rightarrow> 'v option" where
  "hm_get k m = map_of m k"

fun hm_insert :: "'k \<Rightarrow> 'v \<Rightarrow> ('k, 'v) hash_map \<Rightarrow> ('k, 'v) hash_map" where
  "hm_insert k v [] = [(k, v)]"
| "hm_insert k v ((k', v') # m) = (if k' = k then (k, v) # m else (k', v') # hm_insert k v m)"

definition hm_remove :: "'k \<Rightarrow> ('k, 'v) hash_map \<Rightarrow> ('k, 'v) hash_map" where
  "hm_remove k m = filter (\<lambda>p. fst p \<noteq> k) m"

definition hm_keys :: "('k, 'v) hash_map \<Rightarrow> 'k list" where
  "hm_keys m = map fst m"

definition hm_wf :: "('k, 'v) hash_map \<Rightarrow> bool" where
  "hm_wf m = distinct (hm_keys m)"

definition hm_retain :: "('k \<Rightarrow> 'v \<Rightarrow> bool) \<Rightarrow> ('k, 'v) hash_map \<Rightarrow> ('k, 'v) hash_map" where
  "hm_retain P m = filter (\<lambda>(k, v). P k v) m"

definition hm_or :: "'v \<Rightarrow> 'k \<Rightarrow> ('k, 'v) hash_map \<Rightarrow> 'v" where
  "hm_or d k m = (case hm_get k m of None \<Rightarrow> d | Some v \<Rightarrow> v)"

definition hm_sum :: "('k \<Rightarrow> 'v \<Rightarrow> nat) \<Rightarrow> ('k, 'v) hash_map \<Rightarrow> nat" where
  "hm_sum f m = sum_list (map (\<lambda>(k, v). f k v) m)"

subsection \<open>The interface\<close>

locale map_ops =
  fixes empty :: 'm
    and get :: "'k \<Rightarrow> 'm \<Rightarrow> 'v option"
    and insert :: "'k \<Rightarrow> 'v \<Rightarrow> 'm \<Rightarrow> 'm"
    and remove :: "'k \<Rightarrow> 'm \<Rightarrow> 'm"
    and wf :: "'m \<Rightarrow> bool"
  assumes get_empty: "get k empty = None"
    and get_insert: "wf m \<Longrightarrow> get k' (insert k v m) = (if k' = k then Some v else get k' m)"
    and get_remove: "wf m \<Longrightarrow> get k' (remove k m) = (if k' = k then None else get k' m)"
    and wf_empty: "wf empty"
    and wf_insert: "wf m \<Longrightarrow> wf (insert k v m)"
    and wf_remove: "wf m \<Longrightarrow> wf (remove k m)"
begin

lemmas map_laws = get_empty get_insert get_remove wf_empty wf_insert wf_remove

lemma insert_then_remove: "wf m \<Longrightarrow> get k m = None \<Longrightarrow> get k' (remove k (insert k v m)) = get k' m"
  by (simp add: map_laws)

lemma remove_idem: "wf m \<Longrightarrow> get k' (remove k (remove k m)) = get k' (remove k m)"
  by (simp add: map_laws)

end

lemma hm_get_simps [simp]:
  "hm_get k [] = None" "hm_get k ((k', v) # m) = (if k' = k then Some v else hm_get k m)"
  by (simp_all add: hm_get_def)

lemma hm_or_Cons: "hm_or d k ((k', v) # m) = (if k' = k then v else hm_or d k m)"
  by (simp add: hm_or_def)

lemma hm_or_None: "hm_get k m = None \<Longrightarrow> hm_or d k m = d"
  by (simp add: hm_or_def)

lemma hm_get_insert [simp]: "hm_get k' (hm_insert k v m) = (if k' = k then Some v else hm_get k' m)"
  by (induction k v m rule: hm_insert.induct) auto

lemma hm_get_remove [simp]: "hm_get k' (hm_remove k m) = (if k' = k then None else hm_get k' m)"
  unfolding hm_remove_def by (induction m) auto

lemma hm_keys_simps [simp]: "hm_keys [] = []" "hm_keys (p # m) = fst p # hm_keys m"
  by (simp_all add: hm_keys_def)

lemma hm_wf_simps [simp]: "hm_wf []" "hm_wf (p # m) \<longleftrightarrow> fst p \<notin> set (hm_keys m) \<and> hm_wf m"
  by (auto simp: hm_wf_def)

lemma set_hm_keys_insert [simp]: "set (hm_keys (hm_insert k v m)) = insert k (set (hm_keys m))"
  by (induction k v m rule: hm_insert.induct) auto

lemma hm_wf_insert [simp]: "hm_wf m \<Longrightarrow> hm_wf (hm_insert k v m)"
  by (induction k v m rule: hm_insert.induct) auto

lemma hm_wf_filter: "hm_wf m \<Longrightarrow> hm_wf (filter P m)"
  by (auto simp: hm_wf_def hm_keys_def distinct_map inj_on_def)

lemma hm_wf_remove [simp]: "hm_wf m \<Longrightarrow> hm_wf (hm_remove k m)"
  unfolding hm_remove_def by (rule hm_wf_filter)

lemma hm_wf_retain [simp]: "hm_wf m \<Longrightarrow> hm_wf (hm_retain P m)"
  unfolding hm_retain_def by (rule hm_wf_filter)

interpretation hm: map_ops hm_empty hm_get hm_insert hm_remove hm_wf
  by unfold_locales (simp_all add: hm_empty_def)

lemma hm_get_None: "hm_get k m = None \<longleftrightarrow> k \<notin> set (hm_keys m)"
  by (auto simp: hm_get_def hm_keys_def map_of_eq_None_iff)

lemma hm_get_in_set: "hm_get k m = Some v \<Longrightarrow> (k, v) \<in> set m"
  by (simp add: hm_get_def map_of_SomeD)

lemma hm_get_eq_Some: "hm_wf m \<Longrightarrow> hm_get k m = Some v \<longleftrightarrow> (k, v) \<in> set m"
  by (simp add: hm_get_def hm_wf_def hm_keys_def)

lemma hm_insert_same: "hm_get k m = Some v \<Longrightarrow> hm_insert k v m = m"
  by (induction k v m rule: hm_insert.induct) (auto split: if_splits)

lemma hm_get_retain:
  "hm_wf m \<Longrightarrow> hm_get k (hm_retain P m) = (case hm_get k m of None \<Rightarrow> None | Some v \<Rightarrow> if P k v then Some v else None)"
proof (induction m)
  case (Cons p m)
  obtain k' v where p: "p = (k', v)" by (cases p)
  from Cons p have IH: "hm_get k (hm_retain P m) =
      (case hm_get k m of None \<Rightarrow> None | Some v \<Rightarrow> if P k v then Some v else None)"
    and absent: "hm_get k' m = None" by (simp_all add: hm_get_None)
  then show ?case by (auto simp: p hm_retain_def)
qed (simp add: hm_retain_def)

lemma hm_remove_absent: "hm_get k m = None \<Longrightarrow> hm_remove k m = m"
  by (auto simp: hm_get_None hm_remove_def hm_keys_def filter_id_conv)

subsection \<open>Sums over a map\<close>

lemma hm_sum_simps [simp]: "hm_sum f [] = 0" "hm_sum f ((k, v) # m) = f k v + hm_sum f m"
  by (simp_all add: hm_sum_def)

lemma hm_sum_insert_new: "hm_get k m = None \<Longrightarrow> hm_sum f (hm_insert k v m) = hm_sum f m + f k v"
  by (induction k v m rule: hm_insert.induct) (auto split: if_splits)

lemma hm_sum_insert_old:
  "hm_get k m = Some v0 \<Longrightarrow> hm_sum f (hm_insert k v m) + f k v0 = hm_sum f m + f k v"
  by (induction k v m rule: hm_insert.induct) (auto split: if_splits)

lemma hm_sum_remove:
  "hm_wf m \<Longrightarrow> hm_get k m = Some v \<Longrightarrow> hm_sum f (hm_remove k m) + f k v = hm_sum f m"
proof (induction m)
  case (Cons p m)
  then show ?case
    by (cases p) (auto simp: hm_remove_def hm_get_None [symmetric] hm_remove_absent [unfolded hm_remove_def])
qed simp

lemma hm_sum_ge: "hm_get k m = Some v \<Longrightarrow> f k v \<le> hm_sum f m"
  by (induction m) (auto split: if_splits)

lemma hm_sum_mono: "(\<And>k v. f k v \<le> g k v) \<Longrightarrow> hm_sum f m \<le> hm_sum g m"
  by (induction m) (auto intro!: add_le_mono)

lemma hm_sum_eq_0: "hm_sum f m = 0 \<longleftrightarrow> (\<forall>(k, v) \<in> set m. f k v = 0)"
  by (induction m) auto

subsection \<open>Iteration\<close>

definition iteration :: "('k list \<Rightarrow> 'k list) \<Rightarrow> bool" where
  "iteration iter \<longleftrightarrow> (\<forall>ks. mset (iter ks) = mset ks)"

text \<open>\<^verbatim>\<open>m.values()\<close> in iteration order.\<close>

definition hm_values :: "('k list \<Rightarrow> 'k list) \<Rightarrow> ('k, 'v) hash_map \<Rightarrow> 'v list" where
  "hm_values iter m = List.map_filter (\<lambda>k. hm_get k m) (iter (hm_keys m))"

lemma iteration_set: "iteration iter \<Longrightarrow> set (iter ks) = set ks"
  by (metis iteration_def set_mset_mset)

lemma iteration_distinct: "iteration iter \<Longrightarrow> distinct (iter ks) = distinct ks"
  by (metis iteration_def mset_eq_imp_distinct_iff)

lemma iteration_id [simp]: "iteration (\<lambda>ks. ks)"
  by (simp add: iteration_def)

lemma iteration_rev [simp]: "iteration rev"
  by (simp add: iteration_def)

lemma map_filter_get: "hm_wf m \<Longrightarrow> List.map_filter (\<lambda>k. hm_get k m) (hm_keys m) = map snd m"
proof -
  have "List.map_filter (\<lambda>k. hm_get k m) (map fst n) = map snd n"
    if "hm_wf m" "set n \<subseteq> set m" for n
    using that by (induction n) (auto simp: List.map_filter_simps hm_get_eq_Some [THEN iffD2])
  then show "hm_wf m \<Longrightarrow> ?thesis" by (simp add: hm_keys_def)
qed

lemma mset_map_filter: "mset (List.map_filter f xs) = mset (List.map_filter f ys)" if "mset xs = mset ys"
proof -
  have "mset (List.map_filter f zs) = image_mset the (filter_mset (\<lambda>x. x \<noteq> None) (image_mset f (mset zs)))" for zs
    by (induction zs) (auto simp: List.map_filter_simps split: option.splits)
  then show ?thesis using that by simp
qed

lemma hm_values_mset: "hm_wf m \<Longrightarrow> iteration iter \<Longrightarrow> mset (hm_values iter m) = image_mset snd (mset m)"
  unfolding hm_values_def
  by (metis iteration_def map_filter_get mset_map mset_map_filter)

lemma in_hm_or: "x \<in> set (hm_or [] a m) \<longleftrightarrow> (\<exists>xs. hm_get a m = Some xs \<and> x \<in> set xs)"
  by (cases "hm_get a m") (simp_all add: hm_or_def)

text \<open>The values flattened, as in \<^verbatim>\<open>m.values().flatten()\<close>.\<close>

lemma set_flatten: "hm_wf m \<Longrightarrow> set (concat (map snd m)) = (\<Union>a. set (hm_or [] a m))"
  by (force simp: in_hm_or hm_get_eq_Some)

lemma flatten_perm:
  assumes "hm_wf m" and "iteration iter"
  shows "mset (concat (hm_values iter m)) = mset (concat (map snd m))"
proof -
  have "mset (map mset (hm_values iter m)) = mset (map mset (map snd m))"
    using hm_values_mset [OF assms] by (simp add: multiset.map_comp)
  then show ?thesis unfolding mset_concat by (metis sum_mset_sum_list)
qed

lemma length_flatten: "length (concat (map snd m)) = hm_sum (\<lambda>_. length) m"
  by (simp add: hm_sum_def length_concat comp_def split_def)

end
