(* ===== verification/Server_Types.thy ===== *)
theory Server_Types
  imports Complex_Main Protocol_Text Hash_Map
begin

section \<open>The server's data\<close>

text \<open>
  The types of \<^verbatim>\<open>crates/server\<close>: errors (\<^verbatim>\<open>lib.rs\<close>), the delivery registry (\<^verbatim>\<open>delivery.rs\<close>) and
  the shared state (\<^verbatim>\<open>state.rs\<close>). Handles that the code shares by reference are numbers: a
  \<^verbatim>\<open>ClientToken\<close> is the identity of its \<^verbatim>\<open>Arc\<close>, a \<^verbatim>\<open>ClientWriter\<close> names a channel of the store
  \<open>channels\<close> (so a cloned sender and the original reach the same queue), a disconnect
  handle names a watch channel, and \<open>signals\<close> lists the handles \<^verbatim>\<open>send(true)\<close> was called on.
  The channel type \<open>'w\<close> and its operations belong to tokio and are parameters (\<open>chan_ops\<close>);
  the locale \<open>mpsc\<close> states their documented behaviour.
\<close>

subsection \<open>Limits\<close>

definition MESSAGE_HISTORY_LIMIT :: nat where
  [limits]: "MESSAGE_HISTORY_LIMIT = 100"

definition MAX_CONNECTIONS :: nat where
  [limits]: "MAX_CONNECTIONS = 256"

definition MAX_CONNECTIONS_PER_IP :: nat where
  [limits]: "MAX_CONNECTIONS_PER_IP = 4"

definition PENDING_MESSAGES_LIMIT :: nat where
  [limits]: "PENDING_MESSAGES_LIMIT = 128"

definition OUTBOUND_QUEUE_SIZE :: nat where
  [limits]: "OUTBOUND_QUEUE_SIZE = MESSAGE_HISTORY_LIMIT + PENDING_MESSAGES_LIMIT"

definition MAX_USERNAME_BYTES :: nat where
  [limits]: "MAX_USERNAME_BYTES = 32"

subsection \<open>Addresses\<close>

datatype ip_addr = V4 "32 word" | V6 "128 word"

datatype socket_addr =
    SocketV4 "32 word" "16 word"
  | SocketV6 "128 word" "16 word" "32 word" "32 word"

fun addr_ip :: "socket_addr \<Rightarrow> ip_addr" where
  "addr_ip (SocketV4 a port) = V4 a"
| "addr_ip (SocketV6 a port flow scope) = V6 a"

subsection \<open>Errors\<close>

datatype server_error =
    EmptyHandshakeUsername
  | UsernameContainsControlCharacters
  | UsernameTooLong
  | MessageTooLong
  | InvalidFrameType
  | UnsupportedProtocolVersion
  | UnknownProtocolFrameType
  | TruncatedProtocolFrame
  | PresenceEncodingFailed
  | InvalidUtf8
  | ConnectionLimitReached
  | MessageRateLimitExceeded
  | OutboundQueueFull
  | OutboundWriterGone
  | UnknownClient
  | ClientStatePoisoned
  | ServerIo error_kind

text \<open>Their texts, which only the log shows; \<open>io\<close> is the text of an \<^verbatim>\<open>std::io::Error\<close>.\<close>

fun error_text :: "(error_kind \<Rightarrow> ustr) \<Rightarrow> server_error \<Rightarrow> ustr" where
  "error_text io EmptyHandshakeUsername = lit ''received an empty username during client handshake''"
| "error_text io UsernameContainsControlCharacters = lit ''username contains control characters''"
| "error_text io UsernameTooLong = lit ''username exceeds the maximum length''"
| "error_text io MessageTooLong = lit ''message exceeds the maximum length''"
| "error_text io InvalidFrameType = lit ''received an unexpected protocol frame type''"
| "error_text io UnsupportedProtocolVersion = lit ''unsupported protocol version''"
| "error_text io UnknownProtocolFrameType = lit ''unknown protocol frame type''"
| "error_text io TruncatedProtocolFrame = lit ''truncated protocol frame''"
| "error_text io PresenceEncodingFailed = lit ''failed to encode a presence frame''"
| "error_text io InvalidUtf8 = lit ''received invalid UTF-8 data''"
| "error_text io ConnectionLimitReached = lit ''connection limit reached''"
| "error_text io MessageRateLimitExceeded = lit ''message rate limit exceeded''"
| "error_text io OutboundQueueFull = lit ''client outbound queue is full''"
| "error_text io OutboundWriterGone = lit ''client outbound writer is gone''"
| "error_text io UnknownClient = lit ''client is unknown or no longer active''"
| "error_text io ClientStatePoisoned = lit ''shared client state is poisoned''"
| "error_text io (ServerIo e) = lit ''io error: '' @ io e"

subsection \<open>Channels\<close>

text \<open>The three results of \<^verbatim>\<open>Sender::try_send\<close>.\<close>

datatype send_status = Sent | Full | Closed

record 'w chan_ops =
  try_send :: "'w \<Rightarrow> bytes \<Rightarrow> send_status \<times> 'w"
  is_closed :: "'w \<Rightarrow> bool"

text \<open>
  What tokio documents of a bounded \<^verbatim>\<open>mpsc\<close> channel: \<^verbatim>\<open>try_send\<close> queues the message while the
  receiver is open and a slot is free, and otherwise leaves the queue as it is and says why.
\<close>

locale mpsc =
  fixes ops :: "'w chan_ops"
    and queued :: "'w \<Rightarrow> bytes list"
    and capacity :: "'w \<Rightarrow> nat"
  assumes send_free:
    "\<not> is_closed ops w \<Longrightarrow> length (queued w) < capacity w \<Longrightarrow>
       \<exists>w'. try_send ops w m = (Sent, w') \<and> queued w' = queued w @ [m] \<and> capacity w' = capacity w \<and>
         \<not> is_closed ops w'"
    and send_full: "\<not> is_closed ops w \<Longrightarrow> capacity w \<le> length (queued w) \<Longrightarrow> try_send ops w m = (Full, w)"
    and send_closed: "is_closed ops w \<Longrightarrow> try_send ops w m = (Closed, w)"

text \<open>The bounded queue that satisfies it, used to evaluate the model.\<close>

record bounded_chan =
  bc_queue :: "bytes list"
  bc_capacity :: nat
  bc_closed :: bool

definition bounded_ops :: "bounded_chan chan_ops" where
  "bounded_ops =
     \<lparr>try_send = (\<lambda>w m.
        if bc_closed w then (Closed, w)
        else if length (bc_queue w) < bc_capacity w then (Sent, w\<lparr>bc_queue := bc_queue w @ [m]\<rparr>)
        else (Full, w)),
      is_closed = bc_closed\<rparr>"

definition bounded_new :: "nat \<Rightarrow> bounded_chan" where
  "bounded_new n = \<lparr>bc_queue = [], bc_capacity = n, bc_closed = False\<rparr>"

interpretation bounded: mpsc bounded_ops bc_queue bc_capacity
  by unfold_locales (simp_all add: bounded_ops_def)

subsection \<open>The registries\<close>

type_synonym token = nat
type_synonym chan_id = nat
type_synonym watch_id = nat

record client_session =
  cs_token :: token
  cs_username :: "ustr option"

record client_registry =
  by_addr :: "(socket_addr, client_session list) hash_map"
  per_ip :: "(ip_addr, nat) hash_map"
  total :: nat

record client_delivery =
  cd_addr :: socket_addr
  cd_token :: token
  cd_writer :: chan_id
  cd_disconnect :: "watch_id option"
  cd_ready :: bool
  cd_pending :: "bytes list"

type_synonym delivery_registry = "(socket_addr, client_delivery list) hash_map"

record message_history =
  entries :: "ustr list"
  limit :: nat

record rate_limit_state =
  tokens :: rat
  last_refill :: nat

subsection \<open>The shared state\<close>

record 'w server_state =
  clients :: "client_registry mutex"
  deliveries :: "delivery_registry mutex"
  history :: "message_history mutex"
  rate_limits :: "(ip_addr, rate_limit_state) hash_map mutex"
  replay_barrier :: "unit mutex"
  channels :: "chan_id \<Rightarrow> 'w"
  signals :: "watch_id list"
  next_token :: token

definition registry_new :: client_registry where
  "registry_new = \<lparr>by_addr = hm_empty, per_ip = hm_empty, total = 0\<rparr>"

definition history_new :: "nat \<Rightarrow> message_history" where
  "history_new n = \<lparr>entries = [], limit = n\<rparr>"

definition new_registry :: "delivery_registry mutex" where
  "new_registry = mutex_new hm_empty"

text \<open>\<open>chans\<close> is the channel store the server starts with.\<close>

definition new_shared_state :: "(chan_id \<Rightarrow> 'w) \<Rightarrow> 'w server_state" where
  "new_shared_state chans =
     \<lparr>clients = mutex_new registry_new,
      deliveries = new_registry,
      history = mutex_new (history_new MESSAGE_HISTORY_LIMIT),
      rate_limits = mutex_new hm_empty,
      replay_barrier = mutex_new (),
      channels = chans,
      signals = [],
      next_token = 0\<rparr>"

text \<open>No mutex of the state is poisoned.\<close>

definition healthy :: "'w server_state \<Rightarrow> bool" where
  "healthy st \<longleftrightarrow>
     \<not> poisoned (clients st) \<and> \<not> poisoned (deliveries st) \<and> \<not> poisoned (history st) \<and>
     \<not> poisoned (rate_limits st) \<and> \<not> poisoned (replay_barrier st)"

abbreviation sessions :: "'w server_state \<Rightarrow> (socket_addr, client_session list) hash_map" where
  "sessions st \<equiv> by_addr (guarded (clients st))"

abbreviation outboxes :: "'w server_state \<Rightarrow> delivery_registry" where
  "outboxes st \<equiv> guarded (deliveries st)"

abbreviation retained :: "'w server_state \<Rightarrow> ustr list" where
  "retained st \<equiv> entries (guarded (history st))"

end
