(* ===== verification/Async_Frame.thy ===== *)
theory Async_Frame
  imports Server_Types
begin

section \<open>The server's frame decoder and the handshake\<close>

text \<open>
  \<^verbatim>\<open>read_async_frame\<close> and \<^verbatim>\<open>read_handshake_username\<close> of \<^verbatim>\<open>connection.rs\<close>. The asynchronous decoder
  is a second implementation of the protocol's \<^verbatim>\<open>read_frame\<close>: it reads the first byte alone, the
  rest of the header with \<^verbatim>\<open>read_exact\<close>, and checks the length before version and type. It
  accepts the same frames and leaves the same bytes; only the error differs, and \<open>async_error\<close>
  says how. An \<^verbatim>\<open>.await\<close> on a reader is the reader's operation: what other tasks do meanwhile
  cannot reach this connection's reader.
\<close>

definition io_frame_error :: "error_kind \<Rightarrow> server_error" where
  "io_frame_error k = (if k = UnexpectedEof then TruncatedProtocolFrame else ServerIo k)"

definition read_async_frame :: "'r read_ops \<Rightarrow> 'r \<Rightarrow> (frame option, server_error) result \<times> 'r" where
  "read_async_frame ops r =
     (case op_read ops 1 r of
        (Err k, r) \<Rightarrow> (Err (ServerIo k), r)
      | (Panic, r) \<Rightarrow> (Panic, r)
      | (Ok first, r) \<Rightarrow>
          if first = [] then (Ok None, r)
          else
            (case op_read_exact ops (FRAME_HEADER_BYTES - 1) r of
               (Err k, r) \<Rightarrow> (Err (io_frame_error k), r)
             | (Panic, r) \<Rightarrow> (Panic, r)
             | (Ok others, r) \<Rightarrow>
                 let bs = first @ others; payload_len = payload_length bs in
                 if payload_len > MAX_FRAME_PAYLOAD_BYTES then (Err MessageTooLong, r)
                 else if bs ! 0 \<noteq> CURRENT_PROTOCOL_VERSION then (Err UnsupportedProtocolVersion, r)
                 else
                   (case frame_type_try_from (bs ! 1) of
                      Err _ \<Rightarrow> (Err UnknownProtocolFrameType, r)
                    | Panic \<Rightarrow> (Panic, r)
                    | Ok k \<Rightarrow>
                        (case op_read_exact ops payload_len r of
                           (Err e, r) \<Rightarrow> (Err (io_frame_error e), r)
                         | (Panic, r) \<Rightarrow> (Panic, r)
                         | (Ok p, r) \<Rightarrow> (Ok (Some \<lparr>version = bs ! 0, kind = k, payload = p\<rparr>), r)))))"

definition read_handshake_username :: "'r read_ops \<Rightarrow> 'r \<Rightarrow> (ustr, server_error) result \<times> 'r" where
  "read_handshake_username ops r =
     (case read_async_frame ops r of
        (Panic, r) \<Rightarrow> (Panic, r)
      | (Err MessageTooLong, r) \<Rightarrow> (Err UsernameTooLong, r)
      | (Err e, r) \<Rightarrow> (Err e, r)
      | (Ok None, r) \<Rightarrow> (Err EmptyHandshakeUsername, r)
      | (Ok (Some f), r) \<Rightarrow>
          if kind f \<noteq> Handshake then (Err InvalidFrameType, r)
          else
            (case from_utf8 (payload f) of
               None \<Rightarrow> (Err InvalidUtf8, r)
             | Some username \<Rightarrow>
                 if str_len username > MAX_USERNAME_BYTES then (Err UsernameTooLong, r)
                 else if trim username = [] then (Err EmptyHandshakeUsername, r)
                 else if \<not> is_valid_username username then (Err UsernameContainsControlCharacters, r)
                 else (Ok (trim username), r)))"

subsection \<open>Agreement with the protocol's decoder\<close>

fun server_error_of :: "frame_error \<Rightarrow> server_error" where
  "server_error_of (FrameIo k) = ServerIo k"
| "server_error_of (UnsupportedVersion v) = UnsupportedProtocolVersion"
| "server_error_of (UnknownType t) = UnknownProtocolFrameType"
| "server_error_of (TooLarge n) = MessageTooLong"
| "server_error_of InvalidUsername = EmptyHandshakeUsername"
| "server_error_of Truncated = TruncatedProtocolFrame"

text \<open>The error for bytes that \<open>decode_frame\<close> refuses with \<open>e\<close>: an oversized length is reported
  first.\<close>

definition async_error :: "bytes \<Rightarrow> frame_error \<Rightarrow> server_error" where
  "async_error bs e =
     (if FRAME_HEADER_BYTES \<le> length bs \<and> payload_length bs > MAX_FRAME_PAYLOAD_BYTES then MessageTooLong
      else server_error_of e)"

text \<open>The decoder once the header is there, and what its last read does.\<close>

definition after_header :: "'r read_ops \<Rightarrow> bytes \<Rightarrow> 'r \<Rightarrow> (frame option, server_error) result \<times> 'r" where
  "after_header ops bs r =
     (if payload_length bs > MAX_FRAME_PAYLOAD_BYTES then (Err MessageTooLong, r)
      else if bs ! 0 \<noteq> CURRENT_PROTOCOL_VERSION then (Err UnsupportedProtocolVersion, r)
      else
        (case frame_type_try_from (bs ! 1) of
           Err _ \<Rightarrow> (Err UnknownProtocolFrameType, r)
         | Panic \<Rightarrow> (Panic, r)
         | Ok k \<Rightarrow>
             (case op_read_exact ops (payload_length bs) r of
                (Err e, r) \<Rightarrow> (Err (io_frame_error e), r)
              | (Panic, r) \<Rightarrow> (Panic, r)
              | (Ok p, r) \<Rightarrow> (Ok (Some \<lparr>version = bs ! 0, kind = k, payload = p\<rparr>), r))))"

lemma frame_type_try_from_Err: "frame_type_try_from v = Err e \<Longrightarrow> e = UnknownType v"
  by (auto simp: frame_type_try_from_def split: if_splits)

context byte_reader
begin

lemma async_header:
  assumes "live r" and "avail r \<noteq> []"
  obtains r1 where "op_read ops 1 r = (Ok [hd (avail r)], r1)" "live r1" "avail r1 = tl (avail r)"
proof -
  from read_live [OF assms(1) zero_less_one] obtain bs r1 where
    o: "op_read ops 1 r = (Ok bs, r1)" "live r1" "avail r = bs @ avail r1" "length bs \<le> 1" "bs = [] \<longrightarrow> avail r = []"
    by blast
  with assms(2) obtain b where "bs = [b]" by (cases bs) auto
  with o show ?thesis by (intro that [of r1]) simp_all
qed

lemma after_payload:
  assumes "live r"
  shows "\<exists>r'. live r' \<and>
    (if length (avail r) < n then op_read_exact ops n r = (Err UnexpectedEof, r')
     else op_read_exact ops n r = (Ok (take n (avail r)), r') \<and> avail r' = drop n (avail r))"
proof (cases "length (avail r) < n")
  case True
  with read_exact_short [OF assms True] show ?thesis by auto
next
  case False
  with read_exact_live [OF assms, of n] show ?thesis by auto
qed

lemma read_async_frame_refines:
  assumes "live r"
  shows "\<exists>r'. live r' \<and>
    (case decode_frame (avail r) of
       Ok (fo, rest) \<Rightarrow> read_async_frame ops r = (Ok fo, r') \<and> avail r' = rest
     | Err e \<Rightarrow> read_async_frame ops r = (Err (async_error (avail r) e), r')
     | Panic \<Rightarrow> False)"
proof (cases "avail r = []")
  case True
  from read_live [OF assms zero_less_one] obtain bs r1 where "op_read ops 1 r = (Ok bs, r1)" "live r1" "avail r = bs @ avail r1"
    by blast
  with True show ?thesis by (auto simp: read_async_frame_def decode_frame_def)
next
  case False
  let ?bs = "avail r"
  obtain r1 where r1: "op_read ops 1 r = (Ok [hd ?bs], r1)" "live r1" "avail r1 = tl ?bs"
    using assms False by (rule async_header)
  show ?thesis
  proof (cases "length ?bs < FRAME_HEADER_BYTES")
    case True
    with r1(3) False have "length (avail r1) < FRAME_HEADER_BYTES - 1" by (auto simp: limits)
    from read_exact_short [OF r1(2) this] obtain r2 where
      "op_read_exact ops (FRAME_HEADER_BYTES - 1) r1 = (Err UnexpectedEof, r2)" "live r2" by blast
    with True False r1 show ?thesis
      by (auto simp: read_async_frame_def decode_frame_def io_frame_error_def async_error_def)
  next
    case len: False
    with r1(3) have "FRAME_HEADER_BYTES - 1 \<le> length (avail r1)" by simp
    from read_exact_live [OF r1(2) this] obtain r2 where
      r2: "op_read_exact ops (FRAME_HEADER_BYTES - 1) r1 = (Ok (take (FRAME_HEADER_BYTES - 1) (tl ?bs)), r2)"
      "live r2" "avail r2 = drop (FRAME_HEADER_BYTES - 1) (tl ?bs)" unfolding r1(3) by blast
    define h where "h = [hd ?bs] @ take (FRAME_HEADER_BYTES - 1) (tl ?bs)"
    have h: "h = take FRAME_HEADER_BYTES ?bs" unfolding h_def using False by (cases ?bs) (auto simp: limits)
    have d: "avail r2 = drop FRAME_HEADER_BYTES ?bs" using r2(3) False by (cases ?bs) (auto simp: limits)
    have eqs: "h ! 0 = ?bs ! 0" "h ! 1 = ?bs ! 1" "payload_length h = payload_length ?bs"
      unfolding h using len by (auto simp: FRAME_HEADER_BYTES_def payload_length_def)
    have read: "read_async_frame ops r = after_header ops h r2"
      using r1(1) r2(1) by (simp add: read_async_frame_def after_header_def h_def Let_def)
    show ?thesis
      unfolding read after_header_def decode_frame_def async_error_def eqs
      using after_payload [OF r2(2), of "payload_length ?bs"] False len d
      by (cases "frame_type_try_from (?bs ! 1)"; cases "length (avail r2) < payload_length ?bs")
         (auto simp: io_frame_error_def r2(2) drop_drop add.commute dest: frame_type_try_from_Err)
  qed
qed

end

sublocale byte_reader \<subseteq> async: frame_source "read_async_frame ops" avail live
proof unfold_locales
  fix r f rest
  assume l: "live r" and w: "wf_frame f" and a: "avail r = frame_bytes f @ rest"
  show "\<exists>r'. read_async_frame ops r = (Ok (Some f), r') \<and> live r' \<and> avail r' = rest"
    using read_async_frame_refines [OF l] decode_frame_wf [OF w, of rest] a by auto
next
  fix r
  assume l: "live r" and a: "avail r = []"
  show "\<exists>r'. read_async_frame ops r = (Ok None, r')"
    using read_async_frame_refines [OF l] a by (auto simp: decode_frame_def)
next
  fix r f r'
  assume l: "live r" and d: "read_async_frame ops r = (Ok (Some f), r')"
  then have "decode_frame (avail r) = Ok (Some f, avail r')"
    using read_async_frame_refines [OF l] by (cases "decode_frame (avail r)") auto
  then show "wf_frame f \<and> avail r = frame_bytes f @ avail r'"
    using decode_frame_canonical by blast
qed

subsection \<open>What the handshake accepts\<close>

text \<open>On the bytes of one frame.\<close>

definition handshake_verdict :: "frame \<Rightarrow> (ustr, server_error) result" where
  "handshake_verdict f =
     (if kind f \<noteq> Handshake then Err InvalidFrameType
      else
        (case from_utf8 (payload f) of
           None \<Rightarrow> Err InvalidUtf8
         | Some username \<Rightarrow>
             if str_len username > MAX_USERNAME_BYTES then Err UsernameTooLong
             else if trim username = [] then Err EmptyHandshakeUsername
             else if \<not> is_valid_username username then Err UsernameContainsControlCharacters
             else Ok (trim username)))"

lemma read_handshake_username_frame:
  "read_async_frame ops r = (Ok (Some f), r') \<Longrightarrow> read_handshake_username ops r = (handshake_verdict f, r')"
  by (simp add: read_handshake_username_def handshake_verdict_def split: option.split)

lemma handshake_verdict_OkD:
  assumes "handshake_verdict f = Ok u"
  shows "kind f = Handshake" "\<exists>sent. from_utf8 (payload f) = Some sent \<and> u = trim sent"
    "valid_str u" "is_valid_username u" "str_len u \<le> MAX_USERNAME_BYTES"
proof -
  from assms obtain s where s: "kind f = Handshake" "from_utf8 (payload f) = Some s" "str_len s \<le> MAX_USERNAME_BYTES"
    "is_valid_username s" "u = trim s"
    by (auto simp: handshake_verdict_def split: if_splits option.splits)
  then show "kind f = Handshake" "\<exists>sent. from_utf8 (payload f) = Some sent \<and> u = trim sent"
    "valid_str u" "is_valid_username u" "str_len u \<le> MAX_USERNAME_BYTES"
    using from_utf8_SomeD(2) [OF s(2)] str_len_trim_le [of s] is_valid_username_trim [of s]
    by (auto simp: valid_str_trim)
qed

lemma read_handshake_username_OkD:
  assumes "read_handshake_username ops r = (Ok u, r')"
  obtains f where "read_async_frame ops r = (Ok (Some f), r')" "handshake_verdict f = Ok u"
proof -
  obtain x y where xy: "read_async_frame ops r = (x, y)" by (cases "read_async_frame ops r")
  show ?thesis
  proof (cases x)
    case (Ok fo)
    with assms xy obtain f where "fo = Some f" by (cases fo) (auto simp: read_handshake_username_def)
    with Ok xy assms read_handshake_username_frame [of ops r f y] that [of f] show ?thesis by simp
  next
    case (Err e)
    with assms xy show ?thesis by (cases e) (auto simp: read_handshake_username_def)
  next
    case Panic
    with assms xy show ?thesis by (simp add: read_handshake_username_def)
  qed
qed

context byte_reader
begin

lemma async_stream:
  "live r \<Longrightarrow> list_all wf_frame fs \<Longrightarrow> avail r = concat (map frame_bytes fs) \<Longrightarrow> length fs < n \<Longrightarrow>
     \<exists>r'. read_frames (read_async_frame ops) n r = (Ok fs, r')"
  by (rule async.stream)

end

subsection \<open>Properties\<close>

text \<open>
  C16. The server's decoder and the client's decoder agree: on the same bytes they accept the
  same frames and stop at the same place, and the server fails exactly where the client does,
  with the corresponding error, except that an oversized length is reported first.
\<close>

theorem decoders_agree:
  assumes "byte_reader ops avail live" and "live r"
  shows "\<exists>ra rs. live ra \<and> live rs \<and>
    (case read_frame ops r of
       (Ok fo, _) \<Rightarrow> read_frame ops r = (Ok fo, rs) \<and> read_async_frame ops r = (Ok fo, ra) \<and> avail ra = avail rs
     | (Err e, _) \<Rightarrow> read_async_frame ops r = (Err (async_error (avail r) e), ra)
     | (Panic, _) \<Rightarrow> False)"
proof -
  from byte_reader.read_frame_refines [OF assms] obtain rs where s: "live rs"
    "case decode_frame (avail r) of
       Ok (fo, rest) \<Rightarrow> read_frame ops r = (Ok fo, rs) \<and> avail rs = rest
     | Err e \<Rightarrow> read_frame ops r = (Err e, rs) | Panic \<Rightarrow> False" by blast
  from byte_reader.read_async_frame_refines [OF assms] obtain ra where a: "live ra"
    "case decode_frame (avail r) of
       Ok (fo, rest) \<Rightarrow> read_async_frame ops r = (Ok fo, ra) \<and> avail ra = rest
     | Err e \<Rightarrow> read_async_frame ops r = (Err (async_error (avail r) e), ra) | Panic \<Rightarrow> False" by blast
  show ?thesis
    using s a by (intro exI [of _ ra] exI [of _ rs]) (cases "decode_frame (avail r)", auto)
qed

theorem decoders_agree_witness:
  "\<exists>ra. read_async_frame script_ops [Data [9, 2, 0], Data [1, 0, 0]] = (Err MessageTooLong, ra)"
proof -
  let ?r = "[Data [9, 2, 0], Data [1, 0, 0]]"
  have "read_frame script_ops ?r = (Err (UnsupportedVersion 9), [])"
    by (simp add: read_frame_def read_header.simps script_ops_def limits)
  moreover have "async_error (script_bytes ?r) (UnsupportedVersion 9) = MessageTooLong"
    by (simp add: async_error_def limits payload_length_def from_be_u32_def)
  ultimately show ?thesis
    using decoders_agree [OF script.byte_reader_axioms, of ?r] by auto
qed

text \<open>
  A handshake succeeds only with a handshake frame that carries valid UTF-8 of at most 32
  bytes; the name it returns is the trimmed text, is not blank, has no control characters and
  is itself at most 32 bytes. Every other first frame is refused with its own error.
\<close>

lemma handshake_accepts:
  assumes "byte_reader ops avail live" and "live r" and "decode_frame (avail r) = Ok (Some f, rest)"
  shows "\<exists>r'. read_handshake_username ops r = (handshake_verdict f, r') \<and> avail r' = rest \<and>
    (\<forall>u. handshake_verdict f = Ok u \<longrightarrow>
       kind f = Handshake \<and> (\<exists>sent. valid_str sent \<and> payload f = as_bytes sent \<and> u = trim sent) \<and>
       u \<noteq> [] \<and> \<not> list_ex is_control u \<and> str_len u \<le> MAX_USERNAME_BYTES)"
proof -
  from byte_reader.read_async_frame_refines [OF assms(1,2)] assms(3) obtain r' where
    rd: "read_async_frame ops r = (Ok (Some f), r')" "avail r' = rest" by auto
  have "kind f = Handshake \<and> (\<exists>sent. valid_str sent \<and> payload f = as_bytes sent \<and> u = trim sent) \<and>
       u \<noteq> [] \<and> \<not> list_ex is_control u \<and> str_len u \<le> MAX_USERNAME_BYTES"
    if "handshake_verdict f = Ok u" for u
    using handshake_verdict_OkD [OF that] by (auto simp: from_utf8_Some_iff is_valid_username_def)
  with rd(2) read_handshake_username_frame [OF rd(1)] show ?thesis by (intro exI [of _ r'] conjI) simp_all
qed

end
