(* ===== verification/Registry.thy ===== *)
theory Registry
  imports Server_Types
begin

section \<open>The client registry\<close>

text \<open>
  Registration, removal and naming of clients (\<^verbatim>\<open>state.rs\<close>): \<^verbatim>\<open>register_client_with_status\<close>,
  \<^verbatim>\<open>remove_client_if_current\<close>, \<^verbatim>\<open>set_client_username\<close> and \<^verbatim>\<open>usernames\<close>. Arithmetic on the counters
  panics where it would underflow, and so does the \<^verbatim>\<open>unwrap\<close> on the per-address counter; the
  registry invariant excludes both. The specification is the set of registered
  \<open>(address, token)\<close> pairs: registering adds one, removing takes one away, and the counters
  are its cardinalities.
\<close>

subsection \<open>Operations on the registry\<close>

definition limit_reached :: "client_registry \<Rightarrow> ip_addr \<Rightarrow> bool" where
  "limit_reached cr ip \<longleftrightarrow>
     total cr \<ge> MAX_CONNECTIONS \<or> hm_or 0 ip (per_ip cr) \<ge> MAX_CONNECTIONS_PER_IP"

definition registry_add :: "socket_addr \<Rightarrow> token \<Rightarrow> client_registry \<Rightarrow> client_registry" where
  "registry_add a tok cr =
     cr\<lparr>by_addr := hm_insert a (hm_or [] a (by_addr cr) @ [\<lparr>cs_token = tok, cs_username = None\<rparr>]) (by_addr cr),
        total := total cr + 1,
        per_ip := hm_insert (addr_ip a) (hm_or 0 (addr_ip a) (per_ip cr) + 1) (per_ip cr)\<rparr>"

definition delivery_add :: "client_delivery \<Rightarrow> delivery_registry \<Rightarrow> delivery_registry" where
  "delivery_add d dl = hm_insert (cd_addr d) (hm_or [] (cd_addr d) dl @ [d]) dl"

definition register_client_with_status ::
  "'w server_state \<Rightarrow> socket_addr \<Rightarrow> chan_id \<Rightarrow> watch_id option \<Rightarrow> bool \<Rightarrow>
     (token, server_error) result \<times> 'w server_state"
where
  "register_client_with_status st a writer disconnect ready =
     (if poisoned (clients st) then (Err ClientStatePoisoned, st)
      else if limit_reached (guarded (clients st)) (addr_ip a) then (Err ConnectionLimitReached, st)
      else
        let tok = next_token st; st = st\<lparr>next_token := Suc tok\<rparr> in
        if poisoned (deliveries st) then (Err ClientStatePoisoned, st)
        else
          (Ok tok,
           st\<lparr>clients := mutex_set (registry_add a tok (guarded (clients st))) (clients st),
              deliveries := mutex_set
                (delivery_add \<lparr>cd_addr = a, cd_token = tok, cd_writer = writer, cd_disconnect = disconnect,
                               cd_ready = ready, cd_pending = []\<rparr> (guarded (deliveries st))) (deliveries st)\<rparr>))"

definition register_pending_client ::
  "'w server_state \<Rightarrow> socket_addr \<Rightarrow> chan_id \<Rightarrow> watch_id \<Rightarrow> (token, server_error) result \<times> 'w server_state"
where
  "register_pending_client st a writer disconnect =
     register_client_with_status st a writer (Some disconnect) False"

text \<open>\<^verbatim>\<open>if empty { by_addr.remove(&target_addr) }\<close>.\<close>

definition drop_if_empty :: "socket_addr \<Rightarrow> 'v list \<Rightarrow> (socket_addr, 'v list) hash_map \<Rightarrow> (socket_addr, 'v list) hash_map" where
  "drop_if_empty a kept m = (if kept = [] then hm_remove a m else m)"

text \<open>The part of \<^verbatim>\<open>remove_client_if_current\<close> under the \<^verbatim>\<open>clients\<close> lock.\<close>

definition registry_remove ::
  "socket_addr \<Rightarrow> token \<Rightarrow> client_registry \<Rightarrow> (bool, server_error) result \<times> client_registry"
where
  "registry_remove a tok cr =
     (case hm_get a (by_addr cr) of
        None \<Rightarrow> (Ok False, cr)
      | Some es \<Rightarrow>
          let kept = filter (\<lambda>c. cs_token c \<noteq> tok) es;
              removed = (length kept \<noteq> length es);
              cr1 = cr\<lparr>by_addr := hm_insert a kept (by_addr cr)\<rparr>;
              close = (\<lambda>cr. cr\<lparr>by_addr := drop_if_empty a kept (by_addr cr)\<rparr>)
          in if \<not> removed then (Ok False, close cr1)
             else if total cr1 = 0 then (Panic, cr1)
             else
               let cr2 = cr1\<lparr>total := total cr1 - 1\<rparr> in
               (case hm_get (addr_ip a) (per_ip cr2) of
                  None \<Rightarrow> (Panic, cr2)
                | Some ip_count \<Rightarrow>
                    if ip_count = 0 then (Panic, cr2)
                    else
                      (Ok True,
                       close (cr2\<lparr>per_ip :=
                         (if ip_count - 1 = 0 then hm_remove (addr_ip a) (per_ip cr2)
                          else hm_insert (addr_ip a) (ip_count - 1) (per_ip cr2))\<rparr>))))"

text \<open>The part under the \<^verbatim>\<open>deliveries\<close> lock: signal the sessions removed, then drop them.\<close>

definition delivery_remove ::
  "socket_addr \<Rightarrow> token \<Rightarrow> delivery_registry \<Rightarrow> delivery_registry \<times> watch_id list"
where
  "delivery_remove a tok dl =
     (case hm_get a dl of
        None \<Rightarrow> (dl, [])
      | Some es \<Rightarrow>
          let sent = List.map_filter cd_disconnect (filter (\<lambda>c. cd_token c = tok) es);
              kept = filter (\<lambda>c. cd_token c \<noteq> tok) es
          in (drop_if_empty a kept (hm_insert a kept dl), sent))"

definition remove_client_if_current ::
  "'w server_state \<Rightarrow> socket_addr \<Rightarrow> token \<Rightarrow> (bool, server_error) result \<times> 'w server_state"
where
  "remove_client_if_current st a tok =
     (if poisoned (clients st) then (Err ClientStatePoisoned, st)
      else
        (case registry_remove a tok (guarded (clients st)) of
           (Panic, cr) \<Rightarrow> (Panic, st\<lparr>clients := poison (mutex_set cr (clients st))\<rparr>)
         | (Err e, cr) \<Rightarrow> (Err e, st\<lparr>clients := mutex_set cr (clients st)\<rparr>)
         | (Ok removed, cr) \<Rightarrow>
             let st = st\<lparr>clients := mutex_set cr (clients st)\<rparr> in
             if \<not> removed then (Ok False, st)
             else if poisoned (deliveries st) then (Err ClientStatePoisoned, st)
             else
               let (dl, sent) = delivery_remove a tok (guarded (deliveries st)) in
               (Ok True, st\<lparr>deliveries := mutex_set dl (deliveries st), signals := signals st @ sent\<rparr>)))"

definition set_client_username ::
  "'w server_state \<Rightarrow> socket_addr \<Rightarrow> token \<Rightarrow> ustr \<Rightarrow> (unit, server_error) result \<times> 'w server_state"
where
  "set_client_username st a tok username =
     (if poisoned (clients st) then (Err ClientStatePoisoned, st)
      else
        let cr = guarded (clients st) in
        (case hm_get a (by_addr cr) of
           None \<Rightarrow> (Err UnknownClient, st)
         | Some es \<Rightarrow>
             (case find (\<lambda>c. cs_token c = tok) es of
                None \<Rightarrow> (Err UnknownClient, st)
              | Some _ \<Rightarrow>
                  (Ok (), st\<lparr>clients := mutex_set
                     (cr\<lparr>by_addr := hm_insert a
                        (update_first (\<lambda>c. cs_token c = tok) (\<lambda>c. c\<lparr>cs_username := Some username\<rparr>) es)
                        (by_addr cr)\<rparr>) (clients st)\<rparr>))))"

definition usernames ::
  "(socket_addr list \<Rightarrow> socket_addr list) \<Rightarrow> 'w server_state \<Rightarrow> (ustr list, server_error) result \<times> 'w server_state"
where
  "usernames iter st =
     (if poisoned (clients st) then (Err ClientStatePoisoned, st)
      else (Ok (List.map_filter cs_username (concat (hm_values iter (by_addr (guarded (clients st)))))), st))"

subsection \<open>Invariants\<close>

definition at_ip :: "ip_addr \<Rightarrow> socket_addr \<Rightarrow> 'c list \<Rightarrow> nat" where
  "at_ip ip a es = (if addr_ip a = ip then length es else 0)"

definition registry_inv :: "token \<Rightarrow> client_registry \<Rightarrow> bool" where
  "registry_inv fresh cr \<longleftrightarrow>
     hm_wf (by_addr cr) \<and> hm_wf (per_ip cr) \<and>
     total cr = hm_sum (\<lambda>_. length) (by_addr cr) \<and>
     (\<forall>ip. hm_or 0 ip (per_ip cr) = hm_sum (at_ip ip) (by_addr cr)) \<and>
     (\<forall>ip c. hm_get ip (per_ip cr) = Some c \<longrightarrow> 0 < c) \<and>
     (\<forall>a es. hm_get a (by_addr cr) = Some es \<longrightarrow>
        es \<noteq> [] \<and> distinct (map cs_token es) \<and> (\<forall>c \<in> set es. cs_token c < fresh)) \<and>
     total cr \<le> MAX_CONNECTIONS \<and>
     (\<forall>ip. hm_or 0 ip (per_ip cr) \<le> MAX_CONNECTIONS_PER_IP)"

text \<open>The two registries hold the same clients, address by address and in the same order; a
  ready client has nothing pending, and nobody has more than the limit.\<close>

definition delivery_ok :: "socket_addr \<Rightarrow> client_delivery \<Rightarrow> bool" where
  "delivery_ok a d \<longleftrightarrow>
     cd_addr d = a \<and> length (cd_pending d) \<le> PENDING_MESSAGES_LIMIT \<and> (cd_ready d \<longrightarrow> cd_pending d = [])"

definition delivery_inv :: "delivery_registry \<Rightarrow> bool" where
  "delivery_inv dl \<longleftrightarrow>
     hm_wf dl \<and> (\<forall>a ds. hm_get a dl = Some ds \<longrightarrow> ds \<noteq> [] \<and> list_all (delivery_ok a) ds)"

definition in_step :: "client_registry \<Rightarrow> delivery_registry \<Rightarrow> bool" where
  "in_step cr dl \<longleftrightarrow>
     (\<forall>a. map cd_token (hm_or [] a dl) = map cs_token (hm_or [] a (by_addr cr)))"

definition server_inv :: "'w server_state \<Rightarrow> bool" where
  "server_inv st \<longleftrightarrow>
     healthy st \<and> registry_inv (next_token st) (guarded (clients st)) \<and>
     delivery_inv (guarded (deliveries st)) \<and> in_step (guarded (clients st)) (guarded (deliveries st))"

lemma registry_new_inv: "registry_inv n registry_new"
  by (simp add: registry_inv_def registry_new_def hm_empty_def hm_or_def)

lemma new_shared_state_inv: "server_inv (new_shared_state chans)"
proof -
  have "in_step registry_new hm_empty"
    by (simp add: in_step_def registry_new_def hm_empty_def hm_or_def)
  then show ?thesis
    by (simp add: server_inv_def new_shared_state_def registry_new_inv healthy_def new_registry_def
        delivery_inv_def hm_empty_def)
qed

subsection \<open>Adding and removing one client\<close>

lemma hm_sum_at_ip_le: "hm_sum (at_ip ip) m \<le> hm_sum (\<lambda>_. length) m"
  by (rule hm_sum_mono) (simp add: at_ip_def)

lemma hm_sum_insert_or:
  assumes "f k (hm_or d k m) = (if hm_get k m = None then 0 else f k (hm_or d k m))"
  shows "hm_sum f (hm_insert k v m) + f k (hm_or d k m) = hm_sum f m + f k v"
  using assms by (cases "hm_get k m") (auto simp: hm_or_def hm_sum_insert_new hm_sum_insert_old)

lemma hm_or_insert [simp]: "hm_or d k' (hm_insert k v m) = (if k' = k then v else hm_or d k' m)"
  by (simp add: hm_or_def)

lemma hm_or_remove [simp]: "hm_or d k' (hm_remove k m) = (if k' = k then d else hm_or d k' m)"
  by (simp add: hm_or_def)

lemma registry_add_inv:
  assumes inv: "registry_inv fresh cr" and free: "\<not> limit_reached cr (addr_ip a)"
  shows "registry_inv (Suc fresh) (registry_add a fresh cr)"
proof -
  let ?es = "hm_or [] a (by_addr cr)" and ?m = "by_addr cr"
  let ?c = "\<lparr>cs_token = fresh, cs_username = None\<rparr>"
  have tot: "hm_sum (\<lambda>_. length) (hm_insert a (?es @ [?c]) ?m) = hm_sum (\<lambda>_. length) ?m + 1"
    using hm_sum_insert_or [of "\<lambda>_. length" a "[]" ?m "?es @ [?c]"] by (auto simp: hm_or_def split: option.splits)
  have ip: "hm_sum (at_ip i) (hm_insert a (?es @ [?c]) ?m) = hm_sum (at_ip i) ?m + (if addr_ip a = i then 1 else 0)" for i
    using hm_sum_insert_or [of "at_ip i" a "[]" ?m "?es @ [?c]"]
    by (auto simp: hm_or_def at_ip_def split: option.splits)
  have old: "distinct (map cs_token ?es)" "\<forall>c \<in> set ?es. cs_token c < fresh"
    using inv by (cases "hm_get a ?m"; auto simp: registry_inv_def hm_or_def)+
  have sess: "es \<noteq> [] \<and> distinct (map cs_token es) \<and> (\<forall>c \<in> set es. cs_token c < Suc fresh)"
    if "hm_get b (hm_insert a (?es @ [?c]) ?m) = Some es" for b es
  proof (cases "b = a")
    case True
    with that have es: "es = ?es @ [?c]" by simp
    with old show ?thesis by (auto simp: less_Suc_eq)
  next
    case False
    with that inv show ?thesis by (auto simp: registry_inv_def less_Suc_eq)
  qed
  from inv free tot ip sess show ?thesis
    unfolding registry_inv_def registry_add_def limit_reached_def
    by (auto simp: hm_or_def)
qed

lemma drop_if_empty_get:
  "hm_or [] b (drop_if_empty a kept (hm_insert a kept m)) = (if b = a then kept else hm_or [] b m)"
  by (auto simp: drop_if_empty_def)

lemma drop_if_empty_Some:
  "hm_get b (drop_if_empty a kept (hm_insert a kept m)) = Some es \<Longrightarrow>
     (b = a \<and> es = kept \<and> kept \<noteq> []) \<or> (b \<noteq> a \<and> hm_get b m = Some es)"
  by (auto simp: drop_if_empty_def split: if_splits)

lemma drop_if_empty_wf: "hm_wf m \<Longrightarrow> hm_wf (drop_if_empty a kept (hm_insert a kept m))"
  by (simp add: drop_if_empty_def)

lemma drop_if_empty_sum:
  assumes "hm_wf m" and "hm_get a m = Some es" and "f a [] = 0"
  shows "hm_sum f (drop_if_empty a kept (hm_insert a kept m)) + f a es = hm_sum f m + f a kept"
proof -
  have "hm_sum f (hm_insert a kept m) + f a es = hm_sum f m + f a kept"
    using assms(2) by (rule hm_sum_insert_old)
  moreover have "kept = [] \<Longrightarrow> hm_sum f (hm_remove a (hm_insert a kept m)) + f a kept = hm_sum f (hm_insert a kept m)"
    by (rule hm_sum_remove) (simp_all add: assms(1))
  ultimately show ?thesis using assms(3) by (auto simp: drop_if_empty_def)
qed

lemma registry_invD:
  assumes "registry_inv fresh cr"
  shows "hm_wf (by_addr cr)" "hm_wf (per_ip cr)" "total cr = hm_sum (\<lambda>_. length) (by_addr cr)"
    "hm_or 0 ip (per_ip cr) = hm_sum (at_ip ip) (by_addr cr)"
    "hm_get a (by_addr cr) = Some es \<Longrightarrow> es \<noteq> [] \<and> distinct (map cs_token es) \<and> (\<forall>c \<in> set es. cs_token c < fresh)"
    "total cr \<le> MAX_CONNECTIONS" "hm_or 0 ip (per_ip cr) \<le> MAX_CONNECTIONS_PER_IP"
    "distinct (map cs_token (hm_or [] a (by_addr cr)))"
proof -
  show "distinct (map cs_token (hm_or [] a (by_addr cr)))"
    using assms by (cases "hm_get a (by_addr cr)") (auto simp: registry_inv_def hm_or_def)
qed (use assms in \<open>auto simp: registry_inv_def\<close>)

text \<open>A registry that differs from a good one by one session fewer at \<open>a\<close> is good again.\<close>

lemma registry_remove_one_inv:
  assumes inv: "registry_inv fresh cr" and es: "hm_get a (by_addr cr) = Some es"
    and kept: "kept = filter (\<lambda>c. cs_token c \<noteq> tok) es" and len: "length es = Suc (length kept)"
    and m': "m' = drop_if_empty a kept (hm_insert a kept (by_addr cr))"
    and c: "hm_get (addr_ip a) (per_ip cr) = Some (Suc n)"
    and p': "p' = (if n = 0 then hm_remove (addr_ip a) (per_ip cr) else hm_insert (addr_ip a) n (per_ip cr))"
  shows "registry_inv fresh \<lparr>by_addr = m', per_ip = p', total = total cr - 1\<rparr>"
proof -
  note D = registry_invD [OF inv]
  have tot: "hm_sum (\<lambda>_. length) m' + 1 = total cr"
    using drop_if_empty_sum [OF D(1) es, of "\<lambda>_. length" kept] len D(3) by (simp add: m')
  have ip: "hm_sum (at_ip i) m' + (if addr_ip a = i then 1 else 0) = hm_sum (at_ip i) (by_addr cr)" for i
    using drop_if_empty_sum [OF D(1) es, of "at_ip i" kept] len by (auto simp: m' at_ip_def split: if_splits)
  have count: "hm_or 0 i p' + (if addr_ip a = i then 1 else 0) = hm_or 0 i (per_ip cr)" for i
    using c by (auto simp: p' hm_or_def)
  have pos: "0 < x" if "hm_get i p' = Some x" for i x
    using that inv by (auto simp: p' registry_inv_def split: if_splits)
  have sess: "x \<noteq> [] \<and> distinct (map cs_token x) \<and> (\<forall>c \<in> set x. cs_token c < fresh)"
    if "hm_get b m' = Some x" for b x
    using drop_if_empty_Some [OF that [unfolded m']] D(5) [of b x] D(5) [OF es] distinct_map_filter
    by (auto simp: kept)
  have sums: "hm_or 0 i p' = hm_sum (at_ip i) m'" for i
    using ip [of i] count [of i] D(4) [of i] by (auto split: if_splits)
  have bound: "hm_or 0 i p' \<le> MAX_CONNECTIONS_PER_IP" for i
    using count [of i] D(7) [of i] by linarith
  have wf: "hm_wf m'" "hm_wf p'"
    using D(1,2) by (simp_all add: m' p' drop_if_empty_wf)
  show ?thesis
    unfolding registry_inv_def using tot sums bound pos sess wf D(6) by auto
qed

lemma registry_remove_spec:
  assumes inv: "registry_inv fresh cr"
  obtains cr' where
    "registry_remove a tok cr = (Ok (tok \<in> cs_token ` set (hm_or [] a (by_addr cr))), cr')"
    "registry_inv fresh cr'"
    "\<And>b. hm_or [] b (by_addr cr') =
        (if b = a then filter (\<lambda>c. cs_token c \<noteq> tok) (hm_or [] a (by_addr cr)) else hm_or [] b (by_addr cr))"
proof (cases "hm_get a (by_addr cr)")
  case None
  then show ?thesis
    using inv that [of cr] by (simp add: registry_remove_def hm_or_def)
next
  case es: (Some es)
  note D = registry_invD [OF inv]
  let ?kept = "filter (\<lambda>c. cs_token c \<noteq> tok) es"
  have len: "length ?kept + (if tok \<in> cs_token ` set es then 1 else 0) = length es"
    using D(5) [OF es] by (intro length_filter_key) simp
  have or: "hm_or [] a (by_addr cr) = es" using es by (simp add: hm_or_def)
  show ?thesis
  proof (cases "tok \<in> cs_token ` set es")
    case False
    then have "?kept = es" by (auto simp: filter_id_conv)
    have same: "hm_insert a es (by_addr cr) = by_addr cr" using es by (rule hm_insert_same)
    show ?thesis
    proof (rule that [of cr])
      show "registry_remove a tok cr = (Ok (tok \<in> cs_token ` set (hm_or [] a (by_addr cr))), cr)"
        using es False or D(5) [OF es]
        by (simp add: registry_remove_def Let_def \<open>?kept = es\<close> same drop_if_empty_def)
    qed (use inv or \<open>?kept = es\<close> in auto)
  next
    case True
    then have l: "length es = Suc (length ?kept)" using len by simp
    have "length es \<le> total cr" using hm_sum_ge [OF es, of "\<lambda>_. length"] D(3) by simp
    then have t: "total cr \<noteq> 0" using l by simp
    have "length es \<le> hm_or 0 (addr_ip a) (per_ip cr)"
      using hm_sum_ge [OF es, of "at_ip (addr_ip a)"] D(4) by (simp add: at_ip_def)
    moreover have "0 < length es" using l by simp
    ultimately obtain c where c: "hm_get (addr_ip a) (per_ip cr) = Some c" "0 < c"
      unfolding hm_or_def by (cases "hm_get (addr_ip a) (per_ip cr)") auto
    then obtain n where n: "hm_get (addr_ip a) (per_ip cr) = Some (Suc n)" by (cases c) auto
    let ?m' = "drop_if_empty a ?kept (hm_insert a ?kept (by_addr cr))"
    let ?p' = "if n = 0 then hm_remove (addr_ip a) (per_ip cr) else hm_insert (addr_ip a) n (per_ip cr)"
    let ?cr' = "\<lparr>by_addr = ?m', per_ip = ?p', total = total cr - 1\<rparr>"
    show ?thesis
    proof (rule that [of ?cr'])
      show "registry_remove a tok cr = (Ok (tok \<in> cs_token ` set (hm_or [] a (by_addr cr))), ?cr')"
      proof -
        have ne: "length ?kept \<noteq> length es" using l by linarith
        show ?thesis
          unfolding registry_remove_def es Let_def or
          using True ne t n by (cases cr) (simp add: Suc_diff_1)
      qed
      show "registry_inv fresh ?cr'"
        using inv es refl l refl n refl by (rule registry_remove_one_inv)
    qed (simp add: drop_if_empty_get or)
  qed
qed

lemma delivery_invD:
  assumes "delivery_inv dl"
  shows "hm_wf dl" "d \<in> set (hm_or [] a dl) \<Longrightarrow> delivery_ok a d"
  using assms by (cases "hm_get a dl"; auto simp: delivery_inv_def hm_or_def list_all_iff)+

lemma delivery_add_inv:
  assumes "delivery_inv dl" and "delivery_ok (cd_addr d) d"
  shows "delivery_inv (delivery_add d dl)"
proof -
  have "list_all (delivery_ok (cd_addr d)) (hm_or [] (cd_addr d) dl @ [d])"
    using assms delivery_invD(2) [OF assms(1)] by (auto simp: list_all_iff)
  with assms(1) show ?thesis by (auto simp: delivery_inv_def delivery_add_def)
qed

lemma delivery_remove_spec:
  assumes "delivery_inv dl"
  shows "delivery_inv (fst (delivery_remove a tok dl))"
    and "hm_or [] b (fst (delivery_remove a tok dl)) =
           (if b = a then filter (\<lambda>d. cd_token d \<noteq> tok) (hm_or [] a dl) else hm_or [] b dl)"
    and "snd (delivery_remove a tok dl) =
           List.map_filter cd_disconnect (filter (\<lambda>d. cd_token d = tok) (hm_or [] a dl))"
proof -
  show "delivery_inv (fst (delivery_remove a tok dl))"
  proof (cases "hm_get a dl")
    case (Some es)
    let ?kept = "filter (\<lambda>c. cd_token c \<noteq> tok) es"
    have "ds \<noteq> [] \<and> list_all (delivery_ok b) ds"
      if "hm_get b (drop_if_empty a ?kept (hm_insert a ?kept dl)) = Some ds" for b ds
      using drop_if_empty_Some [OF that] assms Some by (auto simp: delivery_inv_def list_all_iff)
    with Some assms show ?thesis
      by (auto simp: delivery_remove_def Let_def delivery_inv_def drop_if_empty_wf)
  qed (use assms in \<open>simp add: delivery_remove_def\<close>)
  show "hm_or [] b (fst (delivery_remove a tok dl)) =
           (if b = a then filter (\<lambda>d. cd_token d \<noteq> tok) (hm_or [] a dl) else hm_or [] b dl)"
    by (cases "hm_get a dl") (auto simp: delivery_remove_def Let_def drop_if_empty_get, auto simp: hm_or_def)
  show "snd (delivery_remove a tok dl) =
           List.map_filter cd_disconnect (filter (\<lambda>d. cd_token d = tok) (hm_or [] a dl))"
    by (cases "hm_get a dl") (auto simp: delivery_remove_def Let_def hm_or_def List.map_filter_simps)
qed

subsection \<open>The operations on the shared state\<close>

text \<open>What an operation leaves alone.\<close>

definition same_rest :: "'w server_state \<Rightarrow> 'w server_state \<Rightarrow> bool" where
  "same_rest st st' \<longleftrightarrow>
     history st' = history st \<and> rate_limits st' = rate_limits st \<and>
     replay_barrier st' = replay_barrier st \<and> channels st' = channels st"

lemma same_rest_refl [simp]: "same_rest st st"
  by (simp add: same_rest_def)

lemma same_rest_trans: "same_rest a b \<Longrightarrow> same_rest b c \<Longrightarrow> same_rest a c"
  by (simp add: same_rest_def)

lemma filter_map_eq:
  "map f xs = map g ys \<Longrightarrow> map f (filter (\<lambda>x. f x \<noteq> k) xs) = map g (filter (\<lambda>y. g y \<noteq> k) ys)"
  by (induction xs arbitrary: ys) (auto simp: Cons_eq_map_conv)

lemma register_spec:
  assumes inv: "server_inv st" and free: "\<not> limit_reached (guarded (clients st)) (addr_ip a)"
  obtains st' where
    "register_client_with_status st a w dc rdy = (Ok (next_token st), st')"
    "server_inv st'" "same_rest st st'" "signals st' = signals st" "next_token st' = Suc (next_token st)"
    "\<And>b. hm_or [] b (sessions st') = hm_or [] b (sessions st) @
        (if b = a then [\<lparr>cs_token = next_token st, cs_username = None\<rparr>] else [])"
    "\<And>b. hm_or [] b (outboxes st') = hm_or [] b (outboxes st) @
        (if b = a then [\<lparr>cd_addr = a, cd_token = next_token st, cd_writer = w, cd_disconnect = dc,
                         cd_ready = rdy, cd_pending = []\<rparr>] else [])"
proof -
  let ?d = "\<lparr>cd_addr = a, cd_token = next_token st, cd_writer = w, cd_disconnect = dc,
                         cd_ready = rdy, cd_pending = []\<rparr>"
  let ?cr = "registry_add a (next_token st) (guarded (clients st))" and ?dl = "delivery_add ?d (guarded (deliveries st))"
  let ?st' = "st\<lparr>next_token := Suc (next_token st), clients := mutex_set ?cr (clients st),
                 deliveries := mutex_set ?dl (deliveries st)\<rparr>"
  from inv have h: "healthy st" and r: "registry_inv (next_token st) (guarded (clients st))"
    and d: "delivery_inv (guarded (deliveries st))" and s: "in_step (guarded (clients st)) (guarded (deliveries st))"
    by (simp_all add: server_inv_def)
  have "delivery_inv ?dl" using d by (rule delivery_add_inv) (simp add: delivery_ok_def)
  moreover have "in_step ?cr ?dl" using s by (auto simp: in_step_def registry_add_def delivery_add_def)
  ultimately have "server_inv ?st'"
    using h registry_add_inv [OF r free] by (simp add: server_inv_def healthy_def)
  moreover have "register_client_with_status st a w dc rdy = (Ok (next_token st), ?st')"
    using h free by (simp add: register_client_with_status_def healthy_def Let_def)
  ultimately show ?thesis
    by (intro that [of ?st']) (simp_all add: same_rest_def registry_add_def delivery_add_def)
qed

lemma remove_spec:
  assumes inv: "server_inv st"
  obtains st' where
    "remove_client_if_current st a tok = (Ok (tok \<in> cs_token ` set (hm_or [] a (sessions st))), st')"
    "server_inv st'" "same_rest st st'" "next_token st' = next_token st"
    "\<And>b. hm_or [] b (sessions st') =
        (if b = a then filter (\<lambda>c. cs_token c \<noteq> tok) (hm_or [] a (sessions st)) else hm_or [] b (sessions st))"
    "\<And>b. hm_or [] b (outboxes st') =
        (if b = a then filter (\<lambda>d. cd_token d \<noteq> tok) (hm_or [] a (outboxes st)) else hm_or [] b (outboxes st))"
    "signals st' = signals st @
        List.map_filter cd_disconnect (filter (\<lambda>d. cd_token d = tok) (hm_or [] a (outboxes st)))"
proof -
  from inv have h: "healthy st" and r: "registry_inv (next_token st) (guarded (clients st))"
    and d: "delivery_inv (outboxes st)" and s: "in_step (guarded (clients st)) (outboxes st)"
    by (simp_all add: server_inv_def)
  from registry_remove_spec [OF r, of a tok] obtain cr where
    rm: "registry_remove a tok (guarded (clients st)) = (Ok (tok \<in> cs_token ` set (hm_or [] a (sessions st))), cr)"
    and cr: "registry_inv (next_token st) cr"
    and ss: "\<And>b. hm_or [] b (by_addr cr) =
        (if b = a then filter (\<lambda>c. cs_token c \<noteq> tok) (hm_or [] a (sessions st)) else hm_or [] b (sessions st))"
    by blast
  obtain dl sent where dr: "delivery_remove a tok (outboxes st) = (dl, sent)"
    by (cases "delivery_remove a tok (outboxes st)")
  note ds = delivery_remove_spec [OF d, where a = a and tok = tok, unfolded dr fst_conv snd_conv]
  have toks: "map cd_token (hm_or [] b (outboxes st)) = map cs_token (hm_or [] b (sessions st))" for b
    using s by (simp add: in_step_def)
  have step: "in_step cr dl"
    unfolding in_step_def ss ds(2) using toks filter_map_eq [OF toks] by simp
  show ?thesis
  proof (cases "tok \<in> cs_token ` set (hm_or [] a (sessions st))")
    case True
    let ?st' = "st\<lparr>clients := mutex_set cr (clients st), deliveries := mutex_set dl (deliveries st),
                   signals := signals st @ sent\<rparr>"
    show ?thesis
    proof (rule that [of ?st'])
      show "remove_client_if_current st a tok = (Ok (tok \<in> cs_token ` set (hm_or [] a (sessions st))), ?st')"
        using h rm True dr by (simp add: remove_client_if_current_def healthy_def Let_def)
      show "server_inv ?st'" using h cr ds(1) step by (simp add: server_inv_def healthy_def)
    qed (simp_all add: same_rest_def ss ds)
  next
    case False
    let ?st' = "st\<lparr>clients := mutex_set cr (clients st)\<rparr>"
    have "tok \<notin> cd_token ` set (hm_or [] a (outboxes st))"
      using False toks [of a] by (metis list.set_map)
    then have f: "filter (\<lambda>d. cd_token d \<noteq> tok) (hm_or [] a (outboxes st)) = hm_or [] a (outboxes st)"
      "filter (\<lambda>d. cd_token d = tok) (hm_or [] a (outboxes st)) = []"
      by (auto simp: filter_id_conv filter_empty_conv)
    have g: "filter (\<lambda>c. cs_token c \<noteq> tok) (hm_or [] a (sessions st)) = hm_or [] a (sessions st)"
      using False by (auto simp: filter_id_conv)
    have "in_step cr (outboxes st)"
      unfolding in_step_def ss g using toks by simp
    show ?thesis
    proof (rule that [of ?st'])
      show "remove_client_if_current st a tok = (Ok (tok \<in> cs_token ` set (hm_or [] a (sessions st))), ?st')"
        using h rm False by (simp add: remove_client_if_current_def healthy_def Let_def)
      show "server_inv ?st'" using h cr d \<open>in_step cr (outboxes st)\<close> by (simp add: server_inv_def healthy_def)
    qed (simp_all add: same_rest_def ss f List.map_filter_simps)
  qed
qed

lemma registry_inv_same_tokens:
  assumes inv: "registry_inv n cr" and es: "hm_get a (by_addr cr) = Some es"
    and toks: "map cs_token es' = map cs_token es"
  shows "registry_inv n (cr\<lparr>by_addr := hm_insert a es' (by_addr cr)\<rparr>)"
proof -
  note D = registry_invD [OF inv]
  have len: "length es' = length es" using toks by (rule map_eq_imp_length_eq)
  have same: "hm_sum f (hm_insert a es' (by_addr cr)) = hm_sum f (by_addr cr)"
    if "f a es' = f a es" for f :: "socket_addr \<Rightarrow> client_session list \<Rightarrow> nat"
    using hm_sum_insert_old [OF es, of f es'] that by simp
  have tset: "cs_token ` set es' = cs_token ` set es" using arg_cong [OF toks, of set] by simp
  have "(\<forall>c \<in> set es'. cs_token c < n) = (\<forall>t \<in> cs_token ` set es. t < n)" unfolding tset [symmetric] by simp
  then have new: "es' \<noteq> [] \<and> distinct (map cs_token es') \<and> (\<forall>c \<in> set es'. cs_token c < n)"
    using D(5) [OF es] toks len by auto
  have sess: "x \<noteq> [] \<and> distinct (map cs_token x) \<and> (\<forall>c \<in> set x. cs_token c < n)"
    if "hm_get b (hm_insert a es' (by_addr cr)) = Some x" for b x
    using that new D(5) [of b x] by (cases "b = a") auto
  have tot: "total cr = hm_sum (\<lambda>_. length) (hm_insert a es' (by_addr cr))"
    using same [of "\<lambda>_. length"] len D(3) by simp
  have ips: "hm_or 0 ip (per_ip cr) = hm_sum (at_ip ip) (hm_insert a es' (by_addr cr))" for ip
    using same [of "at_ip ip"] len D(4) [of ip] by (simp add: at_ip_def)
  have pos: "hm_get ip (per_ip cr) = Some c \<Longrightarrow> 0 < c" for ip c using inv by (simp add: registry_inv_def)
  have wf: "hm_wf (hm_insert a es' (by_addr cr))" using D(1) by simp
  define m' where "m' = hm_insert a es' (by_addr cr)"
  show ?thesis
    using wf tot ips sess D(2,6,7) pos unfolding registry_inv_def m'_def [symmetric] by auto
qed

lemma set_username_spec:
  assumes inv: "server_inv st"
  obtains st' where
    "set_client_username st a tok u =
       (if tok \<in> cs_token ` set (hm_or [] a (sessions st)) then Ok () else Err UnknownClient, st')"
    "server_inv st'" "same_rest st st'" "signals st' = signals st" "next_token st' = next_token st"
    "deliveries st' = deliveries st"
    "\<And>b. hm_or [] b (sessions st') =
        (if b = a then update_first (\<lambda>c. cs_token c = tok) (\<lambda>c. c\<lparr>cs_username := Some u\<rparr>) (hm_or [] a (sessions st))
         else hm_or [] b (sessions st))"
proof -
  from inv have h: "healthy st" and r: "registry_inv (next_token st) (guarded (clients st))"
    and d: "delivery_inv (outboxes st)" and s: "in_step (guarded (clients st)) (outboxes st)"
    by (simp_all add: server_inv_def)
  let ?P = "\<lambda>c. cs_token c = tok" and ?f = "\<lambda>c. c\<lparr>cs_username := Some u\<rparr>"
  show ?thesis
  proof (cases "tok \<in> cs_token ` set (hm_or [] a (sessions st))")
    case False
    then have "update_first ?P ?f (hm_or [] a (sessions st)) = hm_or [] a (sessions st)"
      by (intro update_first_none) auto
    moreover have "set_client_username st a tok u = (Err UnknownClient, st)"
      using h False by (auto simp: set_client_username_def healthy_def hm_or_def Let_def
          split: option.splits dest: find_Some_in)
    ultimately show ?thesis using inv False that [of st] by simp
  next
    case True
    then obtain es where es: "hm_get a (sessions st) = Some es" "tok \<in> cs_token ` set es"
      by (cases "hm_get a (sessions st)") (auto simp: hm_or_def)
    let ?es' = "update_first ?P ?f es" and ?cr = "guarded (clients st)"
    let ?st' = "st\<lparr>clients := mutex_set (?cr\<lparr>by_addr := hm_insert a ?es' (by_addr ?cr)\<rparr>) (clients st)\<rparr>"
    obtain c where c: "find ?P es = Some c" using es(2) by (cases "find ?P es") (auto simp: find_None_iff_all)
    have toks: "map cs_token ?es' = map cs_token es" by (rule map_update_first) simp
    have "registry_inv (next_token st) (?cr\<lparr>by_addr := hm_insert a ?es' (by_addr ?cr)\<rparr>)"
      using r es(1) toks by (rule registry_inv_same_tokens)
    moreover have "in_step (?cr\<lparr>by_addr := hm_insert a ?es' (by_addr ?cr)\<rparr>) (outboxes st)"
      using s es(1) toks by (auto simp: in_step_def hm_or_def)
    ultimately have "server_inv ?st'" using h d by (simp add: server_inv_def healthy_def)
    moreover have "set_client_username st a tok u = (Ok (), ?st')"
      using h es c by (simp add: set_client_username_def healthy_def Let_def)
    ultimately show ?thesis
      using True es by (intro that [of ?st']) (simp_all add: same_rest_def hm_or_def)
  qed
qed

subsection \<open>The specification: a set of clients\<close>

definition members :: "'w server_state \<Rightarrow> (socket_addr \<times> token) set" where
  "members st = {(a, t). t \<in> cs_token ` set (hm_or [] a (sessions st))}"

lemma card_pairs:
  assumes "hm_wf m" and "\<forall>(a, es) \<in> set m. distinct (map f es)"
  shows "finite {(a, t). P a \<and> t \<in> f ` set (hm_or [] a m)} \<and>
    card {(a, t). P a \<and> t \<in> f ` set (hm_or [] a m)} = hm_sum (\<lambda>a es. if P a then length es else 0) m"
  using assms
proof (induction m)
  case (Cons p m)
  obtain k v where p: "p = (k, v)" by (cases p)
  let ?S = "\<lambda>m. {(a, t). P a \<and> t \<in> f ` set (hm_or [] a m)}"
  let ?T = "if P k then {k} \<times> (f ` set v) else {}"
  have k: "hm_get k m = None" using Cons.prems(1) by (simp add: p hm_get_None)
  have split: "?S (p # m) = ?T \<union> ?S m" "?T \<inter> ?S m = {}"
    using k by (auto simp: p hm_or_Cons hm_or_None split: if_splits)
  have "card (f ` set v) = length v"
    using Cons.prems(2) distinct_card [of "map f v"] by (simp add: p)
  then have "card ?T = (if P k then length v else 0)" "finite ?T"
    by (simp_all add: card_cartesian_product_singleton)
  with Cons split show ?case by (simp add: p card_Un_disjoint)
qed (simp add: hm_or_def)

lemma registry_distinct: "registry_inv n cr \<Longrightarrow> \<forall>(a, es) \<in> set (by_addr cr). distinct (map cs_token es)"
  by (auto simp: registry_inv_def hm_get_eq_Some)

lemma members_card:
  assumes "server_inv st"
  shows "finite (members st)" "card (members st) = total (guarded (clients st))"
    "card {(a, t) \<in> members st. addr_ip a = ip} = hm_or 0 ip (per_ip (guarded (clients st)))"
proof -
  from assms have r: "registry_inv (next_token st) (guarded (clients st))" by (simp add: server_inv_def)
  note D = registry_invD [OF r] and card = card_pairs [OF registry_invD(1) [OF r] registry_distinct [OF r]]
  show "finite (members st)" "card (members st) = total (guarded (clients st))"
    using card [of "\<lambda>_. True"] by (simp_all add: members_def D(3))
  have "{(a, t) \<in> members st. addr_ip a = ip} =
      {(a, t). addr_ip a = ip \<and> t \<in> cs_token ` set (hm_or [] a (sessions st))}"
    by (auto simp: members_def)
  then show "card {(a, t) \<in> members st. addr_ip a = ip} = hm_or 0 ip (per_ip (guarded (clients st)))"
    using card [of "\<lambda>a. addr_ip a = ip"] by (simp add: D(4) at_ip_def [abs_def])
qed

lemma members_fresh: "server_inv st \<Longrightarrow> (a, t) \<in> members st \<Longrightarrow> t < next_token st"
  by (cases "hm_get a (sessions st)") (auto simp: server_inv_def registry_inv_def members_def hm_or_def)

subsection \<open>A small state to evaluate on\<close>

definition localhost :: socket_addr where
  "localhost = SocketV4 0x7F000001 5000"

definition no_clients :: "bounded_chan server_state" where
  "no_clients = new_shared_state (\<lambda>_. bounded_new OUTBOUND_QUEUE_SIZE)"

definition one_client :: "bounded_chan server_state" where
  "one_client = snd (register_pending_client no_clients localhost 0 0)"

lemma no_clients_simps:
  "server_inv no_clients" "sessions no_clients = []" "outboxes no_clients = []" "next_token no_clients = 0"
  "\<not> limit_reached (guarded (clients no_clients)) ip" "members no_clients = {}" "signals no_clients = []"
  by (simp_all add: no_clients_def new_shared_state_inv)
     (simp_all add: new_shared_state_def registry_new_def new_registry_def hm_empty_def limit_reached_def limits
       hm_or_def members_def)

lemma one_client_run: "register_pending_client no_clients localhost 0 0 = (Ok 0, one_client)"
  by (simp add: one_client_def register_pending_client_def register_client_with_status_def no_clients_simps Let_def)
     (simp add: no_clients_def new_shared_state_def new_registry_def)

lemma one_client_simps:
  "server_inv one_client"
  "sessions one_client = [(localhost, [\<lparr>cs_token = 0, cs_username = None\<rparr>])]"
  "outboxes one_client = [(localhost, [\<lparr>cd_addr = localhost, cd_token = 0, cd_writer = 0, cd_disconnect = Some 0,
     cd_ready = False, cd_pending = []\<rparr>])]"
  "next_token one_client = 1" "members one_client = {(localhost, 0)}" "signals one_client = []"
proof -
  have ps: "poisoned (clients no_clients) = False" "poisoned (deliveries no_clients) = False"
    using no_clients_simps(1) by (simp_all add: server_inv_def healthy_def)
  have e: "one_client = no_clients
      \<lparr>next_token := 1,
       clients := mutex_set (registry_add localhost 0 (guarded (clients no_clients))) (clients no_clients),
       deliveries := mutex_set (delivery_add \<lparr>cd_addr = localhost, cd_token = 0, cd_writer = 0, cd_disconnect = Some 0,
         cd_ready = False, cd_pending = []\<rparr> (outboxes no_clients)) (deliveries no_clients)\<rparr>"
    by (simp add: one_client_def register_pending_client_def register_client_with_status_def no_clients_simps ps Let_def)
  show "sessions one_client = [(localhost, [\<lparr>cs_token = 0, cs_username = None\<rparr>])]"
    by (simp add: e registry_add_def no_clients_simps hm_or_def)
  then show "members one_client = {(localhost, 0)}" by (auto simp: members_def hm_or_def split: if_splits)
  show "outboxes one_client = [(localhost, [\<lparr>cd_addr = localhost, cd_token = 0, cd_writer = 0, cd_disconnect = Some 0,
     cd_ready = False, cd_pending = []\<rparr>])]"
    by (simp add: e delivery_add_def no_clients_simps hm_or_def)
  show "next_token one_client = 1" "signals one_client = []" by (simp_all add: e no_clients_simps)
  obtain st' where "register_client_with_status no_clients localhost 0 (Some 0) False = (Ok (next_token no_clients), st')"
    "server_inv st'"
    by (rule register_spec [OF no_clients_simps(1,5), of localhost 0 "Some 0" False], rule that)
  then show "server_inv one_client" by (simp add: one_client_def register_pending_client_def)
qed

subsection \<open>Properties\<close>

text \<open>
  C14. Registering a client either adds exactly one new member under a token never used before,
  or, when a limit is reached, refuses and changes nothing. It keeps every registry invariant
  and never panics.
\<close>

theorem register_adds_member:
  assumes "server_inv st"
  shows "\<exists>st'. register_pending_client st a w dc =
      (if limit_reached (guarded (clients st)) (addr_ip a) then Err ConnectionLimitReached else Ok (next_token st), st') \<and>
    server_inv st' \<and> (a, next_token st) \<notin> members st \<and>
    (if limit_reached (guarded (clients st)) (addr_ip a) then st' = st
     else members st' = insert (a, next_token st) (members st) \<and> next_token st' = Suc (next_token st))"
proof (cases "limit_reached (guarded (clients st)) (addr_ip a)")
  case True
  have "\<not> poisoned (clients st)" using assms by (simp add: server_inv_def healthy_def)
  with True assms members_fresh [OF assms] show ?thesis
    by (auto simp: register_pending_client_def register_client_with_status_def)
next
  case False
  obtain st' where r: "register_client_with_status st a w (Some dc) False = (Ok (next_token st), st')" "server_inv st'"
    "next_token st' = Suc (next_token st)"
    "\<And>b. hm_or [] b (sessions st') = hm_or [] b (sessions st) @
        (if b = a then [\<lparr>cs_token = next_token st, cs_username = None\<rparr>] else [])"
    by (rule register_spec [OF assms False, of w "Some dc" False], rule that)
  have "members st' = insert (a, next_token st) (members st)"
    by (auto simp: members_def r(4) split: if_splits)
  with False r members_fresh [OF assms] show ?thesis by (auto simp: register_pending_client_def)
qed

theorem register_adds_member_witness:
  "\<exists>st'. register_pending_client one_client localhost 1 1 = (Ok 1, st') \<and> members st' = {(localhost, 1), (localhost, 0)}"
proof -
  have "card {(a, t) \<in> members one_client. addr_ip a = addr_ip localhost} \<le> card {(localhost, 0 :: token)}"
    by (rule card_mono) (auto simp: one_client_simps)
  then have "\<not> limit_reached (guarded (clients one_client)) (addr_ip localhost)"
    using members_card(2,3) [OF one_client_simps(1)] by (simp add: one_client_simps limit_reached_def limits)
  then show ?thesis
    using register_adds_member [OF one_client_simps(1), of localhost 1 1] by (auto simp: one_client_simps)
qed

text \<open>
  C15. Removing a client says truthfully whether it was there, takes away that member and no
  other, signals its session to disconnect, and keeps every registry invariant; in particular
  the counters do not underflow and the lookup of the address counter does not panic.
\<close>

theorem remove_takes_member:
  assumes "server_inv st"
  shows "\<exists>st'. remove_client_if_current st a tok = (Ok ((a, tok) \<in> members st), st') \<and> server_inv st' \<and>
    members st' = members st - {(a, tok)} \<and> next_token st' = next_token st \<and>
    (\<forall>d \<in> set (hm_or [] a (outboxes st)). \<forall>s. cd_token d = tok \<and> cd_disconnect d = Some s \<longrightarrow> s \<in> set (signals st')) \<and>
    (\<forall>b. hm_or [] b (outboxes st') = filter (\<lambda>d. (b, cd_token d) \<noteq> (a, tok)) (hm_or [] b (outboxes st)))"
proof -
  obtain st' where r: "remove_client_if_current st a tok = (Ok (tok \<in> cs_token ` set (hm_or [] a (sessions st))), st')"
    "server_inv st'" "next_token st' = next_token st"
    and s: "\<And>b. hm_or [] b (sessions st') =
        (if b = a then filter (\<lambda>c. cs_token c \<noteq> tok) (hm_or [] a (sessions st)) else hm_or [] b (sessions st))"
    and o: "\<And>b. hm_or [] b (outboxes st') =
        (if b = a then filter (\<lambda>d. cd_token d \<noteq> tok) (hm_or [] a (outboxes st)) else hm_or [] b (outboxes st))"
    and g: "signals st' = signals st @
        List.map_filter cd_disconnect (filter (\<lambda>d. cd_token d = tok) (hm_or [] a (outboxes st)))"
    by (rule remove_spec [OF assms, of a tok], rule that)
  have "members st' = members st - {(a, tok)}" by (auto simp: members_def s split: if_splits)
  moreover have "hm_or [] b (outboxes st') = filter (\<lambda>d. (b, cd_token d) \<noteq> (a, tok)) (hm_or [] b (outboxes st))" for b
    by (simp add: o)
  ultimately show ?thesis using r by (auto simp: g set_map_filter members_def)
qed

theorem remove_takes_member_witness:
  "\<exists>st'. remove_client_if_current one_client localhost 0 = (Ok True, st') \<and> members st' = {} \<and> 0 \<in> set (signals st')"
  using remove_takes_member [OF one_client_simps(1), of localhost 0]
  by (auto simp: one_client_simps hm_or_def)

text \<open>
  The counters are the cardinalities they stand for and stay within the limits: the total
  is the number of members, each address counter the number of members with that IP address.
\<close>

lemma counters_count_members:
  assumes "server_inv st"
  shows "finite (members st) \<and> total (guarded (clients st)) = card (members st) \<and>
    card (members st) \<le> MAX_CONNECTIONS \<and>
    hm_or 0 ip (per_ip (guarded (clients st))) = card {(a, t) \<in> members st. addr_ip a = ip} \<and>
    card {(a, t) \<in> members st. addr_ip a = ip} \<le> MAX_CONNECTIONS_PER_IP"
proof -
  have r: "registry_inv (next_token st) (guarded (clients st))" using assms by (simp add: server_inv_def)
  show ?thesis
    using members_card(1,2) [OF assms] members_card(3) [OF assms, of ip] registry_invD(6) [OF r] registry_invD(7) [OF r, of ip] by simp
qed

text \<open>
  Naming a client succeeds exactly when it is registered, changes the name of that client
  only, and leaves the delivery side alone.
\<close>

lemma set_username_names_client:
  assumes "server_inv st"
  shows "\<exists>st'. set_client_username st a tok u =
      (if (a, tok) \<in> members st then Ok () else Err UnknownClient, st') \<and>
    server_inv st' \<and> members st' = members st \<and> deliveries st' = deliveries st \<and>
    (\<forall>b c. c \<in> set (hm_or [] b (sessions st')) \<longrightarrow>
       c \<in> set (hm_or [] b (sessions st)) \<or> (b = a \<and> c = \<lparr>cs_token = tok, cs_username = Some u\<rparr>))"
proof -
  obtain st' where r: "set_client_username st a tok u =
       (if tok \<in> cs_token ` set (hm_or [] a (sessions st)) then Ok () else Err UnknownClient, st')"
    "server_inv st'" "deliveries st' = deliveries st"
    and s: "\<And>b. hm_or [] b (sessions st') =
        (if b = a then update_first (\<lambda>c. cs_token c = tok) (\<lambda>c. c\<lparr>cs_username := Some u\<rparr>) (hm_or [] a (sessions st))
         else hm_or [] b (sessions st))"
    by (rule set_username_spec [OF assms, of a tok u], rule that)
  have "map cs_token (hm_or [] b (sessions st')) = map cs_token (hm_or [] b (sessions st))" for b
    by (simp add: s map_update_first)
  then have toks: "cs_token ` set (hm_or [] b (sessions st')) = cs_token ` set (hm_or [] b (sessions st))" for b
    by (metis set_map)
  have "members st' = members st" unfolding members_def toks ..
  moreover have "c \<in> set (hm_or [] b (sessions st)) \<or> (b = a \<and> c = \<lparr>cs_token = tok, cs_username = Some u\<rparr>)"
    if "c \<in> set (hm_or [] b (sessions st'))" for b c
    using that unfolding s by (auto split: if_splits dest!: set_update_first)
  ultimately show ?thesis using r by (auto simp: members_def)
qed

end
