(* ===== verification/History.thy ===== *)
theory History
  imports Server_Types
begin

section \<open>Message history\<close>

text \<open>
  \<^verbatim>\<open>MessageHistory\<close> of \<^verbatim>\<open>state.rs\<close>: a bounded queue of the last recorded lines. Its specification
  is the list of everything recorded so far, of which the history is the last \<open>limit\<close> lines.
\<close>

definition history_record :: "ustr \<Rightarrow> message_history \<Rightarrow> message_history" where
  "history_record message h =
     (let pushed = entries h @ [trim_end_matches 0x0A message] in
      h\<lparr>entries := (if length pushed > limit h then tl pushed else pushed)\<rparr>)"

definition snapshot :: "message_history \<Rightarrow> ustr list" where
  "snapshot h = entries h"

definition history_ok :: "message_history \<Rightarrow> bool" where
  "history_ok h \<longleftrightarrow> length (entries h) \<le> limit h"

lemma history_record_limit [simp]: "limit (history_record m h) = limit h"
  by (simp add: history_record_def Let_def)

lemma history_record_ok: "history_ok h \<Longrightarrow> history_ok (history_record m h)"
  by (auto simp: history_ok_def history_record_def Let_def)

lemma history_new_ok: "history_ok (history_new n)"
  by (simp add: history_ok_def history_new_def)

lemma history_fold_ok: "history_ok h \<Longrightarrow> history_ok (fold history_record ms h)"
  by (induction ms arbitrary: h) (auto simp: history_record_ok)

lemma history_record_entries:
  assumes "entries h = drop (length ms - limit h) ms"
  shows "entries (history_record m h) =
           drop (length (ms @ [trim_end_matches 0x0A m]) - limit h) (ms @ [trim_end_matches 0x0A m])"
proof (cases "length ms < limit h")
  case True
  with assms show ?thesis by (simp add: history_record_def Let_def)
next
  case False
  let ?x = "trim_end_matches 0x0A m" and ?d = "length ms - limit h"
  have "entries (history_record m h) = tl (drop ?d ms @ [?x])"
    using assms False by (simp add: history_record_def Let_def)
  also have "\<dots> = drop (Suc ?d) (ms @ [?x])"
    using False by (cases "limit h = 0") (simp_all add: drop_Suc tl_drop [symmetric] tl_append split: list.splits)
  finally show ?thesis using False by (simp add: Suc_diff_le)
qed

text \<open>The queue after any number of records is a suffix of the recorded lines.\<close>

lemma history_fold_entries:
  "entries h = drop (length ls - limit h) ls \<Longrightarrow>
     entries (fold history_record ms h) =
       (let all = ls @ map (trim_end_matches 0x0A) ms in drop (length all - limit h) all)"
proof (induction ms arbitrary: h ls)
  case (Cons m ms)
  have "entries (history_record m h) =
      drop (length (ls @ [trim_end_matches 0x0A m]) - limit (history_record m h)) (ls @ [trim_end_matches 0x0A m])"
    using history_record_entries [OF Cons.prems] by simp
  from Cons.IH [OF this] show ?case by simp
qed simp

subsection \<open>Properties\<close>

text \<open>
  Starting from an empty history, what is kept after any number of messages is exactly the
  last \<open>n\<close> of them, in order and without their trailing line ends, where \<open>n\<close> is the limit (or
  all of them when there are fewer).
\<close>

lemma history_keeps_last:
  "snapshot (fold history_record ms (history_new n)) =
     drop (length ms - n) (map (trim_end_matches 0x0A) ms) \<and>
   length (snapshot (fold history_record ms (history_new n))) = min n (length ms)"
proof -
  have "limit (fold history_record ms h) = limit h" for h by (induction ms arbitrary: h) auto
  then have "entries (fold history_record ms (history_new n)) =
      drop (length ms - n) (map (trim_end_matches 0x0A) ms)"
    using history_fold_entries [of "history_new n" "[]" ms] by (simp add: history_new_def Let_def)
  then show ?thesis by (simp add: snapshot_def min_def)
qed

end
