(* ===== verification/Delivery.thy ===== *)
theory Delivery
  imports Registry History
begin

section \<open>Delivery and broadcast\<close>

text \<open>
  The rest of \<^verbatim>\<open>state.rs\<close>: \<^verbatim>\<open>mark_client_ready\<close>, the history replay, \<^verbatim>\<open>broadcast\<close>,
  \<^verbatim>\<open>record_and_broadcast\<close>, \<^verbatim>\<open>prune_overloaded_clients\<close> and \<^verbatim>\<open>broadcast_presence\<close>. A broadcast visits
  the delivery entries in the iteration order of the map and the order of each address's
  vector, sends on the channels or queues for clients that are not ready, and then removes
  every client it could not serve. The lemmas turn this into a statement per client that does
  not mention the order, provided that no two clients share a channel.
\<close>

text \<open>Iteration orders of the two maps keyed by address.\<close>

record map_orders =
  clients_order :: "socket_addr list \<Rightarrow> socket_addr list"
  deliveries_order :: "socket_addr list \<Rightarrow> socket_addr list"

definition orders_ok :: "map_orders \<Rightarrow> bool" where
  "orders_ok it \<longleftrightarrow> iteration (clients_order it) \<and> iteration (deliveries_order it)"

subsection \<open>Finding and changing one client's entry\<close>

definition find_client :: "socket_addr \<Rightarrow> token \<Rightarrow> delivery_registry \<Rightarrow> client_delivery option" where
  "find_client a tok dl =
     (case hm_get a dl of None \<Rightarrow> None | Some ds \<Rightarrow> find (\<lambda>d. cd_token d = tok) ds)"

definition update_client ::
  "socket_addr \<Rightarrow> token \<Rightarrow> (client_delivery \<Rightarrow> client_delivery) \<Rightarrow> delivery_registry \<Rightarrow> delivery_registry"
where
  "update_client a tok f dl =
     (case hm_get a dl of
        None \<Rightarrow> dl
      | Some ds \<Rightarrow> hm_insert a (update_first (\<lambda>d. cd_token d = tok) f ds) dl)"

subsection \<open>Becoming ready\<close>

text \<open>The loop of \<^verbatim>\<open>mark_client_ready\<close>: send until one is refused; the refused message and those
  after it are handed back.\<close>

fun flush_pending :: "'w chan_ops \<Rightarrow> 'w \<Rightarrow> bytes list \<Rightarrow> send_status \<times> 'w \<times> bytes list" where
  "flush_pending ops w [] = (Sent, w, [])"
| "flush_pending ops w (m # ms) =
     (case try_send ops w m of
        (Sent, w') \<Rightarrow> flush_pending ops w' ms
      | (status, w') \<Rightarrow> (status, w', m # ms))"

definition mark_client_ready ::
  "'w chan_ops \<Rightarrow> 'w server_state \<Rightarrow> socket_addr \<Rightarrow> token \<Rightarrow> (unit, server_error) result \<times> 'w server_state"
where
  "mark_client_ready ops st a tok =
     (if poisoned (deliveries st) then (Err ClientStatePoisoned, st)
      else
        (case find_client a tok (outboxes st) of
           None \<Rightarrow> (Err UnknownClient, st)
         | Some client \<Rightarrow>
             let (status, w, remaining) = flush_pending ops (channels st (cd_writer client)) (cd_pending client);
                 put = (\<lambda>f. st\<lparr>deliveries := mutex_set (update_client a tok f (outboxes st)) (deliveries st),
                               channels := (channels st)(cd_writer client := w)\<rparr>)
             in (case status of
                   Sent \<Rightarrow> (Ok (), put (\<lambda>d. d\<lparr>cd_pending := [], cd_ready := True\<rparr>))
                 | Full \<Rightarrow> (Err OutboundQueueFull, put (\<lambda>d. d\<lparr>cd_pending := remaining\<rparr>))
                 | Closed \<Rightarrow> (Err OutboundWriterGone, put (\<lambda>d. d\<lparr>cd_pending := remaining\<rparr>)))))"

subsection \<open>History replay\<close>

definition history_snapshot_unlocked ::
  "'w server_state \<Rightarrow> socket_addr \<Rightarrow> token \<Rightarrow> (chan_id \<times> ustr list, server_error) result \<times> 'w server_state"
where
  "history_snapshot_unlocked st a tok =
     (if poisoned (deliveries st) then (Err ClientStatePoisoned, st)
      else
        (case find_client a tok (outboxes st) of
           None \<Rightarrow> (Err UnknownClient, st)
         | Some client \<Rightarrow>
             if poisoned (history st) then (Err ClientStatePoisoned, st)
             else (Ok (cd_writer client, snapshot (guarded (history st))), st)))"

text \<open>A panic under the replay barrier poisons it.\<close>

fun under_barrier :: "('a, server_error) result \<times> 'w server_state \<Rightarrow> ('a, server_error) result \<times> 'w server_state" where
  "under_barrier (Panic, st) = (Panic, st\<lparr>replay_barrier := poison (replay_barrier st)\<rparr>)"
| "under_barrier (r, st) = (r, st)"

definition with_history_replay ::
  "'w server_state \<Rightarrow> socket_addr \<Rightarrow> token \<Rightarrow>
     (chan_id \<Rightarrow> ustr list \<Rightarrow> 'w server_state \<Rightarrow> (unit, server_error) result \<times> 'w server_state) \<Rightarrow>
     (unit, server_error) result \<times> 'w server_state"
where
  "with_history_replay st a tok replay =
     (if poisoned (replay_barrier st) then (Err ClientStatePoisoned, st)
      else under_barrier
        (seq (history_snapshot_unlocked st a tok) (\<lambda>(writer, hist) st. replay writer hist st)))"

subsection \<open>Broadcast\<close>

datatype doom_reason = QueueIsFull | WriterIsGone | PendingIsFull

type_synonym doomed = "(socket_addr \<times> token \<times> doom_reason) list"

definition broadcast_client ::
  "'w chan_ops \<Rightarrow> bytes \<Rightarrow> socket_addr option \<Rightarrow> client_delivery \<Rightarrow> (chan_id \<Rightarrow> 'w) \<Rightarrow>
     client_delivery \<times> (chan_id \<Rightarrow> 'w) \<times> doomed"
where
  "broadcast_client ops message exclude d chans =
     (if exclude = Some (cd_addr d) then (d, chans, [])
      else if cd_ready d then
        (case try_send ops (chans (cd_writer d)) message of
           (Sent, w) \<Rightarrow> (d, chans(cd_writer d := w), [])
         | (Full, w) \<Rightarrow> (d, chans(cd_writer d := w), [(cd_addr d, cd_token d, QueueIsFull)])
         | (Closed, w) \<Rightarrow> (d, chans(cd_writer d := w), [(cd_addr d, cd_token d, WriterIsGone)]))
      else if length (cd_pending d) \<ge> PENDING_MESSAGES_LIMIT then
        (d, chans, [(cd_addr d, cd_token d, PendingIsFull)])
      else (d\<lparr>cd_pending := cd_pending d @ [message]\<rparr>, chans, []))"

fun broadcast_vec ::
  "'w chan_ops \<Rightarrow> bytes \<Rightarrow> socket_addr option \<Rightarrow> client_delivery list \<Rightarrow> (chan_id \<Rightarrow> 'w) \<Rightarrow>
     client_delivery list \<times> (chan_id \<Rightarrow> 'w) \<times> doomed"
where
  "broadcast_vec ops message exclude [] chans = ([], chans, [])"
| "broadcast_vec ops message exclude (d # ds) chans =
     (let (d', chans', dm) = broadcast_client ops message exclude d chans;
          (ds', chans'', dm') = broadcast_vec ops message exclude ds chans'
      in (d' # ds', chans'', dm @ dm'))"

fun broadcast_keys ::
  "'w chan_ops \<Rightarrow> bytes \<Rightarrow> socket_addr option \<Rightarrow> socket_addr list \<Rightarrow> delivery_registry \<Rightarrow> (chan_id \<Rightarrow> 'w) \<Rightarrow>
     delivery_registry \<times> (chan_id \<Rightarrow> 'w) \<times> doomed"
where
  "broadcast_keys ops message exclude [] dl chans = (dl, chans, [])"
| "broadcast_keys ops message exclude (k # ks) dl chans =
     (case hm_get k dl of
        None \<Rightarrow> broadcast_keys ops message exclude ks dl chans
      | Some ds \<Rightarrow>
          let (ds', chans', dm) = broadcast_vec ops message exclude ds chans;
              (dl'', chans'', dm') = broadcast_keys ops message exclude ks (hm_insert k ds' dl) chans'
          in (dl'', chans'', dm @ dm'))"

fun drop_doomed ::
  "'w server_state \<Rightarrow> (socket_addr \<times> token) list \<Rightarrow> (unit, server_error) result \<times> 'w server_state"
where
  "drop_doomed st [] = (Ok (), st)"
| "drop_doomed st ((a, tok) # ds) = seq (remove_client_if_current st a tok) (\<lambda>_ st. drop_doomed st ds)"

definition broadcast ::
  "'w chan_ops \<Rightarrow> map_orders \<Rightarrow> 'w server_state \<Rightarrow> bytes \<Rightarrow> socket_addr option \<Rightarrow>
     (bool, server_error) result \<times> 'w server_state"
where
  "broadcast ops it st message exclude =
     (if poisoned (deliveries st) then (Err ClientStatePoisoned, st)
      else
        let (dl, chans, doomed) =
              broadcast_keys ops message exclude (deliveries_order it (hm_keys (outboxes st))) (outboxes st) (channels st);
            st = st\<lparr>deliveries := mutex_set dl (deliveries st), channels := chans\<rparr>
        in seq (drop_doomed st (map (\<lambda>(a, t, _). (a, t)) doomed)) (\<lambda>_ st. (Ok (doomed \<noteq> []), st)))"

definition record_and_broadcast ::
  "'w chan_ops \<Rightarrow> map_orders \<Rightarrow> 'w server_state \<Rightarrow> ustr \<Rightarrow> bytes \<Rightarrow> socket_addr option \<Rightarrow>
     (bool, server_error) result \<times> 'w server_state"
where
  "record_and_broadcast ops it st message frame exclude =
     (if poisoned (replay_barrier st) then (Err ClientStatePoisoned, st)
      else if poisoned (history st) then (Err ClientStatePoisoned, st)
      else under_barrier
        (broadcast ops it
           (st\<lparr>history := mutex_set (history_record message (guarded (history st))) (history st)\<rparr>)
           frame exclude))"

subsection \<open>Presence\<close>

definition is_overloaded :: "'w chan_ops \<Rightarrow> (chan_id \<Rightarrow> 'w) \<Rightarrow> client_delivery \<Rightarrow> bool" where
  "is_overloaded ops chans d =
     (if cd_ready d then is_closed ops (chans (cd_writer d))
      else length (cd_pending d) \<ge> PENDING_MESSAGES_LIMIT)"

definition prune_overloaded_clients ::
  "'w chan_ops \<Rightarrow> map_orders \<Rightarrow> 'w server_state \<Rightarrow> (unit, server_error) result \<times> 'w server_state"
where
  "prune_overloaded_clients ops it st =
     (if poisoned (deliveries st) then (Err ClientStatePoisoned, st)
      else drop_doomed st
        (map (\<lambda>d. (cd_addr d, cd_token d))
           (filter (is_overloaded ops (channels st)) (concat (hm_values (deliveries_order it) (outboxes st))))))"

definition broadcast_presence ::
  "'w chan_ops \<Rightarrow> map_orders \<Rightarrow> 'w server_state \<Rightarrow> (unit, server_error) result \<times> 'w server_state"
where
  "broadcast_presence ops it st =
     seq (prune_overloaded_clients ops it st) (\<lambda>_ st.
       seq (usernames (clients_order it) st) (\<lambda>users st.
         case encode_presence users of
           Ok frame \<Rightarrow> seq (broadcast ops it st frame None) (\<lambda>_ st. (Ok (), st))
         | Err _ \<Rightarrow> (Err PresenceEncodingFailed, st)
         | Panic \<Rightarrow> (Panic, st)))"

subsection \<open>Removing a list of clients\<close>

lemma drop_doomed_spec:
  "server_inv st \<Longrightarrow>
   \<exists>st'. drop_doomed st ds = (Ok (), st') \<and> server_inv st' \<and> same_rest st st' \<and>
     next_token st' = next_token st \<and>
     (\<forall>b. hm_or [] b (sessions st') = filter (\<lambda>c. (b, cs_token c) \<notin> set ds) (hm_or [] b (sessions st))) \<and>
     (\<forall>b. hm_or [] b (outboxes st') = filter (\<lambda>d. (b, cd_token d) \<notin> set ds) (hm_or [] b (outboxes st))) \<and>
     set (signals st') = set (signals st) \<union>
       {w. \<exists>b d. d \<in> set (hm_or [] b (outboxes st)) \<and> (b, cd_token d) \<in> set ds \<and> cd_disconnect d = Some w}"
proof (induction ds arbitrary: st)
  case Nil
  then show ?case by simp
next
  case (Cons p ds)
  obtain a tok where p: "p = (a, tok)" by (cases p)
  from remove_spec [OF Cons.prems, of a tok] obtain st1 where
    r: "remove_client_if_current st a tok = (Ok (tok \<in> cs_token ` set (hm_or [] a (sessions st))), st1)"
    and i: "server_inv st1" "same_rest st st1" "next_token st1 = next_token st"
    and s: "\<And>b. hm_or [] b (sessions st1) =
        (if b = a then filter (\<lambda>c. cs_token c \<noteq> tok) (hm_or [] a (sessions st)) else hm_or [] b (sessions st))"
    and d: "\<And>b. hm_or [] b (outboxes st1) =
        (if b = a then filter (\<lambda>d. cd_token d \<noteq> tok) (hm_or [] a (outboxes st)) else hm_or [] b (outboxes st))"
    and g: "signals st1 = signals st @
        List.map_filter cd_disconnect (filter (\<lambda>d. cd_token d = tok) (hm_or [] a (outboxes st)))"
    by blast
  from Cons.IH [OF i(1)] obtain st' where
    IH: "drop_doomed st1 ds = (Ok (), st')" "server_inv st'" "same_rest st1 st'" "next_token st' = next_token st1"
    "\<forall>b. hm_or [] b (sessions st') = filter (\<lambda>c. (b, cs_token c) \<notin> set ds) (hm_or [] b (sessions st1))"
    "\<forall>b. hm_or [] b (outboxes st') = filter (\<lambda>d. (b, cd_token d) \<notin> set ds) (hm_or [] b (outboxes st1))"
    "set (signals st') = set (signals st1) \<union>
       {w. \<exists>b d. d \<in> set (hm_or [] b (outboxes st1)) \<and> (b, cd_token d) \<in> set ds \<and> cd_disconnect d = Some w}"
    by blast
  have ss: "hm_or [] b (sessions st') = filter (\<lambda>c. (b, cs_token c) \<notin> set (p # ds)) (hm_or [] b (sessions st))" for b
    using IH(5) s [of b] by (auto simp: p conj_commute intro!: filter_cong)
  have dd: "hm_or [] b (outboxes st') = filter (\<lambda>d. (b, cd_token d) \<notin> set (p # ds)) (hm_or [] b (outboxes st))" for b
    using IH(6) d [of b] by (auto simp: p conj_commute intro!: filter_cong)
  have gg: "set (signals st') = set (signals st) \<union>
      {w. \<exists>b d. d \<in> set (hm_or [] b (outboxes st)) \<and> (b, cd_token d) \<in> set (p # ds) \<and> cd_disconnect d = Some w}"
    unfolding IH(7) g p
    by (auto simp: d set_map_filter split: if_splits) metis
  show ?case
    using r IH(1-4) i ss dd gg by (auto simp: p intro: same_rest_trans)
qed

subsection \<open>The effect of a broadcast, client by client\<close>

definition is_target :: "socket_addr option \<Rightarrow> client_delivery \<Rightarrow> bool" where
  "is_target exclude d \<longleftrightarrow> exclude \<noteq> Some (cd_addr d)"

definition after_broadcast :: "bytes \<Rightarrow> socket_addr option \<Rightarrow> client_delivery \<Rightarrow> client_delivery" where
  "after_broadcast message exclude d =
     (if is_target exclude d \<and> \<not> cd_ready d \<and> length (cd_pending d) < PENDING_MESSAGES_LIMIT
      then d\<lparr>cd_pending := cd_pending d @ [message]\<rparr> else d)"

definition cannot_serve ::
  "'w chan_ops \<Rightarrow> (chan_id \<Rightarrow> 'w) \<Rightarrow> bytes \<Rightarrow> socket_addr option \<Rightarrow> client_delivery \<Rightarrow> bool"
where
  "cannot_serve ops chans message exclude d \<longleftrightarrow>
     is_target exclude d \<and>
     (if cd_ready d then fst (try_send ops (chans (cd_writer d)) message) \<noteq> Sent
      else length (cd_pending d) \<ge> PENDING_MESSAGES_LIMIT)"

definition sent_channels ::
  "'w chan_ops \<Rightarrow> bytes \<Rightarrow> socket_addr option \<Rightarrow> client_delivery list \<Rightarrow> (chan_id \<Rightarrow> 'w) \<Rightarrow> chan_id \<Rightarrow> 'w"
where
  "sent_channels ops message exclude ds chans =
     (\<lambda>w. if \<exists>d \<in> set ds. is_target exclude d \<and> cd_ready d \<and> cd_writer d = w
          then snd (try_send ops (chans w) message) else chans w)"

lemma after_broadcast_sel [simp]:
  "cd_addr (after_broadcast m ex d) = cd_addr d" "cd_token (after_broadcast m ex d) = cd_token d"
  "cd_writer (after_broadcast m ex d) = cd_writer d" "cd_disconnect (after_broadcast m ex d) = cd_disconnect d"
  "cd_ready (after_broadcast m ex d) = cd_ready d"
  by (simp_all add: after_broadcast_def)

lemma after_broadcast_ok: "delivery_ok a d \<Longrightarrow> delivery_ok a (after_broadcast m ex d)"
  by (auto simp: delivery_ok_def after_broadcast_def)

lemma broadcast_client_spec:
  "\<exists>dm. broadcast_client ops m ex d chans = (after_broadcast m ex d, sent_channels ops m ex [d] chans, dm) \<and>
     map (\<lambda>(a, t, _). (a, t)) dm = (if cannot_serve ops chans m ex d then [(cd_addr d, cd_token d)] else [])"
  by (auto simp: broadcast_client_def after_broadcast_def sent_channels_def cannot_serve_def is_target_def
      fun_eq_iff split: send_status.splits prod.splits)

text \<open>With a channel each, what one client's send finds does not depend on the others.\<close>

lemma broadcast_vec_spec:
  "distinct (map cd_writer ds) \<Longrightarrow>
   \<exists>dm. broadcast_vec ops m ex ds chans = (map (after_broadcast m ex) ds, sent_channels ops m ex ds chans, dm) \<and>
     map (\<lambda>(a, t, _). (a, t)) dm =
       map (\<lambda>d. (cd_addr d, cd_token d)) (filter (cannot_serve ops chans m ex) ds)"
proof (induction ds arbitrary: chans)
  case Nil
  then show ?case by (simp add: sent_channels_def)
next
  case (Cons d ds)
  let ?chans = "sent_channels ops m ex [d] chans"
  from broadcast_client_spec [of ops m ex d chans] obtain dm where
    d: "broadcast_client ops m ex d chans = (after_broadcast m ex d, ?chans, dm)"
      "map (\<lambda>(a, t, _). (a, t)) dm = (if cannot_serve ops chans m ex d then [(cd_addr d, cd_token d)] else [])"
    by blast
  from Cons.IH [of ?chans] Cons.prems obtain dm' where
    ds: "broadcast_vec ops m ex ds ?chans =
        (map (after_broadcast m ex) ds, sent_channels ops m ex ds ?chans, dm')"
      "map (\<lambda>(a, t, _). (a, t)) dm' = map (\<lambda>d. (cd_addr d, cd_token d)) (filter (cannot_serve ops ?chans m ex) ds)"
    by auto
  have other: "cd_writer e \<noteq> cd_writer d" if "e \<in> set ds" for e using Cons.prems that by (auto simp: image_iff)
  have "filter (cannot_serve ops ?chans m ex) ds = filter (cannot_serve ops chans m ex) ds"
    using other by (intro filter_cong) (auto simp: cannot_serve_def sent_channels_def dest: other)
  moreover have "sent_channels ops m ex ds ?chans = sent_channels ops m ex (d # ds) chans"
    using other by (force simp: sent_channels_def fun_eq_iff)
  ultimately show ?case using d ds by simp
qed

lemma broadcast_vec_append:
  "broadcast_vec ops m ex (xs @ ys) chans =
     (let (xs', chans', dm) = broadcast_vec ops m ex xs chans;
          (ys', chans'', dm') = broadcast_vec ops m ex ys chans'
      in (xs' @ ys', chans'', dm @ dm'))"
  by (induction xs arbitrary: chans) (auto simp: Let_def split: prod.splits)

lemma fst_broadcast_vec: "fst (broadcast_vec ops m ex ds chans) = map (after_broadcast m ex) ds"
proof (induction ds arbitrary: chans)
  case (Cons d ds)
  obtain dm where "broadcast_client ops m ex d chans = (after_broadcast m ex d, sent_channels ops m ex [d] chans, dm)"
    using broadcast_client_spec by blast
  with Cons.IH [of "sent_channels ops m ex [d] chans"] show ?case by (auto split: prod.splits)
qed simp

lemma broadcast_keys_step:
  assumes "hm_get a dl = Some ds" and "broadcast_vec ops m ex ds chans = (ds', chans', dm)"
  shows "broadcast_keys ops m ex (a # ks) dl chans =
      (let (dl'', chans'', dm') = broadcast_keys ops m ex ks (hm_insert a (map (after_broadcast m ex) ds) dl) chans'
       in (dl'', chans'', dm @ dm'))"
  using assms fst_broadcast_vec [of ops m ex ds chans] by simp

lemma map_filter_hm_insert:
  "a \<notin> set ks \<Longrightarrow>
     List.map_filter (\<lambda>k. if k = a then Some v else hm_get k dl) ks = List.map_filter (\<lambda>k. hm_get k dl) ks"
  by (induction ks) (auto simp: List.map_filter_simps split: option.splits)

lemma broadcast_keys_flat:
  assumes "distinct ks"
  shows "snd (broadcast_keys ops m ex ks dl chans) =
      snd (broadcast_vec ops m ex (concat (List.map_filter (\<lambda>k. hm_get k dl) ks)) chans) \<and>
    (\<forall>k. hm_get k (fst (broadcast_keys ops m ex ks dl chans)) =
      (if k \<in> set ks then map_option (map (after_broadcast m ex)) (hm_get k dl) else hm_get k dl)) \<and>
    (hm_wf dl \<longrightarrow> hm_wf (fst (broadcast_keys ops m ex ks dl chans)))"
  using assms
proof (induction ks arbitrary: dl chans)
  case (Cons a ks)
  show ?case
  proof (cases "hm_get a dl")
    case None
    with Cons.IH [of dl chans] Cons.prems show ?thesis by (auto simp: List.map_filter_simps)
  next
    case (Some ds)
    obtain ds' chans' dm where v: "broadcast_vec ops m ex ds chans = (ds', chans', dm)" by (cases rule: prod_cases3)
    let ?dl = "hm_insert a (map (after_broadcast m ex) ds) dl"
    obtain dl'' chans'' dm' where k: "broadcast_keys ops m ex ks ?dl chans' = (dl'', chans'', dm')"
      by (cases rule: prod_cases3)
    have "snd (broadcast_vec ops m ex (concat (List.map_filter (\<lambda>k. hm_get k dl) ks)) chans') = (chans'', dm')"
      and "\<forall>k. hm_get k dl'' = (if k \<in> set ks then map_option (map (after_broadcast m ex)) (hm_get k ?dl) else hm_get k ?dl)"
      and "hm_wf dl \<longrightarrow> hm_wf dl''"
      using Cons.IH [of ?dl chans'] Cons.prems k by (simp_all add: map_filter_hm_insert)
    moreover from this(2) Cons.prems Some have
      "\<forall>k. hm_get k dl'' = (if k \<in> set (a # ks) then map_option (map (after_broadcast m ex)) (hm_get k dl) else hm_get k dl)"
      by auto
    ultimately show ?thesis
      using Some k v unfolding broadcast_keys_step [OF Some v]
      by (auto simp: List.map_filter_simps broadcast_vec_append Let_def split: prod.splits)
  qed
qed (simp_all add: List.map_filter_simps)

definition own_channels :: "delivery_registry \<Rightarrow> bool" where
  "own_channels dl \<longleftrightarrow>
     (\<forall>a. distinct (map cd_writer (hm_or [] a dl))) \<and>
     (\<forall>a b. a \<noteq> b \<longrightarrow> cd_writer ` set (hm_or [] a dl) \<inter> cd_writer ` set (hm_or [] b dl) = {})"

lemma own_channels_flat:
  "hm_wf dl \<Longrightarrow> own_channels dl \<Longrightarrow> distinct (map cd_writer (concat (map snd dl)))"
proof (induction dl)
  case (Cons p dl)
  obtain a ds where p: "p = (a, ds)" by (cases p)
  have a: "hm_get a dl = None" using Cons.prems(1) by (simp add: p hm_get_None)
  have eq: "hm_or [] b (p # dl) = (if b = a then ds else hm_or [] b dl)" for b by (auto simp: p hm_or_Cons)
  have none: "hm_or [] a dl = []" using a by (simp add: hm_or_None)
  have "own_channels dl"
    using Cons.prems(2) none unfolding own_channels_def eq by (metis distinct.simps(1) image_empty inf_bot_left inf_bot_right list.set(1) list.simps(8))
  moreover have "cd_writer ` set ds \<inter> cd_writer ` set (concat (map snd dl)) = {}"
  proof -
    have "a \<noteq> b \<Longrightarrow> cd_writer ` set (hm_or [] a (p # dl)) \<inter> cd_writer ` set (hm_or [] b (p # dl)) = {}" for b
      using Cons.prems(2) unfolding own_channels_def by blast
    then have "cd_writer ` set ds \<inter> cd_writer ` set (hm_or [] b dl) = {}" for b
      using none unfolding eq by (cases "b = a") (simp_all split: if_splits)
    then show ?thesis using set_flatten [of dl] Cons.prems(1) by (auto simp: p)
  qed
  moreover have "distinct (map cd_writer ds)" using Cons.prems(2) unfolding own_channels_def eq by (metis (full_types))
  ultimately show ?case using Cons.IH Cons.prems(1) by (simp add: p flip: image_Un)
qed simp

lemma disjoint_mono: "A \<subseteq> B \<Longrightarrow> C \<subseteq> D \<Longrightarrow> B \<inter> D = {} \<Longrightarrow> A \<inter> C = {}"
  by blast

lemma own_channels_less:
  assumes "own_channels dl"
    and "\<And>a. \<exists>P f. (\<forall>d. cd_writer (f d) = cd_writer d) \<and> hm_or [] a dl' = map f (filter P (hm_or [] a dl))"
  shows "own_channels dl'"
proof -
  have d: "distinct (map cd_writer (hm_or [] a dl'))" and s: "cd_writer ` set (hm_or [] a dl') \<subseteq> cd_writer ` set (hm_or [] a dl)" for a
  proof -
    obtain P f where *: "\<And>d. cd_writer (f d) = cd_writer d" "hm_or [] a dl' = map f (filter P (hm_or [] a dl))"
      using assms(2) by metis
    show "cd_writer ` set (hm_or [] a dl') \<subseteq> cd_writer ` set (hm_or [] a dl)" using * by auto
    have "map cd_writer (hm_or [] a dl') = map cd_writer (filter P (hm_or [] a dl))" using * by simp
    then show "distinct (map cd_writer (hm_or [] a dl'))"
      using assms(1) by (auto simp: own_channels_def intro: distinct_map_filter)
  qed
  show ?thesis unfolding own_channels_def
  proof (intro conjI allI impI)
    fix a b :: socket_addr assume "a \<noteq> b"
    then show "cd_writer ` set (hm_or [] a dl') \<inter> cd_writer ` set (hm_or [] b dl') = {}"
      using assms(1) disjoint_mono [OF s [of a] s [of b]] by (simp add: own_channels_def)
  qed (rule d)
qed

lemma broadcast_keys_spec:
  assumes wf: "hm_wf dl" and it: "iteration iter" and own: "own_channels dl"
  obtains dl' dm where
    "broadcast_keys ops m ex (iter (hm_keys dl)) dl chans = (dl', sent_channels ops m ex (concat (map snd dl)) chans, dm)"
    "hm_wf dl'" "\<And>a. hm_get a dl' = map_option (map (after_broadcast m ex)) (hm_get a dl)"
    "set (map (\<lambda>(a, t, _). (a, t)) dm) =
      {(cd_addr d, cd_token d) | d. d \<in> (\<Union>a. set (hm_or [] a dl)) \<and> cannot_serve ops chans m ex d}"
    "length dm \<le> length (concat (map snd dl))"
proof -
  let ?ks = "iter (hm_keys dl)" and ?ds = "concat (hm_values iter dl)"
  have perm: "mset ?ds = mset (concat (map snd dl))" using wf it by (rule flatten_perm)
  have set: "set ?ds = set (concat (map snd dl))" using perm by (rule mset_eq_setD)
  have "distinct (map cd_writer ?ds)"
    using own_channels_flat [OF wf own] perm by (metis mset_eq_imp_distinct_iff mset_map)
  from broadcast_vec_spec [OF this, of ops m ex chans] obtain dm where
    v: "broadcast_vec ops m ex ?ds chans = (map (after_broadcast m ex) ?ds, sent_channels ops m ex ?ds chans, dm)"
      "map (\<lambda>(a, t, _). (a, t)) dm = map (\<lambda>d. (cd_addr d, cd_token d)) (filter (cannot_serve ops chans m ex) ?ds)"
    by blast
  have dist: "distinct ?ks" using wf it by (simp add: iteration_distinct hm_wf_def)
  have keys: "k \<in> set ?ks \<longleftrightarrow> hm_get k dl \<noteq> None" for k
    using it by (simp add: iteration_set hm_get_None)
  obtain dl' chans' dm' where k: "broadcast_keys ops m ex ?ks dl chans = (dl', chans', dm')" by (cases rule: prod_cases3)
  from broadcast_keys_flat [OF dist, of ops m ex dl chans] k v wf keys have
    "chans' = sent_channels ops m ex ?ds chans" "dm' = dm" "hm_wf dl'"
    and get: "\<forall>a. hm_get a dl' = map_option (map (after_broadcast m ex)) (hm_get a dl)"
    by (auto simp: hm_values_def)
  moreover have "sent_channels ops m ex ?ds chans = sent_channels ops m ex (concat (map snd dl)) chans"
    unfolding sent_channels_def set by simp
  moreover have "set (map (\<lambda>(a, t, _). (a, t)) dm) =
      {(cd_addr d, cd_token d) | d. d \<in> (\<Union>a. set (hm_or [] a dl)) \<and> cannot_serve ops chans m ex d}"
    unfolding v(2) using set set_flatten [OF wf] by auto
  moreover have "length dm \<le> length (concat (map snd dl))"
  proof -
    have "length dm \<le> length ?ds" using arg_cong [OF v(2), of length] by simp
    also have "\<dots> = length (concat (map snd dl))" using arg_cong [OF perm, of size] by (simp only: size_mset)
    finally show ?thesis .
  qed
  ultimately show ?thesis using k by (intro that [of dl' dm]) auto
qed

text \<open>Two delivery maps with the same content per address.\<close>

lemma delivery_inv_or: "delivery_inv dl \<Longrightarrow> d \<in> set (hm_or [] a dl) \<Longrightarrow> delivery_ok a d"
  by (auto simp: delivery_inv_def in_hm_or list_all_iff)

lemma outbox_tokens_distinct:
  assumes "server_inv st" and "d \<in> set (hm_or [] a (outboxes st))" and "e \<in> set (hm_or [] a (outboxes st))"
    and "cd_token d = cd_token e"
  shows "d = e"
proof -
  have "distinct (map cd_token (hm_or [] a (outboxes st)))"
    using assms(1) by (auto simp: server_inv_def in_step_def intro: registry_invD(8))
  with assms(2-4) show ?thesis by (simp add: distinct_map inj_on_def)
qed

text \<open>The state in the middle of a broadcast, after the delivery lock is released.\<close>

lemma server_inv_after_sends:
  assumes inv: "server_inv st" and wf: "hm_wf dl"
    and get: "\<And>a. hm_get a dl = map_option (map (after_broadcast m ex)) (hm_get a (outboxes st))"
  shows "server_inv (st\<lparr>deliveries := mutex_set dl (deliveries st), channels := chans\<rparr>)"
proof -
  have "delivery_inv dl"
    using inv wf by (auto simp: delivery_inv_def server_inv_def get list_all_iff after_broadcast_ok)
  moreover have "map cd_token (hm_or [] a dl) = map cd_token (hm_or [] a (outboxes st))" for a
    by (simp add: hm_or_def get split: option.splits)
  ultimately show ?thesis using inv by (simp add: server_inv_def healthy_def in_step_def)
qed

lemma broadcast_spec:
  assumes inv: "server_inv st" and it: "orders_ok it" and own: "own_channels (outboxes st)"
  obtains st' where
    "broadcast ops it st m ex =
      (Ok (\<exists>a. \<exists>d \<in> set (hm_or [] a (outboxes st)). cannot_serve ops (channels st) m ex d), st')"
    "server_inv st'" "own_channels (outboxes st')" "next_token st' = next_token st"
    "history st' = history st" "rate_limits st' = rate_limits st" "replay_barrier st' = replay_barrier st"
    "channels st' = sent_channels ops m ex (concat (map snd (outboxes st))) (channels st)"
    "\<And>a. hm_or [] a (outboxes st') =
       map (after_broadcast m ex) (filter (\<lambda>d. \<not> cannot_serve ops (channels st) m ex d) (hm_or [] a (outboxes st)))"
    "\<And>a. hm_or [] a (sessions st') =
       filter (\<lambda>c. \<forall>d \<in> set (hm_or [] a (outboxes st)). cd_token d = cs_token c \<longrightarrow> \<not> cannot_serve ops (channels st) m ex d)
         (hm_or [] a (sessions st))"
    "set (signals st') = set (signals st) \<union>
       {w. \<exists>a. \<exists>d \<in> set (hm_or [] a (outboxes st)). cannot_serve ops (channels st) m ex d \<and> cd_disconnect d = Some w}"
proof -
  let ?bad = "cannot_serve ops (channels st) m ex" and ?iter = "deliveries_order it"
  have wf: "hm_wf (outboxes st)" and dinv: "delivery_inv (outboxes st)"
    using inv by (simp_all add: server_inv_def delivery_inv_def)
  have iter: "iteration ?iter" using it by (simp add: orders_ok_def)
  obtain dl dm where k:
    "broadcast_keys ops m ex (?iter (hm_keys (outboxes st))) (outboxes st) (channels st) =
      (dl, sent_channels ops m ex (concat (map snd (outboxes st))) (channels st), dm)"
    and dl: "hm_wf dl" "\<And>a. hm_get a dl = map_option (map (after_broadcast m ex)) (hm_get a (outboxes st))"
    and dm: "set (map (\<lambda>(a, t, _). (a, t)) dm) =
      {(cd_addr d, cd_token d) | d. d \<in> (\<Union>a. set (hm_or [] a (outboxes st))) \<and> ?bad d}"
    by (rule broadcast_keys_spec [OF wf iter own, of ops m ex "channels st"], rule that)
  let ?chans = "sent_channels ops m ex (concat (map snd (outboxes st))) (channels st)"
  let ?mid = "st\<lparr>deliveries := mutex_set dl (deliveries st), channels := ?chans\<rparr>"
  have mid: "server_inv ?mid" using inv dl by (rule server_inv_after_sends)
  have box: "hm_or [] a dl = map (after_broadcast m ex) (hm_or [] a (outboxes st))" for a
    by (simp add: hm_or_def dl(2) split: option.splits)
  have in_dm: "(a, t) \<in> set (map (\<lambda>(a, t, _). (a, t)) dm) \<longleftrightarrow>
      (\<exists>d \<in> set (hm_or [] a (outboxes st)). cd_token d = t \<and> ?bad d)" for a t
    unfolding dm using delivery_inv_or [OF dinv] by (auto simp: delivery_ok_def)
  have bad: "(a, cd_token d) \<in> set (map (\<lambda>(a, t, _). (a, t)) dm) \<longleftrightarrow> ?bad d"
    if "d \<in> set (hm_or [] a (outboxes st))" for a d
    unfolding in_dm using that outbox_tokens_distinct [OF inv] by blast
  from drop_doomed_spec [OF mid, of "map (\<lambda>(a, t, _). (a, t)) dm"] obtain st' where
    dd: "drop_doomed ?mid (map (\<lambda>(a, t, _). (a, t)) dm) = (Ok (), st')" and inv': "server_inv st'"
    and rest: "same_rest ?mid st'" "next_token st' = next_token ?mid"
    and ss: "\<forall>b. hm_or [] b (sessions st') =
      filter (\<lambda>c. (b, cs_token c) \<notin> set (map (\<lambda>(a, t, _). (a, t)) dm)) (hm_or [] b (sessions st))"
    and oo: "\<forall>b. hm_or [] b (outboxes st') =
      filter (\<lambda>d. (b, cd_token d) \<notin> set (map (\<lambda>(a, t, _). (a, t)) dm)) (hm_or [] b dl)"
    and gg: "set (signals st') = set (signals st) \<union>
       {w. \<exists>b d. d \<in> set (hm_or [] b dl) \<and> (b, cd_token d) \<in> set (map (\<lambda>(a, t, _). (a, t)) dm) \<and> cd_disconnect d = Some w}"
    by auto
  have oo': "hm_or [] b (outboxes st') = map (after_broadcast m ex) (filter (\<lambda>d. \<not> ?bad d) (hm_or [] b (outboxes st)))" for b
  proof -
    have "filter (\<lambda>d. (b, cd_token d) \<notin> set (map (\<lambda>(a, t, _). (a, t)) dm)) (hm_or [] b (outboxes st)) =
        filter (\<lambda>d. \<not> ?bad d) (hm_or [] b (outboxes st))"
      by (rule filter_cong) (simp_all only: bad)
    then show ?thesis using oo by (simp add: box filter_map comp_def)
  qed
  show ?thesis
  proof (rule that)
    have "(\<exists>a. \<exists>d \<in> set (hm_or [] a (outboxes st)). ?bad d) \<longleftrightarrow> dm \<noteq> []"
    proof
      assume "\<exists>a. \<exists>d \<in> set (hm_or [] a (outboxes st)). ?bad d"
      then show "dm \<noteq> []" using bad by force
    next
      assume "dm \<noteq> []"
      then obtain a t where "(a, t) \<in> set (map (\<lambda>(a, t, _). (a, t)) dm)" by (cases dm) (auto split: prod.splits)
      then show "\<exists>a. \<exists>d \<in> set (hm_or [] a (outboxes st)). ?bad d" using in_dm by blast
    qed
    then show "broadcast ops it st m ex = (Ok (\<exists>a. \<exists>d \<in> set (hm_or [] a (outboxes st)). ?bad d), st')"
      using inv k dd by (simp add: broadcast_def server_inv_def healthy_def)
    show "own_channels (outboxes st')"
      using own by (rule own_channels_less) (use oo' after_broadcast_sel in blast)
    show "hm_or [] a (sessions st') = filter (\<lambda>c. \<forall>d \<in> set (hm_or [] a (outboxes st)). cd_token d = cs_token c \<longrightarrow> \<not> ?bad d)
        (hm_or [] a (sessions st))" for a
      using ss in_dm by (auto intro!: filter_cong)
    show "set (signals st') = set (signals st) \<union>
       {w. \<exists>a. \<exists>d \<in> set (hm_or [] a (outboxes st)). ?bad d \<and> cd_disconnect d = Some w}"
      unfolding gg box using bad by auto
  qed (use inv' rest oo' in \<open>simp_all add: same_rest_def\<close>)
qed

subsection \<open>Becoming ready\<close>

lemma find_client_iff:
  assumes "server_inv st"
  shows "find_client a tok (outboxes st) = Some d \<longleftrightarrow> d \<in> set (hm_or [] a (outboxes st)) \<and> cd_token d = tok"
proof
  assume "find_client a tok (outboxes st) = Some d"
  then show "d \<in> set (hm_or [] a (outboxes st)) \<and> cd_token d = tok"
    by (auto simp: find_client_def in_hm_or split: option.splits dest: find_Some_in)
next
  assume *: "d \<in> set (hm_or [] a (outboxes st)) \<and> cd_token d = tok"
  then obtain ds where ds: "hm_get a (outboxes st) = Some ds" "d \<in> set ds" by (auto simp: in_hm_or)
  with * obtain e where e: "find (\<lambda>d. cd_token d = tok) ds = Some e"
    by (cases "find (\<lambda>d. cd_token d = tok) ds") (auto simp: find_None_iff_all)
  with ds * have "e = d"
    using outbox_tokens_distinct [OF assms, of e a d] find_Some_in [OF e] by (auto simp: in_hm_or)
  with ds e show "find_client a tok (outboxes st) = Some d" by (simp add: find_client_def)
qed

lemma find_client_None:
  assumes "server_inv st"
  shows "find_client a tok (outboxes st) = None \<longleftrightarrow> (a, tok) \<notin> members st"
proof -
  have "cd_token ` set (hm_or [] a (outboxes st)) = cs_token ` set (hm_or [] a (sessions st))"
    using assms by (metis in_step_def server_inv_def set_map)
  then have "(a, tok) \<in> members st \<longleftrightarrow> (\<exists>d. find_client a tok (outboxes st) = Some d)"
    unfolding find_client_iff [OF assms] members_def by (simp add: set_eq_iff image_iff) metis
  then show ?thesis by auto
qed

lemma update_client_or:
  "hm_or [] b (update_client a tok f dl) =
     (if b = a then update_first (\<lambda>d. cd_token d = tok) f (hm_or [] a dl) else hm_or [] b dl)"
  by (simp add: update_client_def hm_or_def split: option.splits)

lemma update_client_inv:
  assumes inv: "server_inv st"
    and f: "\<And>d. cd_token (f d) = cd_token d"
      "\<And>d. find_client a tok (outboxes st) = Some d \<Longrightarrow> delivery_ok a d \<Longrightarrow> delivery_ok a (f d)"
  shows "server_inv (st\<lparr>deliveries := mutex_set (update_client a tok f (outboxes st)) (deliveries st), channels := chans\<rparr>)"
proof -
  let ?dl = "update_client a tok f (outboxes st)"
  have "delivery_inv ?dl"
  proof (cases "hm_get a (outboxes st)")
    case None
    with inv show ?thesis by (simp add: update_client_def server_inv_def)
  next
    case (Some ds)
    with inv have "ds \<noteq> []" "list_all (delivery_ok a) ds" "hm_wf (outboxes st)"
      by (simp_all add: server_inv_def delivery_inv_def)
    with f(2) Some have "list_all (delivery_ok a) (update_first (\<lambda>d. cd_token d = tok) f ds)"
      by (auto simp: list_all_iff find_client_iff [OF inv] in_hm_or dest!: set_update_first)
    with Some inv \<open>ds \<noteq> []\<close> show ?thesis
      by (auto simp: update_client_def server_inv_def delivery_inv_def split: if_splits)
  qed
  moreover have "map cd_token (hm_or [] b ?dl) = map cd_token (hm_or [] b (outboxes st))" for b
    by (simp add: update_client_or map_update_first f(1))
  ultimately show ?thesis using inv by (simp add: server_inv_def healthy_def in_step_def)
qed

lemma flush_pending_parts:
  "flush_pending ops w ms = (status, w', rest) \<Longrightarrow>
     \<exists>sent. ms = sent @ rest \<and> (status = Sent \<longleftrightarrow> rest = [])"
proof (induction ms arbitrary: w)
  case (Cons m ms)
  show ?case
  proof (cases "\<exists>w1. try_send ops w m = (Sent, w1)")
    case True
    with Cons.prems obtain w1 where "flush_pending ops w1 ms = (status, w', rest)" by auto
    from Cons.IH [OF this] obtain sent where "ms = sent @ rest \<and> (status = Sent \<longleftrightarrow> rest = [])" by blast
    then have "m # ms = (m # sent) @ rest \<and> (status = Sent \<longleftrightarrow> rest = [])" by simp
    then show ?thesis by blast
  next
    case False
    with Cons.prems show ?thesis by (auto split: prod.splits send_status.splits)
  qed
qed simp

lemma mark_client_ready_inv:
  assumes "server_inv st"
  shows "server_inv (snd (mark_client_ready ops st a tok)) \<and> \<not> is_Panic (fst (mark_client_ready ops st a tok))"
proof (cases "find_client a tok (outboxes st)")
  case None
  with assms show ?thesis by (simp add: mark_client_ready_def)
next
  case (Some d)
  obtain status w rest where fl: "flush_pending ops (channels st (cd_writer d)) (cd_pending d) = (status, w, rest)"
    by (cases rule: prod_cases3)
  obtain sent where sent: "cd_pending d = sent @ rest" using flush_pending_parts [OF fl] by blast
  have upd: "server_inv (st\<lparr>deliveries := mutex_set (update_client a tok f (outboxes st)) (deliveries st), channels := chans\<rparr>)"
    if "\<And>d. cd_token (f d) = cd_token d" "delivery_ok a d \<Longrightarrow> delivery_ok a (f d)"
    for f chans using assms that(1) by (rule update_client_inv) (use that(2) Some in simp)
  have keep_ok: "delivery_ok a d \<Longrightarrow> delivery_ok a (d\<lparr>cd_pending := rest\<rparr>)"
    "delivery_ok a d \<Longrightarrow> delivery_ok a (d\<lparr>cd_pending := [], cd_ready := True\<rparr>)"
    by (auto simp: delivery_ok_def sent)
  note ready = upd [of "\<lambda>d. d\<lparr>cd_pending := [], cd_ready := True\<rparr>"] and kept = upd [of "\<lambda>d. d\<lparr>cd_pending := rest\<rparr>"]
  have "\<not> poisoned (deliveries st)" using assms by (simp add: server_inv_def healthy_def)
  with Some fl ready kept keep_ok show ?thesis
    by (cases status) (simp_all add: mark_client_ready_def Let_def)
qed

text \<open>What happens to a client's own channel.\<close>

lemma sent_channels_own:
  assumes "hm_wf dl" "own_channels dl" "d \<in> set (hm_or [] a dl)"
  shows "sent_channels ops m ex (concat (map snd dl)) chans (cd_writer d) =
    (if is_target ex d \<and> cd_ready d then snd (try_send ops (chans (cd_writer d)) m) else chans (cd_writer d))"
proof -
  have "inj_on cd_writer (set (concat (map snd dl)))"
    using own_channels_flat [OF assms(1,2)] by (simp add: distinct_map)
  moreover have "d \<in> set (concat (map snd dl))" using assms(3) set_flatten [OF assms(1)] by blast
  ultimately have "(\<exists>e \<in> set (concat (map snd dl)). is_target ex e \<and> cd_ready e \<and> cd_writer e = cd_writer d)
      \<longleftrightarrow> is_target ex d \<and> cd_ready d" unfolding inj_on_def by metis
  then show ?thesis by (simp add: sent_channels_def)
qed

subsection \<open>Properties\<close>

text \<open>
  C13. A broadcast reaches every client it should, whatever the iteration order of the map: a
  ready client's channel gets the message, a client still waiting for the history gets it
  appended to its pending messages, the excluded address gets nothing, and exactly the clients
  that cannot take it (queue full, writer gone, too much pending) are removed, from both
  registries, and signalled. The result says whether there were such clients.
\<close>

theorem broadcast_effect:
  assumes "server_inv st" and "orders_ok it" and "own_channels (outboxes st)"
  shows "\<exists>st'. broadcast ops it st m ex =
      (Ok (\<exists>a. \<exists>d \<in> set (hm_or [] a (outboxes st)). cannot_serve ops (channels st) m ex d), st') \<and>
    server_inv st' \<and> own_channels (outboxes st') \<and> history st' = history st \<and>
    (\<forall>a. hm_or [] a (outboxes st') =
       map (after_broadcast m ex) (filter (\<lambda>d. \<not> cannot_serve ops (channels st) m ex d) (hm_or [] a (outboxes st)))) \<and>
    (\<forall>a. \<forall>d \<in> set (hm_or [] a (outboxes st)). channels st' (cd_writer d) =
       (if is_target ex d \<and> cd_ready d then snd (try_send ops (channels st (cd_writer d)) m)
        else channels st (cd_writer d))) \<and>
    members st' = members st -
      {(a, cd_token d) | a d. d \<in> set (hm_or [] a (outboxes st)) \<and> cannot_serve ops (channels st) m ex d} \<and>
    set (signals st') = set (signals st) \<union>
      {w. \<exists>a. \<exists>d \<in> set (hm_or [] a (outboxes st)). cannot_serve ops (channels st) m ex d \<and> cd_disconnect d = Some w}"
proof -
  let ?bad = "cannot_serve ops (channels st) m ex"
  have wf: "hm_wf (outboxes st)" using assms(1) by (simp add: server_inv_def delivery_inv_def)
  obtain st' where r: "broadcast ops it st m ex = (Ok (\<exists>a. \<exists>d \<in> set (hm_or [] a (outboxes st)). ?bad d), st')"
    and i: "server_inv st'" "own_channels (outboxes st')" "history st' = history st"
    and c: "channels st' = sent_channels ops m ex (concat (map snd (outboxes st))) (channels st)"
    and o: "\<And>a. hm_or [] a (outboxes st') =
       map (after_broadcast m ex) (filter (\<lambda>d. \<not> ?bad d) (hm_or [] a (outboxes st)))"
    and s: "\<And>a. hm_or [] a (sessions st') =
       filter (\<lambda>c. \<forall>d \<in> set (hm_or [] a (outboxes st)). cd_token d = cs_token c \<longrightarrow> \<not> ?bad d) (hm_or [] a (sessions st))"
    and g: "set (signals st') = set (signals st) \<union>
       {w. \<exists>a. \<exists>d \<in> set (hm_or [] a (outboxes st)). ?bad d \<and> cd_disconnect d = Some w}"
    by (rule broadcast_spec [OF assms, of ops m ex], rule that)
  have "channels st' (cd_writer d) =
       (if is_target ex d \<and> cd_ready d then snd (try_send ops (channels st (cd_writer d)) m)
        else channels st (cd_writer d))"
    if "d \<in> set (hm_or [] a (outboxes st))" for a d
    unfolding c by (rule sent_channels_own [OF wf assms(3) that])
  moreover have "members st' = members st - {(a, cd_token d) | a d. d \<in> set (hm_or [] a (outboxes st)) \<and> ?bad d}"
    unfolding members_def s by auto
  ultimately show ?thesis using r i o g by blast
qed

theorem broadcast_effect_witness:
  "\<exists>st'. broadcast bounded_ops \<lparr>clients_order = rev, deliveries_order = rev\<rparr> one_client [7] None = (Ok False, st') \<and>
    map cd_pending (hm_or [] localhost (outboxes st')) = [[[7]]] \<and> members st' = {(localhost, 0)}"
proof -
  have own: "own_channels (outboxes one_client)"
    by (auto simp: own_channels_def one_client_simps hm_or_def)
  have it: "orders_ok \<lparr>clients_order = rev, deliveries_order = rev\<rparr>" by (simp add: orders_ok_def)
  have one: "hm_or [] a (outboxes one_client) = (if a = localhost then [\<lparr>cd_addr = localhost, cd_token = 0, cd_writer = 0,
     cd_disconnect = Some 0, cd_ready = False, cd_pending = []\<rparr>] else [])" for a
    by (simp add: one_client_simps hm_or_def)
  have ok: "\<not> cannot_serve bounded_ops (channels one_client) [7] None d" if "d \<in> set (hm_or [] a (outboxes one_client))" for a d
    using that by (auto simp: one cannot_serve_def limits split: if_splits)
  let ?bad = "cannot_serve bounded_ops (channels one_client) [7] None"
  obtain st' where st':
    "broadcast bounded_ops \<lparr>clients_order = rev, deliveries_order = rev\<rparr> one_client [7] None =
      (Ok (\<exists>a. \<exists>d \<in> set (hm_or [] a (outboxes one_client)). ?bad d), st')"
    "\<forall>a. hm_or [] a (outboxes st') =
       map (after_broadcast [7] None) (filter (\<lambda>d. \<not> ?bad d) (hm_or [] a (outboxes one_client)))"
    "members st' = members one_client - {(a, cd_token d) | a d. d \<in> set (hm_or [] a (outboxes one_client)) \<and> ?bad d}"
    using broadcast_effect [OF one_client_simps(1) it own, of bounded_ops "[7]" None] by (elim exE conjE) (rule that)
  have "filter (\<lambda>d. \<not> cannot_serve bounded_ops (channels one_client) [7] None d) (hm_or [] localhost (outboxes one_client)) =
      hm_or [] localhost (outboxes one_client)"
    using ok by (simp add: filter_id_conv)
  with st'(2) have "map cd_pending (hm_or [] localhost (outboxes st')) = [[[7]]]"
    by (simp add: one after_broadcast_def is_target_def limits)
  with st'(1,3) ok show ?thesis by (auto simp: one_client_simps(5))
qed

end
