(* ===== verification/Presence_Facts.thy ===== *)
theory Presence_Facts
  imports Delivery
begin

section \<open>Facts about the delivery operations\<close>

text \<open>
  What a connection relies on when it calls into \<^verbatim>\<open>state.rs\<close>: the state it finds is \<open>settled\<close> (the
  registry invariants hold, no two clients share a channel, every registered name is one the
  handshake accepts), the call returns without a panic and without a poisoned lock, the state
  it leaves is settled again, and clients only leave. A client that leaves has been signalled.
  For the presence frame this includes that it can always be encoded.
\<close>

subsection \<open>Names\<close>

definition registered_name :: "ustr \<Rightarrow> bool" where
  "registered_name u \<longleftrightarrow> valid_str u \<and> is_valid_username u \<and> str_len u \<le> MAX_USERNAME_BYTES"

definition names_ok :: "'w server_state \<Rightarrow> bool" where
  "names_ok st \<longleftrightarrow>
     (\<forall>a. \<forall>c \<in> set (hm_or [] a (sessions st)). \<forall>u. cs_username c = Some u \<longrightarrow> registered_name u)"

text \<open>The names shown in the presence list, with multiplicity.\<close>

definition shown_names :: "'w server_state \<Rightarrow> ustr multiset" where
  "shown_names st = mset (List.map_filter cs_username (concat (map snd (sessions st))))"

definition settled :: "'w server_state \<Rightarrow> bool" where
  "settled st \<longleftrightarrow> server_inv st \<and> own_channels (outboxes st) \<and> names_ok st"

lemma settledD: "settled st \<Longrightarrow> server_inv st" "settled st \<Longrightarrow> own_channels (outboxes st)" "settled st \<Longrightarrow> names_ok st"
  by (simp_all add: settled_def)

subsection \<open>Clients only leave\<close>

definition handles :: "socket_addr \<Rightarrow> 'w server_state \<Rightarrow> (token \<times> watch_id option) set" where
  "handles a st = (\<lambda>d. (cd_token d, cd_disconnect d)) ` set (hm_or [] a (outboxes st))"

definition shrinks :: "'w server_state \<Rightarrow> 'w server_state \<Rightarrow> bool" where
  "shrinks st st' \<longleftrightarrow>
     next_token st' = next_token st \<and> rate_limits st' = rate_limits st \<and> replay_barrier st' = replay_barrier st \<and>
     set (signals st) \<subseteq> set (signals st') \<and>
     (\<forall>a. \<exists>P. hm_or [] a (sessions st') = filter P (hm_or [] a (sessions st))) \<and>
     (\<forall>a. handles a st' \<subseteq> handles a st) \<and>
     (\<forall>a t w. (t, Some w) \<in> handles a st - handles a st' \<longrightarrow> w \<in> set (signals st'))"

lemma shrinks_refl [simp]: "shrinks st st"
  by (auto simp: shrinks_def intro: exI [of _ "\<lambda>_. True"])

lemma shrinks_trans:
  assumes "shrinks a b" and "shrinks b c"
  shows "shrinks a c"
proof -
  have "\<exists>P. hm_or [] x (sessions c) = filter P (hm_or [] x (sessions a))" for x
  proof -
    from assms obtain P Q where "hm_or [] x (sessions b) = filter P (hm_or [] x (sessions a))"
      "hm_or [] x (sessions c) = filter Q (hm_or [] x (sessions b))"
      unfolding shrinks_def by metis
    then have "hm_or [] x (sessions c) = filter (\<lambda>y. P y \<and> Q y) (hm_or [] x (sessions a))"
      by (simp add: conj_commute)
    then show ?thesis by blast
  qed
  with assms show ?thesis unfolding shrinks_def by (simp, blast)
qed

lemma shrinks_sessions:
  assumes "shrinks st st'" and "c \<in> set (hm_or [] a (sessions st'))"
  shows "c \<in> set (hm_or [] a (sessions st))"
proof -
  from assms(1) obtain P where "hm_or [] a (sessions st') = filter P (hm_or [] a (sessions st))"
    unfolding shrinks_def by blast
  with assms(2) show ?thesis by simp
qed

lemma shrinks_members: "shrinks st st' \<Longrightarrow> members st' \<subseteq> members st"
  by (auto simp: members_def dest: shrinks_sessions)

lemma shrinks_names: "shrinks st st' \<Longrightarrow> names_ok st \<Longrightarrow> names_ok st'"
  unfolding names_ok_def by (blast dest: shrinks_sessions)

lemma shrinksI:
  assumes "next_token st' = next_token st" "rate_limits st' = rate_limits st" "replay_barrier st' = replay_barrier st"
    and s: "\<And>a. hm_or [] a (sessions st') = filter (P a) (hm_or [] a (sessions st))"
    and o: "\<And>a. hm_or [] a (outboxes st') = map f (filter (\<lambda>d. \<not> Q a d) (hm_or [] a (outboxes st)))"
    and f: "\<And>d. cd_token (f d) = cd_token d" "\<And>d. cd_disconnect (f d) = cd_disconnect d"
    and g: "set (signals st') = set (signals st) \<union>
       {w. \<exists>a. \<exists>d \<in> set (hm_or [] a (outboxes st)). Q a d \<and> cd_disconnect d = Some w}"
  shows "shrinks st st'"
  unfolding shrinks_def
proof (intro conjI allI impI)
  show "\<exists>P. hm_or [] a (sessions st') = filter P (hm_or [] a (sessions st))" for a using s by blast
  have h: "handles a st' = (\<lambda>d. (cd_token d, cd_disconnect d)) ` {d \<in> set (hm_or [] a (outboxes st)). \<not> Q a d}" for a
    by (auto simp: handles_def o f image_image)
  show "handles a st' \<subseteq> handles a st" for a unfolding h by (auto simp: handles_def)
  show "w \<in> set (signals st')" if lost: "(t, Some w) \<in> handles a st - handles a st'" for a t w
  proof -
    from lost obtain d where d: "d \<in> set (hm_or [] a (outboxes st))" "cd_token d = t" "cd_disconnect d = Some w"
      by (auto simp: handles_def)
    moreover from lost d have "Q a d" unfolding h by (force simp: image_iff)
    ultimately show ?thesis unfolding g by blast
  qed
qed (use assms(1-3) g in auto)

subsection \<open>Removing clients\<close>

lemma drop_doomed_settled:
  assumes "settled st"
  obtains st' where "drop_doomed st ds = (Ok (), st')" "settled st'" "shrinks st st'" "same_rest st st'"
    "\<And>b. hm_or [] b (sessions st') = filter (\<lambda>c. (b, cs_token c) \<notin> set ds) (hm_or [] b (sessions st))"
    "\<And>b. hm_or [] b (outboxes st') = filter (\<lambda>d. (b, cd_token d) \<notin> set ds) (hm_or [] b (outboxes st))"
proof -
  from drop_doomed_spec [OF settledD(1) [OF assms], of ds] obtain st' where
    d: "drop_doomed st ds = (Ok (), st')" "server_inv st'" "same_rest st st'" "next_token st' = next_token st"
    and s: "\<And>b. hm_or [] b (sessions st') = filter (\<lambda>c. (b, cs_token c) \<notin> set ds) (hm_or [] b (sessions st))"
    and o: "\<And>b. hm_or [] b (outboxes st') = filter (\<lambda>d. (b, cd_token d) \<notin> set ds) (hm_or [] b (outboxes st))"
    and g: "set (signals st') = set (signals st) \<union>
       {w. \<exists>b d. d \<in> set (hm_or [] b (outboxes st)) \<and> (b, cd_token d) \<in> set ds \<and> cd_disconnect d = Some w}"
    by blast
  have sh: "shrinks st st'"
    by (rule shrinksI [where f = "\<lambda>d. d" and Q = "\<lambda>b d. (b, cd_token d) \<in> set ds"])
       (use d(3,4) s o g in \<open>auto simp: same_rest_def\<close>)
  have "own_channels (outboxes st')"
    using settledD(2) [OF assms] by (rule own_channels_less) (metis o list.map_id0 id_apply)
  with d sh s o settledD(3) [OF assms] show ?thesis
    by (intro that [of st']) (auto simp: settled_def intro: shrinks_names)
qed

lemma remove_settled:
  assumes "settled st"
  obtains st' where
    "remove_client_if_current st a tok = (Ok ((a, tok) \<in> members st), st')" "settled st'" "shrinks st st'"
    "same_rest st st'" "members st' = members st - {(a, tok)}"
proof -
  from drop_doomed_settled [OF assms, of "[(a, tok)]"] obtain st' where
    d: "drop_doomed st [(a, tok)] = (Ok (), st')" "settled st'" "shrinks st st'" "same_rest st st'"
    and s: "\<And>b. hm_or [] b (sessions st') = filter (\<lambda>c. (b, cs_token c) \<notin> {(a, tok)}) (hm_or [] b (sessions st))"
    by (metis list.set(1) list.set(2))
  obtain st1 where
    "remove_client_if_current st a tok = (Ok (tok \<in> cs_token ` set (hm_or [] a (sessions st))), st1)"
    by (rule remove_spec [OF settledD(1) [OF assms], of a tok], rule that)
  then have "remove_client_if_current st a tok = (Ok ((a, tok) \<in> members st), st1)" by (simp add: members_def)
  moreover from this d(1) have "st1 = st'" by simp
  moreover have "members st' = members st - {(a, tok)}" using s by (auto simp: members_def)
  ultimately show ?thesis using d that by blast
qed

lemma broadcast_settled:
  assumes "settled st" and "orders_ok it"
  obtains st' b where
    "broadcast ops it st m ex = (Ok b, st')" "settled st'" "shrinks st st'" "history st' = history st"
    "b \<longleftrightarrow> (\<exists>a. \<exists>d \<in> set (hm_or [] a (outboxes st)). cannot_serve ops (channels st) m ex d)"
proof -
  let ?bad = "cannot_serve ops (channels st) m ex"
  obtain st' where
    r: "broadcast ops it st m ex = (Ok (\<exists>a. \<exists>d \<in> set (hm_or [] a (outboxes st)). ?bad d), st')"
    and i: "server_inv st'" "own_channels (outboxes st')" "next_token st' = next_token st"
      "history st' = history st" "rate_limits st' = rate_limits st" "replay_barrier st' = replay_barrier st"
    and o: "\<And>a. hm_or [] a (outboxes st') =
       map (after_broadcast m ex) (filter (\<lambda>d. \<not> ?bad d) (hm_or [] a (outboxes st)))"
    and s: "\<And>a. hm_or [] a (sessions st') =
       filter (\<lambda>c. \<forall>d \<in> set (hm_or [] a (outboxes st)). cd_token d = cs_token c \<longrightarrow> \<not> ?bad d) (hm_or [] a (sessions st))"
    and g: "set (signals st') = set (signals st) \<union>
       {w. \<exists>a. \<exists>d \<in> set (hm_or [] a (outboxes st)). ?bad d \<and> cd_disconnect d = Some w}"
    by (rule broadcast_spec [OF settledD(1) [OF assms(1)] assms(2) settledD(2) [OF assms(1)], of ops m ex], rule that)
  have sh: "shrinks st st'"
    by (rule shrinksI [OF i(3,5,6) s o _ _ g]) simp_all
  with i settledD(3) [OF assms(1)] have "settled st'" by (auto simp: settled_def intro: shrinks_names)
  with r sh i(4) that show ?thesis by blast
qed

lemma record_and_broadcast_settled:
  assumes "settled st" and "orders_ok it"
  obtains st' b where
    "record_and_broadcast ops it st m f ex = (Ok b, st')" "settled st'" "shrinks st st'"
    "history st' = mutex_set (history_record m (guarded (history st))) (history st)"
proof -
  let ?st = "st\<lparr>history := mutex_set (history_record m (guarded (history st))) (history st)\<rparr>"
  have "settled ?st" using assms(1) by (simp add: settled_def server_inv_def healthy_def names_ok_def)
  from broadcast_settled [OF this assms(2), of ops f ex] obtain st' b where
    b: "broadcast ops it ?st f ex = (Ok b, st')" "settled st'" "shrinks ?st st'" "history st' = history ?st"
    by metis
  moreover have "shrinks st st'" using b(3) by (simp add: shrinks_def handles_def)
  moreover have "record_and_broadcast ops it st m f ex = (Ok b, st')"
    using assms(1) b(1) by (simp add: record_and_broadcast_def settled_def server_inv_def healthy_def)
  ultimately show ?thesis using that by simp
qed

subsection \<open>The presence frame\<close>

lemma presence_payload_short:
  assumes "list_all registered_name us" and "length us \<le> MAX_CONNECTIONS"
  shows "length (presence_payload us) \<le> MAX_FRAME_PAYLOAD_BYTES"
proof -
  have "sum_list (map (\<lambda>u. 2 + str_len u) us) \<le> sum_list (map (\<lambda>_. 34) us)"
    by (rule sum_list_mono) (use assms(1) in \<open>auto simp: list_all_iff registered_name_def limits\<close>)
  also have "\<dots> \<le> 34 * 256" using assms(2) by (simp add: sum_list_triv limits)
  finally show ?thesis by (simp add: length_presence_payload limits)
qed

lemma encode_presence_registered:
  assumes "list_all registered_name us" and "length us \<le> MAX_CONNECTIONS"
  shows "encode_presence us =
      Ok (frame_bytes \<lparr>version = CURRENT_PROTOCOL_VERSION, kind = Presence, payload = presence_payload us\<rparr>)"
    and "wf_frame \<lparr>version = CURRENT_PROTOCOL_VERSION, kind = Presence, payload = presence_payload us\<rparr>"
    and "parse_presence (presence_payload us) = Some us"
proof -
  have l: "length us \<le> 65535" using assms(2) by (simp add: limits)
  have ok: "list_all (\<lambda>u. is_valid_username u \<and> str_len u \<le> 65535) us" "list_all presence_user us"
    using assms(1) by (auto simp: list_all_iff registered_name_def presence_user_def limits)
  note short = presence_payload_short [OF assms]
  show "wf_frame \<lparr>version = CURRENT_PROTOCOL_VERSION, kind = Presence, payload = presence_payload us\<rparr>"
    using short by (simp add: wf_frame_def)
  from short obtain bs where "encode_frame Presence (presence_payload us) = Ok bs" using encode_frame_Ok_iff by blast
  then show "encode_presence us =
      Ok (frame_bytes \<lparr>version = CURRENT_PROTOCOL_VERSION, kind = Presence, payload = presence_payload us\<rparr>)"
    using encode_presence_Ok [OF l ok(1)] by (simp add: frame_bytes_def)
  show "parse_presence (presence_payload us) = Some us" using l ok(2) by (rule parse_presence_payload)
qed

lemma usernames_settled:
  assumes "settled st" and "iteration iter"
  obtains us where "usernames iter st = (Ok us, st)" "list_all registered_name us" "length us \<le> MAX_CONNECTIONS"
    "mset us = shown_names st"
proof -
  let ?cs = "concat (hm_values iter (sessions st))" and ?us = "List.map_filter cs_username (concat (hm_values iter (sessions st)))"
  have r: "registry_inv (next_token st) (guarded (clients st))" and h: "healthy st"
    using settledD(1) [OF assms(1)] by (simp_all add: server_inv_def)
  have wf: "hm_wf (sessions st)" using r by (rule registry_invD(1))
  have perm: "mset ?cs = mset (concat (map snd (sessions st)))" using wf assms(2) by (rule flatten_perm)
  show ?thesis
  proof (rule that [of ?us])
    show "usernames iter st = (Ok ?us, st)" using h by (simp add: usernames_def healthy_def)
    have "set ?cs = (\<Union>a. set (hm_or [] a (sessions st)))"
      using mset_eq_setD [OF perm] set_flatten [OF wf] by simp
    then show "list_all registered_name ?us"
      using settledD(3) [OF assms(1)] by (auto simp: list_all_iff set_map_filter names_ok_def)
    have "length ?us \<le> length ?cs" by (simp add: List.map_filter_def)
    also have "\<dots> = total (guarded (clients st))"
      using arg_cong [OF perm, of size] registry_invD(3) [OF r] by (simp add: length_flatten)
    finally show "length ?us \<le> MAX_CONNECTIONS" using registry_invD(6) [OF r] by simp
    show "mset ?us = shown_names st" unfolding shown_names_def using perm by (rule mset_map_filter)
  qed
qed

lemma prune_settled:
  assumes "settled st" and "orders_ok it"
  obtains st' where
    "prune_overloaded_clients ops it st = (Ok (), st')" "settled st'" "shrinks st st'" "same_rest st st'"
    "\<And>a. hm_or [] a (outboxes st') = filter (\<lambda>d. \<not> is_overloaded ops (channels st) d) (hm_or [] a (outboxes st))"
proof -
  let ?over = "is_overloaded ops (channels st)"
  let ?ds = "map (\<lambda>d. (cd_addr d, cd_token d))
      (filter ?over (concat (hm_values (deliveries_order it) (outboxes st))))"
  obtain st' where
    d: "drop_doomed st ?ds = (Ok (), st')" "settled st'" "shrinks st st'" "same_rest st st'"
    and o: "\<And>b. hm_or [] b (outboxes st') = filter (\<lambda>d. (b, cd_token d) \<notin> set ?ds) (hm_or [] b (outboxes st))"
    by (rule drop_doomed_settled [OF assms(1), of ?ds], rule that)
  have dinv: "delivery_inv (outboxes st)" and wf: "hm_wf (outboxes st)"
    using settledD(1) [OF assms(1)] by (simp_all add: server_inv_def delivery_inv_def)
  have "set (concat (hm_values (deliveries_order it) (outboxes st))) = (\<Union>a. set (hm_or [] a (outboxes st)))"
    using mset_eq_setD [OF flatten_perm [OF wf]] set_flatten [OF wf] assms(2) by (simp add: orders_ok_def)
  moreover have addr: "cd_addr d = b" if "d \<in> set (hm_or [] b (outboxes st))" for b d
    using delivery_inv_or [OF dinv that] by (simp add: delivery_ok_def)
  ultimately have ds: "(a, t) \<in> set ?ds \<longleftrightarrow> (\<exists>d \<in> set (hm_or [] a (outboxes st)). ?over d \<and> cd_token d = t)" for a t
    by (simp del: set_concat add: image_iff) (metis UN_I UN_E addr UNIV_I)
  have "filter (\<lambda>d. (a, cd_token d) \<notin> set ?ds) (hm_or [] a (outboxes st)) =
      filter (\<lambda>d. \<not> ?over d) (hm_or [] a (outboxes st))" for a
    unfolding ds using outbox_tokens_distinct [OF settledD(1) [OF assms(1)]] by (intro filter_cong) blast+
  with d o that [of st'] show ?thesis
    using settledD(1) [OF assms(1)] by (simp add: prune_overloaded_clients_def server_inv_def healthy_def)
qed

text \<open>Presence is sent to everyone after the overloaded clients are gone, and lists exactly the
  names of the clients registered at that moment.\<close>

lemma broadcast_presence_settled:
  assumes "settled st" and "orders_ok it"
  obtains st1 us st' b where
    "prune_overloaded_clients ops it st = (Ok (), st1)" "settled st1"
    "mset us = shown_names st1" "list_all registered_name us" "length us \<le> MAX_CONNECTIONS"
    "broadcast ops it st1
       (frame_bytes \<lparr>version = CURRENT_PROTOCOL_VERSION, kind = Presence, payload = presence_payload us\<rparr>) None = (Ok b, st')"
    "broadcast_presence ops it st = (Ok (), st')" "settled st'" "shrinks st st'" "history st' = history st"
proof -
  from prune_settled [OF assms, of ops] obtain st1 where
    p: "prune_overloaded_clients ops it st = (Ok (), st1)" "settled st1" "shrinks st st1" "same_rest st st1"
    by metis
  have it: "iteration (clients_order it)" using assms(2) by (simp add: orders_ok_def)
  from usernames_settled [OF p(2) it] obtain us where
    u: "usernames (clients_order it) st1 = (Ok us, st1)" "list_all registered_name us"
      "length us \<le> MAX_CONNECTIONS" "mset us = shown_names st1" by metis
  let ?f = "frame_bytes \<lparr>version = CURRENT_PROTOCOL_VERSION, kind = Presence, payload = presence_payload us\<rparr>"
  from broadcast_settled [OF p(2) assms(2), of ops ?f None] obtain st' b where
    b: "broadcast ops it st1 ?f None = (Ok b, st')" "settled st'" "shrinks st1 st'" "history st' = history st1"
    by metis
  have "broadcast_presence ops it st = (Ok (), st')"
    using p(1) u(1) b(1) encode_presence_registered(1) [OF u(2,3)] by (simp add: broadcast_presence_def)
  with p u b shrinks_trans that [of st1 us b st'] show ?thesis by (auto simp: same_rest_def)
qed

subsection \<open>Queued messages reach the channel in order\<close>

context mpsc
begin

lemma flush_room:
  "\<not> is_closed ops w \<Longrightarrow> length (queued w) + length ms \<le> capacity w \<Longrightarrow>
   \<exists>w'. flush_pending ops w ms = (Sent, w', []) \<and> queued w' = queued w @ ms \<and> capacity w' = capacity w \<and>
     \<not> is_closed ops w'"
proof (induction ms arbitrary: w)
  case (Cons m ms)
  from Cons.prems obtain w1 where w1: "try_send ops w m = (Sent, w1)" "queued w1 = queued w @ [m]"
    "capacity w1 = capacity w" "\<not> is_closed ops w1"
    using send_free [of w m] by auto
  from Cons.IH [OF w1(4)] Cons.prems w1 obtain w' where
    "flush_pending ops w1 ms = (Sent, w', [])" "queued w' = queued w1 @ ms" "capacity w' = capacity w1"
    "\<not> is_closed ops w'" by auto
  with w1 show ?case by simp
qed simp

lemma flush_order:
  "flush_pending ops w ms = (status, w', rest) \<Longrightarrow> \<exists>sent. ms = sent @ rest \<and> queued w' = queued w @ sent"
proof (induction ms arbitrary: w)
  case (Cons m ms)
  consider (free) w1 where "try_send ops w m = (Sent, w1)" "queued w1 = queued w @ [m]"
    | (stuck) "try_send ops w m = (Full, w)" | (gone) "try_send ops w m = (Closed, w)"
    using send_free [of w m] send_full [of w m] send_closed [of w m] by (cases "is_closed ops w") force+
  then show ?case
  proof cases
    case free
    with Cons.prems Cons.IH [of w1] show ?thesis by auto
  qed (use Cons.prems in auto)
qed simp

end

subsection \<open>Properties\<close>

lemma one_client_settled: "settled one_client"
  by (auto simp: settled_def one_client_simps own_channels_def names_ok_def hm_or_def)

text \<open>
  Pruning removes exactly the overloaded clients: ready clients whose writer is gone and
  waiting clients with too much pending. It never fails, and touches nothing else.
\<close>

lemma prune_removes_overloaded:
  assumes "settled st" and "orders_ok it"
  shows "\<exists>st'. prune_overloaded_clients ops it st = (Ok (), st') \<and> settled st' \<and>
    (\<forall>a. hm_or [] a (outboxes st') = filter (\<lambda>d. \<not> is_overloaded ops (channels st) d) (hm_or [] a (outboxes st))) \<and>
    channels st' = channels st \<and> history st' = history st"
proof -
  obtain st' where "prune_overloaded_clients ops it st = (Ok (), st')" "settled st'" "same_rest st st'"
    "\<And>a. hm_or [] a (outboxes st') = filter (\<lambda>d. \<not> is_overloaded ops (channels st) d) (hm_or [] a (outboxes st))"
    by (rule prune_settled [OF assms, of ops], rule that)
  then show ?thesis by (auto simp: same_rest_def)
qed

text \<open>
  C20. A presence update never fails: the frame it encodes lists exactly the names of the clients
  that are registered after pruning, a client decodes it back to these names, and it is
  broadcast to everyone.
\<close>

theorem presence_always_sent:
  assumes "settled st" and "orders_ok it"
  shows "\<exists>st1 us bs p b st'. prune_overloaded_clients ops it st = (Ok (), st1) \<and>
    mset us = shown_names st1 \<and> encode_presence us = Ok bs \<and>
    decode_frame bs = Ok (Some \<lparr>version = CURRENT_PROTOCOL_VERSION, kind = Presence, payload = p\<rparr>, []) \<and>
    parse_presence p = Some us \<and>
    broadcast ops it st1 bs None = (Ok b, st') \<and>
    broadcast_presence ops it st = (Ok (), st') \<and> settled st' \<and> history st' = history st"
proof -
  obtain st1 us st' b where p: "prune_overloaded_clients ops it st = (Ok (), st1)"
    "mset us = shown_names st1" and u: "list_all registered_name us" "length us \<le> MAX_CONNECTIONS"
    and b: "broadcast ops it st1
       (frame_bytes \<lparr>version = CURRENT_PROTOCOL_VERSION, kind = Presence, payload = presence_payload us\<rparr>) None = (Ok b, st')"
    "broadcast_presence ops it st = (Ok (), st')" "settled st'" "history st' = history st"
    by (rule broadcast_presence_settled [OF assms, of ops], rule that)
  note e = encode_presence_registered [OF u]
  have "decode_frame (frame_bytes \<lparr>version = CURRENT_PROTOCOL_VERSION, kind = Presence, payload = presence_payload us\<rparr>) =
      Ok (Some \<lparr>version = CURRENT_PROTOCOL_VERSION, kind = Presence, payload = presence_payload us\<rparr>, [])"
    using decode_frame_wf [OF e(2), of "[]"] by simp
  with p b e show ?thesis by metis
qed

theorem presence_always_sent_witness:
  "\<exists>st'. broadcast_presence bounded_ops \<lparr>clients_order = rev, deliveries_order = rev\<rparr> one_client = (Ok (), st')"
proof -
  have "orders_ok \<lparr>clients_order = rev, deliveries_order = rev\<rparr>" by (simp add: orders_ok_def)
  from presence_always_sent [OF one_client_settled this, of bounded_ops] show ?thesis by blast
qed

end
