(* ===== verification/Rate_Limit.thy ===== *)
theory Rate_Limit
  imports Server_Types
begin

section \<open>The message rate limiter\<close>

text \<open>
  \<^verbatim>\<open>allow_message\<close> and \<^verbatim>\<open>cleanup_rate_limits\<close> of \<^verbatim>\<open>state.rs\<close>: a token bucket per IP address, refilled
  at ten tokens a second up to twenty. Time is in nanoseconds; \<^verbatim>\<open>Instant::duration_since\<close>
  saturates at zero, as the subtraction of naturals does. A floating-point operation is the
  exact operation followed by a rounding \<open>rnd\<close>, which is a parameter: the locale
  \<open>f64_rounding\<close> states what IEEE 754 binary64 gives of it.
\<close>

definition MESSAGE_RATE_PER_SECOND :: rat where
  [limits]: "MESSAGE_RATE_PER_SECOND = 10"

definition MESSAGE_BURST_SIZE :: rat where
  [limits]: "MESSAGE_BURST_SIZE = 20"

definition RATE_LIMIT_IDLE_EXPIRY :: nat where
  [limits]: "RATE_LIMIT_IDLE_EXPIRY = 60 * 10 ^ 9"

text \<open>\<^verbatim>\<open>Duration::as_secs_f64\<close>.\<close>

definition as_secs_f64 :: "(rat \<Rightarrow> rat) \<Rightarrow> nat \<Rightarrow> rat" where
  "as_secs_f64 rnd d = rnd (rnd (of_nat (d div 10 ^ 9)) + rnd (of_nat (d mod 10 ^ 9) / 10 ^ 9))"

text \<open>The tokens of a bucket after the refill at \<open>now\<close>.\<close>

definition refill :: "(rat \<Rightarrow> rat) \<Rightarrow> nat \<Rightarrow> rate_limit_state \<Rightarrow> rat" where
  "refill rnd now limiter =
     min (rnd (tokens limiter +
               rnd (as_secs_f64 rnd (now - last_refill limiter) * MESSAGE_RATE_PER_SECOND)))
         MESSAGE_BURST_SIZE"

definition limiter_of :: "nat \<Rightarrow> ip_addr \<Rightarrow> (ip_addr, rate_limit_state) hash_map \<Rightarrow> rate_limit_state" where
  "limiter_of now ip m = hm_or \<lparr>tokens = MESSAGE_BURST_SIZE, last_refill = now\<rparr> ip m"

definition allow_message ::
  "(rat \<Rightarrow> rat) \<Rightarrow> nat \<Rightarrow> 'w server_state \<Rightarrow> socket_addr \<Rightarrow> (unit, server_error) result \<times> 'w server_state"
where
  "allow_message rnd now st sender_addr =
     (if poisoned (rate_limits st) then (Err ClientStatePoisoned, st)
      else
        let m = guarded (rate_limits st);
            t = refill rnd now (limiter_of now (addr_ip sender_addr) m);
            store = (\<lambda>t. st\<lparr>rate_limits :=
              mutex_set (hm_insert (addr_ip sender_addr) \<lparr>tokens = t, last_refill = now\<rparr> m) (rate_limits st)\<rparr>)
        in if t < 1 then (Err MessageRateLimitExceeded, store t)
           else (Ok (), store (rnd (t - 1))))"

definition cleanup_rate_limits ::
  "nat \<Rightarrow> 'w server_state \<Rightarrow> (unit, server_error) result \<times> 'w server_state"
where
  "cleanup_rate_limits now st =
     (if poisoned (rate_limits st) then (Err ClientStatePoisoned, st)
      else
        (Ok (), st\<lparr>rate_limits := mutex_set
           (hm_retain (\<lambda>_ limiter. now - last_refill limiter < RATE_LIMIT_IDLE_EXPIRY)
              (guarded (rate_limits st))) (rate_limits st)\<rparr>))"

subsection \<open>Rounding\<close>

text \<open>
  Rounding is monotone, exact on the integers up to \<open>2 ^ 53\<close>, and never more than the factor
  \<open>1 + eps\<close> above a non-negative value.
\<close>

locale f64_rounding =
  fixes rnd :: "rat \<Rightarrow> rat"
    and eps :: rat
  assumes rnd_mono: "x \<le> y \<Longrightarrow> rnd x \<le> rnd y"
    and rnd_nat: "n \<le> 2 ^ 53 \<Longrightarrow> rnd (of_nat n) = of_nat n"
    and rnd_err: "0 \<le> x \<Longrightarrow> rnd x \<le> (1 + eps) * x"
    and eps_nonneg: "0 \<le> eps"
begin

lemma rnd_0: "rnd 0 = 0"
  using rnd_nat [of 0] by simp

lemma rnd_20: "rnd 20 = 20"
  using rnd_nat [of 20] by simp

lemma rnd_2: "rnd 2 = 2"
  using rnd_nat [of 2] by simp

lemma rnd_nonneg: "0 \<le> x \<Longrightarrow> 0 \<le> rnd x"
  using rnd_mono [of 0 x] by (simp add: rnd_0)

lemma as_secs_nonneg: "0 \<le> as_secs_f64 rnd d"
  unfolding as_secs_f64_def by (intro rnd_nonneg add_nonneg_nonneg) simp_all

lemma as_secs_le: "as_secs_f64 rnd d \<le> (1 + eps) ^ 2 * (of_nat d / 10 ^ 9)"
proof -
  let ?s = "of_nat (d div 10 ^ 9) :: rat" and ?n = "of_nat (d mod 10 ^ 9) / 10 ^ 9 :: rat"
  have "?s + ?n = of_nat (d div 10 ^ 9 * 10 ^ 9 + d mod 10 ^ 9) / 10 ^ 9"
    by (simp only: of_nat_add of_nat_mult add_divide_distrib) simp
  then have sum: "?s + ?n = of_nat d / 10 ^ 9" by (simp only: div_mult_mod_eq)
  have "rnd ?s + rnd ?n \<le> (1 + eps) * (?s + ?n)"
    using rnd_err [of ?s] rnd_err [of ?n] by (simp add: distrib_left)
  moreover have "0 \<le> rnd ?s + rnd ?n" by (simp add: rnd_nonneg)
  ultimately have "as_secs_f64 rnd d \<le> (1 + eps) * ((1 + eps) * (?s + ?n))"
    unfolding as_secs_f64_def
    using rnd_err [of "rnd ?s + rnd ?n"] mult_left_mono [of "rnd ?s + rnd ?n" _ "1 + eps"] eps_nonneg
    by (meson add_nonneg_nonneg order_trans zero_le_one)
  then show ?thesis by (simp only: sum power2_eq_square mult.assoc)
qed

lemma as_secs_ge_2: "2 * 10 ^ 9 \<le> d \<Longrightarrow> 2 \<le> as_secs_f64 rnd d"
proof -
  assume "2 * 10 ^ 9 \<le> d"
  then have "2 \<le> d div 10 ^ 9" by simp
  then have "2 \<le> rnd (of_nat (d div 10 ^ 9))"
    using rnd_mono [of 2 "of_nat (d div 10 ^ 9)"] rnd_2 of_nat_mono [of 2 "d div 10 ^ 9", where 'a = rat] by simp
  moreover have "0 \<le> rnd (of_nat (d mod 10 ^ 9) / 10 ^ 9)" by (simp add: rnd_nonneg)
  ultimately show ?thesis
    unfolding as_secs_f64_def using rnd_mono [of 2] rnd_2 by (metis add_increasing2 order.refl order.trans)
qed

lemma refill_nonneg: "0 \<le> tokens l \<Longrightarrow> 0 \<le> refill rnd now l"
  unfolding refill_def limits
  by (auto intro!: rnd_nonneg add_nonneg_nonneg as_secs_nonneg)

lemma refill_le_burst: "refill rnd now l \<le> 20"
  by (simp add: refill_def MESSAGE_BURST_SIZE_def)

lemma refill_fresh: "tokens l = 20 \<Longrightarrow> refill rnd now l = 20"
proof -
  assume t: "tokens l = 20"
  let ?e = "rnd (as_secs_f64 rnd (now - last_refill l) * 10)"
  have "0 \<le> ?e" by (intro rnd_nonneg mult_nonneg_nonneg as_secs_nonneg) simp
  then have "20 \<le> rnd (20 + ?e)" using rnd_mono [of 20 "20 + ?e"] rnd_20 by simp
  then show ?thesis by (simp add: refill_def limits t)
qed

text \<open>Two idle seconds fill the bucket.\<close>

lemma refill_idle:
  assumes "0 \<le> tokens l" and "2 * 10 ^ 9 \<le> now - last_refill l"
  shows "refill rnd now l = 20"
proof -
  let ?s = "as_secs_f64 rnd (now - last_refill l)"
  have "20 \<le> ?s * 10" using as_secs_ge_2 [OF assms(2)] by simp
  then have "20 \<le> rnd (?s * 10)" using rnd_mono [of 20 "?s * 10"] rnd_20 by simp
  with assms(1) have "20 \<le> tokens l + rnd (?s * 10)" by simp
  then have "20 \<le> rnd (tokens l + rnd (?s * 10))" using rnd_mono rnd_20 by metis
  then show ?thesis by (simp add: refill_def limits)
qed

lemma refill_upper:
  assumes "0 \<le> tokens l" and "tokens l \<le> 20"
  shows "refill rnd now l \<le>
    tokens l + 20 * eps + (1 + eps) ^ 4 * 10 * (of_nat (now - last_refill l) / 10 ^ 9)"
proof -
  let ?d = "of_nat (now - last_refill l) / 10 ^ 9 :: rat"
  let ?s = "as_secs_f64 rnd (now - last_refill l)" and ?q = "1 + eps"
  have q: "0 \<le> ?q" using eps_nonneg by simp
  have "rnd (?s * 10) \<le> ?q * (?s * 10)" by (rule rnd_err) (simp add: as_secs_nonneg)
  also have "\<dots> \<le> ?q * (?q ^ 2 * ?d * 10)"
    by (rule mult_left_mono) (use as_secs_le [of "now - last_refill l"] q in \<open>auto simp: mult_ac\<close>)
  also have "\<dots> = ?q ^ 3 * 10 * ?d"
    by (simp only: power2_eq_square power3_eq_cube mult.assoc mult.commute [of ?d])
  finally have r: "rnd (?s * 10) \<le> ?q ^ 3 * 10 * ?d" .
  have "rnd (tokens l + rnd (?s * 10)) \<le> ?q * (tokens l + rnd (?s * 10))"
    by (rule rnd_err) (simp add: assms(1) rnd_nonneg as_secs_nonneg)
  also have "\<dots> \<le> ?q * (tokens l + ?q ^ 3 * 10 * ?d)"
    by (rule mult_left_mono) (use r q in auto)
  also have "\<dots> = tokens l + eps * tokens l + ?q ^ 4 * 10 * ?d"
    by (simp add: distrib_left distrib_right power4_eq_xxxx power3_eq_cube mult_ac)
  also have "\<dots> \<le> tokens l + 20 * eps + ?q ^ 4 * 10 * ?d"
    using mult_left_mono [OF assms(2) eps_nonneg] by (simp add: mult.commute)
  finally show ?thesis by (simp add: refill_def limits min.coboundedI1)
qed

end

lemma exact_rounding: "f64_rounding (\<lambda>x. x) 0"
  by unfold_locales simp_all

interpretation exact: f64_rounding "\<lambda>x. x" 0
  by (rule exact_rounding)

subsection \<open>Invariant and frame\<close>

definition rate_inv :: "'w server_state \<Rightarrow> bool" where
  "rate_inv st \<longleftrightarrow>
     hm_wf (guarded (rate_limits st)) \<and>
     (\<forall>ip l. hm_get ip (guarded (rate_limits st)) = Some l \<longrightarrow> 0 \<le> tokens l \<and> tokens l \<le> 20)"

abbreviation bucket :: "'w server_state \<Rightarrow> socket_addr \<Rightarrow> rate_limit_state option" where
  "bucket st a \<equiv> hm_get (addr_ip a) (guarded (rate_limits st))"

text \<open>Outside the limiter map nothing changes, and of the map only the sender's entry.\<close>

lemma allow_message_frame:
  "clients (snd (allow_message rnd now st a)) = clients st"
  "deliveries (snd (allow_message rnd now st a)) = deliveries st"
  "history (snd (allow_message rnd now st a)) = history st"
  "replay_barrier (snd (allow_message rnd now st a)) = replay_barrier st"
  "channels (snd (allow_message rnd now st a)) = channels st"
  "signals (snd (allow_message rnd now st a)) = signals st"
  "next_token (snd (allow_message rnd now st a)) = next_token st"
  "poisoned (rate_limits (snd (allow_message rnd now st a))) = poisoned (rate_limits st)"
  by (simp_all add: allow_message_def Let_def)

lemma allow_message_other_ip:
  "addr_ip b \<noteq> addr_ip a \<Longrightarrow> bucket (snd (allow_message rnd now st a)) b = bucket st b"
  by (simp add: allow_message_def Let_def)

lemma allow_message_no_panic: "fst (allow_message rnd now st a) \<noteq> Panic"
  by (simp add: allow_message_def Let_def)

context f64_rounding
begin

lemma limiter_of_bounds:
  assumes "rate_inv st"
  shows "0 \<le> tokens (limiter_of now ip (guarded (rate_limits st)))"
    and "tokens (limiter_of now ip (guarded (rate_limits st))) \<le> 20"
  using assms by (auto simp: limiter_of_def hm_or_def rate_inv_def limits split: option.splits)

lemma rnd_pred:
  assumes "1 \<le> t" "t \<le> 20"
  shows "0 \<le> rnd (t - 1)" "rnd (t - 1) \<le> 20" "rnd (t - 1) \<le> t - 1 + 20 * eps"
proof -
  show "0 \<le> rnd (t - 1)" using assms by (simp add: rnd_nonneg)
  show "rnd (t - 1) \<le> 20" using rnd_mono [of "t - 1" 20] assms rnd_20 by simp
  have "rnd (t - 1) \<le> (1 + eps) * (t - 1)" using assms by (intro rnd_err) simp
  also have "\<dots> = (t - 1) + eps * (t - 1)" by (simp add: distrib_right)
  also have "\<dots> \<le> t - 1 + 20 * eps"
    using mult_left_mono [of "t - 1" 20 eps] assms eps_nonneg by (simp add: mult.commute)
  finally show "rnd (t - 1) \<le> t - 1 + 20 * eps" .
qed

lemma allow_message_inv:
  assumes "rate_inv st"
  shows "rate_inv (snd (allow_message rnd now st a))"
proof -
  let ?t = "refill rnd now (limiter_of now (addr_ip a) (guarded (rate_limits st)))"
  have "0 \<le> ?t" "?t \<le> 20"
    using refill_nonneg limiter_of_bounds [OF assms] refill_le_burst by auto
  moreover from this have "1 \<le> ?t \<Longrightarrow> 0 \<le> rnd (?t - 1) \<and> rnd (?t - 1) \<le> 20" using rnd_pred by blast
  ultimately show ?thesis
    using assms by (auto simp: rate_inv_def allow_message_def Let_def not_less)
qed

text \<open>One call: what it leaves in the bucket, and how much the bucket pays for it.\<close>

lemma allow_message_step:
  assumes inv: "rate_inv st" and ok: "\<not> poisoned (rate_limits st)"
  obtains l where "bucket (snd (allow_message rnd now st a)) a = Some l" "last_refill l = now"
    "0 \<le> tokens l" "tokens l \<le> 20"
    "tokens l + (if fst (allow_message rnd now st a) = Ok () then 1 else 0) \<le>
       refill rnd now (limiter_of now (addr_ip a) (guarded (rate_limits st))) + 20 * eps"
proof -
  define r where "r = allow_message rnd now st a"
  define t where "t = refill rnd now (limiter_of now (addr_ip a) (guarded (rate_limits st)))"
  note that = that [folded r_def t_def]
  have t: "0 \<le> t" "t \<le> 20"
    unfolding t_def using refill_nonneg limiter_of_bounds [OF inv] refill_le_burst by auto
  show ?thesis
  proof (cases "t < 1")
    case True
    then have "r = (Err MessageRateLimitExceeded, st\<lparr>rate_limits := mutex_set
        (hm_insert (addr_ip a) \<lparr>tokens = t, last_refill = now\<rparr> (guarded (rate_limits st))) (rate_limits st)\<rparr>)"
      using ok by (simp add: r_def t_def allow_message_def Let_def)
    with t eps_nonneg show ?thesis by (intro that [of "\<lparr>tokens = t, last_refill = now\<rparr>"]) auto
  next
    case False
    then have "r = (Ok (), st\<lparr>rate_limits := mutex_set
        (hm_insert (addr_ip a) \<lparr>tokens = rnd (t - 1), last_refill = now\<rparr> (guarded (rate_limits st))) (rate_limits st)\<rparr>)"
      using ok by (simp add: r_def t_def allow_message_def Let_def)
    with t False rnd_pred [of t] show ?thesis
      by (intro that [of "\<lparr>tokens = rnd (t - 1), last_refill = now\<rparr>"]) auto
  qed
qed

end

subsection \<open>Sequences of messages\<close>

text \<open>The messages of one address at the given times: how many are accepted.\<close>

fun allow_run :: "(rat \<Rightarrow> rat) \<Rightarrow> socket_addr \<Rightarrow> nat list \<Rightarrow> 'w server_state \<Rightarrow> nat \<times> 'w server_state" where
  "allow_run rnd a [] st = (0, st)"
| "allow_run rnd a (now # ts) st =
     (let (r, st') = allow_message rnd now st a; (n, st'') = allow_run rnd a ts st'
      in (if r = Ok () then Suc n else n, st''))"

lemma allow_run_Cons:
  "fst (allow_run rnd a (now # ts) st) =
     (if fst (allow_message rnd now st a) = Ok () then 1 else 0) +
     fst (allow_run rnd a ts (snd (allow_message rnd now st a)))"
  by (auto simp: Let_def split: prod.splits)

context f64_rounding
begin

lemma allow_run_after:
  assumes "rate_inv st" "\<not> poisoned (rate_limits st)" "bucket st a = Some l"
    "sorted (last_refill l # ts)" "\<forall>t \<in> set ts. t \<le> tmax" "last_refill l \<le> tmax"
  shows "of_nat (fst (allow_run rnd a ts st)) \<le>
    tokens l + 40 * eps * of_nat (length ts) + (1 + eps) ^ 4 * 10 * (of_nat (tmax - last_refill l) / 10 ^ 9)"
  using assms
proof (induction ts arbitrary: st l)
  case Nil
  have "0 \<le> tokens l" using Nil.prems(1,3) by (auto simp: rate_inv_def)
  moreover have "0 \<le> (1 + eps) ^ 4 * 10 * (of_nat (tmax - last_refill l) / 10 ^ 9)"
    using eps_nonneg by simp
  ultimately show ?case by simp
next
  case (Cons now ts)
  let ?r = "allow_message rnd now st a" and ?K = "(1 + eps) ^ 4 * 10"
  let ?acc = "if fst ?r = Ok () then 1 else 0 :: rat"
  have lim: "limiter_of now (addr_ip a) (guarded (rate_limits st)) = l"
    using Cons.prems(3) by (simp add: limiter_of_def hm_or_def)
  have bounds: "0 \<le> tokens l" "tokens l \<le> 20" using Cons.prems(1,3) by (auto simp: rate_inv_def)
  from allow_message_step [OF Cons.prems(1,2), of a now] obtain l' where
    l': "bucket (snd ?r) a = Some l'" "last_refill l' = now"
    and pay: "tokens l' + ?acc \<le> refill rnd now l + 20 * eps" unfolding lim by metis
  have IH: "of_nat (fst (allow_run rnd a ts (snd ?r))) \<le>
      tokens l' + 40 * eps * of_nat (length ts) + ?K * (of_nat (tmax - now) / 10 ^ 9)"
    using Cons.IH [OF allow_message_inv [OF Cons.prems(1)] _ l'(1)] Cons.prems(2,4,5) l'(2)
    by (simp add: allow_message_frame)
  have "last_refill l \<le> now" "now \<le> tmax" using Cons.prems(4,5) by auto
  then have "of_nat (tmax - last_refill l) = of_nat (tmax - now) + (of_nat (now - last_refill l) :: rat)"
    by (simp flip: of_nat_add)
  then have time: "?K * (of_nat (tmax - last_refill l) / 10 ^ 9) =
      ?K * (of_nat (tmax - now) / 10 ^ 9) + ?K * (of_nat (now - last_refill l) / 10 ^ 9)"
    by (simp add: add_divide_distrib distrib_left)
  have n: "40 * eps * of_nat (length (now # ts)) = 40 * eps * of_nat (length ts) + 40 * eps"
    by (simp add: algebra_simps)
  have "of_nat (fst (allow_run rnd a (now # ts) st)) = ?acc + of_nat (fst (allow_run rnd a ts (snd ?r)))"
    by (simp only: allow_run_Cons) simp
  then show ?case
    using IH pay refill_upper [OF bounds, of now] time n eps_nonneg by linarith
qed

lemma allow_run_window:
  assumes "rate_inv st" "\<not> poisoned (rate_limits st)" "sorted (t0 # ts)" "\<forall>t \<in> set ts. t \<le> tmax" "t0 \<le> tmax"
  shows "of_nat (fst (allow_run rnd a ts st)) \<le>
    20 + 40 * eps * of_nat (length ts) + (1 + eps) ^ 4 * 10 * (of_nat (tmax - t0) / 10 ^ 9)"
proof (cases ts)
  case Nil
  have "0 \<le> (1 + eps) ^ 4 * 10 * (of_nat (tmax - t0) / 10 ^ 9)" using eps_nonneg by simp
  with Nil show ?thesis by simp
next
  case (Cons now ts')
  let ?r = "allow_message rnd now st a" and ?K = "(1 + eps) ^ 4 * 10"
  let ?acc = "if fst ?r = Ok () then 1 else 0 :: rat"
  from allow_message_step [OF assms(1,2), of a now] obtain l' where
    l': "bucket (snd ?r) a = Some l'" "last_refill l' = now"
    and pay: "tokens l' + ?acc \<le> refill rnd now (limiter_of now (addr_ip a) (guarded (rate_limits st))) + 20 * eps"
    by metis
  have IH: "of_nat (fst (allow_run rnd a ts' (snd ?r))) \<le>
      tokens l' + 40 * eps * of_nat (length ts') + ?K * (of_nat (tmax - now) / 10 ^ 9)"
    using allow_run_after [OF allow_message_inv [OF assms(1)] _ l'(1)] assms(2,3,4) l'(2) Cons
    by (simp add: allow_message_frame)
  have "tmax - now \<le> tmax - t0" using assms(3) Cons by auto
  then have "?K * (of_nat (tmax - now) / 10 ^ 9) \<le> ?K * (of_nat (tmax - t0) / 10 ^ 9)"
    by (intro mult_left_mono divide_right_mono of_nat_mono) (use eps_nonneg in auto)
  moreover have "40 * eps * of_nat (length ts) = 40 * eps * of_nat (length ts') + 40 * eps"
    by (simp add: Cons algebra_simps)
  moreover have "of_nat (fst (allow_run rnd a ts st)) = ?acc + of_nat (fst (allow_run rnd a ts' (snd ?r)))"
    by (simp only: Cons allow_run_Cons) simp
  ultimately show ?thesis
    using IH pay refill_le_burst [of now "limiter_of now (addr_ip a) (guarded (rate_limits st))"] eps_nonneg
    by linarith
qed

end

subsection \<open>Cleanup is not observable\<close>

lemma cleanup_rate_limits_inv: "rate_inv st \<Longrightarrow> rate_inv (snd (cleanup_rate_limits now st))"
  by (auto simp: rate_inv_def cleanup_rate_limits_def hm_get_retain split: option.splits if_splits)

context f64_rounding
begin

text \<open>A bucket the cleanup drops would be full at any later call, exactly like a new one.\<close>

lemma refill_after_cleanup:
  assumes "rate_inv st" "\<not> poisoned (rate_limits st)" "now \<le> now'"
  shows "refill rnd now' (limiter_of now' ip (guarded (rate_limits (snd (cleanup_rate_limits now st))))) =
         refill rnd now' (limiter_of now' ip (guarded (rate_limits st)))"
proof (cases "hm_get ip (guarded (rate_limits st))")
  case None
  with assms show ?thesis
    by (simp add: limiter_of_def hm_or_def cleanup_rate_limits_def hm_get_retain rate_inv_def)
next
  case (Some l)
  show ?thesis
  proof (cases "now - last_refill l < RATE_LIMIT_IDLE_EXPIRY")
    case True
    with Some assms show ?thesis
      by (simp add: limiter_of_def hm_or_def cleanup_rate_limits_def hm_get_retain rate_inv_def)
  next
    case False
    have "refill rnd now' l = 20"
    proof (rule refill_idle)
      show "0 \<le> tokens l" using assms(1) Some by (auto simp: rate_inv_def)
      show "2 * 10 ^ 9 \<le> now' - last_refill l" using False assms(3) by (simp add: limits)
    qed
    moreover have "limiter_of now' ip (guarded (rate_limits (snd (cleanup_rate_limits now st)))) =
        \<lparr>tokens = 20, last_refill = now'\<rparr>"
      using Some False assms
      by (simp add: limiter_of_def hm_or_def cleanup_rate_limits_def hm_get_retain rate_inv_def limits)
    ultimately show ?thesis using Some by (simp add: limiter_of_def hm_or_def refill_fresh)
  qed
qed

lemma allow_message_after_cleanup:
  assumes "rate_inv st" "\<not> poisoned (rate_limits st)" "now \<le> now'"
  shows "fst (allow_message rnd now' (snd (cleanup_rate_limits now st)) a) = fst (allow_message rnd now' st a)"
    and "bucket (snd (allow_message rnd now' (snd (cleanup_rate_limits now st)) a)) a =
         bucket (snd (allow_message rnd now' st a)) a"
proof -
  have p: "poisoned (rate_limits (snd (cleanup_rate_limits now st))) = False"
    using assms(2) by (simp add: cleanup_rate_limits_def)
  show "fst (allow_message rnd now' (snd (cleanup_rate_limits now st)) a) = fst (allow_message rnd now' st a)"
    "bucket (snd (allow_message rnd now' (snd (cleanup_rate_limits now st)) a)) a =
         bucket (snd (allow_message rnd now' st a)) a"
    unfolding allow_message_def Let_def refill_after_cleanup [OF assms] p using assms(2) by auto
qed

end

subsection \<open>Properties\<close>

text \<open>
  C19. In any window of time one address gets at most a burst of 20 messages plus 10 per second
  through the limiter, up to the rounding error of the floating-point computation (with \<open>eps\<close> the
  relative error of one operation, about \<open>2 ^ -53\<close>).
\<close>

theorem rate_limit_window:
  assumes "f64_rounding rnd eps" and "rate_inv st" and "\<not> poisoned (rate_limits st)"
    and "sorted (t0 # ts)" and "\<forall>t \<in> set ts. t \<le> tmax" and "t0 \<le> tmax"
  shows "of_nat (fst (allow_run rnd a ts st)) \<le>
    20 + 40 * eps * of_nat (length ts) + (1 + eps) ^ 4 * 10 * (of_nat (tmax - t0) / 10 ^ 9)"
  using assms by (rule f64_rounding.allow_run_window)

theorem rate_limit_window_witness:
  "fst (allow_run (\<lambda>x. x) (SocketV4 1 2) (replicate 50 1000000000) (new_shared_state (\<lambda>_. bounded_new 1))) \<le> (30 :: nat)"
proof -
  have "rate_inv (new_shared_state (\<lambda>_. bounded_new 1))" "\<not> poisoned (rate_limits (new_shared_state (\<lambda>_. bounded_new 1)))"
    by (simp_all add: rate_inv_def new_shared_state_def hm_empty_def)
  from rate_limit_window [OF exact_rounding this, of 0 "replicate 50 1000000000" 1000000000 "SocketV4 1 2"]
  have "(of_nat (fst (allow_run (\<lambda>x. x) (SocketV4 1 2) (replicate 50 1000000000) (new_shared_state (\<lambda>_. bounded_new 1)))) :: rat) \<le> of_nat 30"
    by simp
  then show ?thesis unfolding of_nat_le_iff .
qed

text \<open>
  Dropping the buckets of idle addresses is invisible: a later message is accepted or refused
  as it would have been without the cleanup, and leaves the same bucket.
\<close>

lemma cleanup_invisible:
  assumes "f64_rounding rnd eps" and "rate_inv st" and "\<not> poisoned (rate_limits st)" and "now \<le> now'"
  shows "fst (allow_message rnd now' (snd (cleanup_rate_limits now st)) a) = fst (allow_message rnd now' st a) \<and>
    bucket (snd (allow_message rnd now' (snd (cleanup_rate_limits now st)) a)) a =
      bucket (snd (allow_message rnd now' st a)) a"
  using f64_rounding.allow_message_after_cleanup [OF assms(1) assms(2-4)] by blast

text \<open>
  The limiter keeps every bucket between empty and full, touches no other part of the state
  and no other address's bucket, and its only answers are acceptance and the rate-limit error.
\<close>

lemma allow_message_contained:
  assumes "f64_rounding rnd eps" and "rate_inv st" and "\<not> poisoned (rate_limits st)"
  shows "rate_inv (snd (allow_message rnd now st a)) \<and>
    fst (allow_message rnd now st a) \<in> {Ok (), Err MessageRateLimitExceeded} \<and>
    (snd (allow_message rnd now st a))\<lparr>rate_limits := rate_limits st\<rparr> = st \<and>
    (\<forall>b. addr_ip b \<noteq> addr_ip a \<longrightarrow> bucket (snd (allow_message rnd now st a)) b = bucket st b)"
  using f64_rounding.allow_message_inv [OF assms(1,2), of now a] allow_message_other_ip [of _ a rnd now st] assms(3)
  by (simp add: allow_message_def Let_def)

end
