(* ===== verification/Connection.thy ===== *)
theory Connection
  imports Async_Frame Presence_Facts Rate_Limit
begin

section \<open>A connection\<close>

text \<open>
  \<^verbatim>\<open>ConnectionHandler\<close> and \<^verbatim>\<open>outbound_writer\<close> of \<^verbatim>\<open>connection.rs\<close>. A connection's task is modelled
  together with what the other tasks do while it waits: each \<open>turn\<close> of its loop carries the
  effect on the shared state of the tasks that ran during the \<^verbatim>\<open>select!\<close> (\<open>waited\<close>) and during the
  simulated latency (\<open>slept\<close>), whether the disconnect signal won the \<^verbatim>\<open>select!\<close>, and the clock
  readings of the turn. A call into \<^verbatim>\<open>state.rs\<close> is one step. A loop runs for as many turns as
  are given, and its result is \<open>None\<close> when it is still running after them. The \<^verbatim>\<open>joined\<close> flag that
  the handler sets and the writer task reads is passed to the writer with each message.
\<close>

subsection \<open>Replaying the history\<close>

fun send_lines :: "'w chan_ops \<Rightarrow> ustr list \<Rightarrow> 'w \<Rightarrow> (unit, server_error) result \<times> 'w" where
  "send_lines ops [] w = (Ok (), w)"
| "send_lines ops (message # lines) w =
     (case encode_frame Chat (as_bytes message) of
        Err _ \<Rightarrow> (Err MessageTooLong, w)
      | Panic \<Rightarrow> (Panic, w)
      | Ok frame \<Rightarrow>
          (case try_send ops w frame of
             (Sent, w) \<Rightarrow> send_lines ops lines w
           | (Full, w) \<Rightarrow> (Err OutboundQueueFull, w)
           | (Closed, w) \<Rightarrow> (Err OutboundWriterGone, w)))"

definition send_message_history ::
  "'w chan_ops \<Rightarrow> 'w server_state \<Rightarrow> socket_addr \<Rightarrow> token \<Rightarrow> (unit, server_error) result \<times> 'w server_state"
where
  "send_message_history ops st address tok =
     with_history_replay st address tok (\<lambda>writer hist st.
       let (r, w) = send_lines ops hist (channels st writer) in
       seq (r, st\<lparr>channels := (channels st)(writer := w)\<rparr>) (\<lambda>_ st. mark_client_ready ops st address tok))"

subsection \<open>Leaving\<close>

definition leave_line :: "ustr \<Rightarrow> ustr" where
  "leave_line username = username @ lit '' has left the chat'' @ [0x0A]"

definition finish_session ::
  "'w chan_ops \<Rightarrow> map_orders \<Rightarrow> 'w server_state \<Rightarrow> socket_addr \<Rightarrow> ustr \<Rightarrow> token \<Rightarrow> bool \<Rightarrow>
     (unit, server_error) result \<times> 'w server_state"
where
  "finish_session ops it st sender_addr username tok announce_leave =
     seq (remove_client_if_current st sender_addr tok) (\<lambda>removed st.
       if \<not> removed then (Ok (), st)
       else if \<not> announce_leave then (Ok (), st)
       else
         let leave = leave_line username in
         (case encode_frame Chat (as_bytes (trim_end leave)) of
            Err _ \<Rightarrow> (Err MessageTooLong, st)
          | Panic \<Rightarrow> (Panic, st)
          | Ok frame \<Rightarrow>
              seq (record_and_broadcast ops it st leave frame None) (\<lambda>_ st. broadcast_presence ops it st)))"

subsection \<open>Serving an authenticated client\<close>

definition join_line :: "ustr \<Rightarrow> ustr" where
  "join_line username = lit ''@'' @ username @ lit '' has entered the chat. Say hello!'' @ [0x0A]"

text \<open>\<^verbatim>\<open>if record_and_broadcast(..)? { broadcast_presence(..)? }\<close>.\<close>

definition publish ::
  "'w chan_ops \<Rightarrow> map_orders \<Rightarrow> 'w server_state \<Rightarrow> ustr \<Rightarrow> bytes \<Rightarrow> (unit, server_error) result \<times> 'w server_state"
where
  "publish ops it st message frame =
     seq (record_and_broadcast ops it st message frame None) (\<lambda>dropped st.
       if dropped then broadcast_presence ops it st else (Ok (), st))"

definition announce_join ::
  "'w chan_ops \<Rightarrow> map_orders \<Rightarrow> 'w server_state \<Rightarrow> socket_addr \<Rightarrow> ustr \<Rightarrow> token \<Rightarrow>
     (unit, server_error) result \<times> 'w server_state"
where
  "announce_join ops it st sender_addr username tok =
     seq (send_message_history ops st sender_addr tok) (\<lambda>_ st.
     seq (broadcast_presence ops it st) (\<lambda>_ st.
       let join_message = join_line username in
       (case encode_frame Chat (as_bytes (trim_end join_message)) of
          Err _ \<Rightarrow> (Err MessageTooLong, st)
        | Panic \<Rightarrow> (Panic, st)
        | Ok frame \<Rightarrow> publish ops it st join_message frame)))"

record 'w turn =
  waited :: "'w server_state \<Rightarrow> 'w server_state"
  signalled :: bool
  clock :: nat
  slept :: "'w server_state \<Rightarrow> 'w server_state"
  hour_minute :: ustr

text \<open>The body of the loop after a frame was read.\<close>

definition handle_frame ::
  "'w chan_ops \<Rightarrow> map_orders \<Rightarrow> (rat \<Rightarrow> rat) \<Rightarrow> nat \<Rightarrow> 'w turn \<Rightarrow> 'w server_state \<Rightarrow> socket_addr \<Rightarrow> ustr \<Rightarrow>
     frame \<Rightarrow> (unit, server_error) result \<times> 'w server_state"
where
  "handle_frame ops it rnd latency t st sender_addr username f =
     (if kind f \<noteq> Chat then (Err InvalidFrameType, st)
      else if length (payload f) > MAX_CHAT_MESSAGE_BYTES then (Err MessageTooLong, st)
      else
        (case from_utf8 (payload f) of
           None \<Rightarrow> (Err InvalidUtf8, st)
         | Some content \<Rightarrow>
             if trim content = [] then (Ok (), st)
             else
               seq (allow_message rnd (clock t) st sender_addr) (\<lambda>_ st.
                 let st = (if latency \<noteq> 0 then slept t st else st);
                     message = format_chat_message username (hour_minute t) content in
                 (case encode_frame Chat (as_bytes message) of
                    Err _ \<Rightarrow> (Err MessageTooLong, st)
                  | Panic \<Rightarrow> (Panic, st)
                  | Ok frame \<Rightarrow> publish ops it st message frame))))"

type_synonym ('r, 'w) running = "(unit, server_error) result option \<times> 'r \<times> 'w server_state"

fun session_loop ::
  "'w chan_ops \<Rightarrow> 'r read_ops \<Rightarrow> map_orders \<Rightarrow> (rat \<Rightarrow> rat) \<Rightarrow> nat \<Rightarrow> 'w turn list \<Rightarrow> 'r \<Rightarrow> 'w server_state \<Rightarrow>
     socket_addr \<Rightarrow> ustr \<Rightarrow> ('r, 'w) running"
where
  "session_loop ops rd it rnd latency [] r st sender_addr username = (None, r, st)"
| "session_loop ops rd it rnd latency (t # ts) r st sender_addr username =
     (let st = waited t st in
      if signalled t then (Some (Ok ()), r, st)
      else
        (case read_async_frame rd r of
           (Err e, r) \<Rightarrow> (Some (Err e), r, st)
         | (Panic, r) \<Rightarrow> (Some Panic, r, st)
         | (Ok None, r) \<Rightarrow> (Some (Ok ()), r, st)
         | (Ok (Some f), r) \<Rightarrow>
             (case handle_frame ops it rnd latency t st sender_addr username f of
                (Ok _, st) \<Rightarrow> session_loop ops rd it rnd latency ts r st sender_addr username
              | (e, st) \<Rightarrow> (Some e, r, st))))"

text \<open>\<^verbatim>\<open>serve_authenticated\<close>; the second component is \<^verbatim>\<open>*joined\<close> when it returns.\<close>

definition serve_authenticated ::
  "'w chan_ops \<Rightarrow> 'r read_ops \<Rightarrow> map_orders \<Rightarrow> (rat \<Rightarrow> rat) \<Rightarrow> nat \<Rightarrow> 'w turn list \<Rightarrow> 'r \<Rightarrow> 'w server_state \<Rightarrow>
     socket_addr \<Rightarrow> ustr \<Rightarrow> token \<Rightarrow> bool \<times> ('r, 'w) running"
where
  "serve_authenticated ops rd it rnd latency ts r st sender_addr username tok =
     (case announce_join ops it st sender_addr username tok of
        (Ok _, st) \<Rightarrow>
          (True,
           case session_loop ops rd it rnd latency ts r st sender_addr username of
             (Some (Ok _), r, st) \<Rightarrow>
               (case finish_session ops it st sender_addr username tok True of (e, st) \<Rightarrow> (Some e, r, st))
           | out \<Rightarrow> out)
      | (e, st) \<Rightarrow> (False, Some e, r, st))"

text \<open>
  \<^verbatim>\<open>serve\<close>. The handshake runs under a timeout; \<open>None\<close> for its outcome is the timeout. \<open>writer\<close> and
  \<open>disconnect\<close> are the channel and the watch channel created for the connection, \<open>fresh\<close> the new
  channel itself. A failure after the handshake removes the client.
\<close>

definition register_named ::
  "'w server_state \<Rightarrow> socket_addr \<Rightarrow> chan_id \<Rightarrow> watch_id \<Rightarrow> ustr \<Rightarrow> (token, server_error) result \<times> 'w server_state"
where
  "register_named st sender_addr writer disconnect username =
     seq (register_pending_client st sender_addr writer disconnect) (\<lambda>tok st.
       case set_client_username st sender_addr tok username of
         (Ok _, st) \<Rightarrow> (Ok tok, st)
       | (Panic, st) \<Rightarrow> (Panic, st)
       | (Err e, st) \<Rightarrow>
           (case remove_client_if_current st sender_addr tok of
              (Panic, st) \<Rightarrow> (Panic, st)
            | (_, st) \<Rightarrow> (Err e, st)))"

definition serve ::
  "'w chan_ops \<Rightarrow> 'r read_ops \<Rightarrow> map_orders \<Rightarrow> (rat \<Rightarrow> rat) \<Rightarrow> nat \<Rightarrow> bool \<Rightarrow> 'w \<Rightarrow> chan_id \<Rightarrow> watch_id \<Rightarrow>
     'w turn list \<Rightarrow> 'r \<Rightarrow> 'w server_state \<Rightarrow> socket_addr \<Rightarrow> ('r, 'w) running"
where
  "serve ops rd it rnd latency timed_out fresh writer disconnect ts r st sender_addr =
     (if timed_out then (Some (Err (ServerIo TimedOut)), r, st)
      else
        (case read_handshake_username rd r of
           (Panic, r) \<Rightarrow> (Some Panic, r, st)
         | (Err e, r) \<Rightarrow> (Some (Err e), r, st)
         | (Ok username, r) \<Rightarrow>
             (case register_named (st\<lparr>channels := (channels st)(writer := fresh)\<rparr>)
                     sender_addr writer disconnect username of
                (Panic, st) \<Rightarrow> (Some Panic, r, st)
              | (Err e, st) \<Rightarrow> (Some (Err e), r, st)
              | (Ok tok, st) \<Rightarrow>
                  (case serve_authenticated ops rd it rnd latency ts r st sender_addr username tok of
                     (joined, Some (Err e), r, st) \<Rightarrow>
                       (case finish_session ops it st sender_addr username tok joined of
                          (Panic, st) \<Rightarrow> (Some Panic, r, st)
                        | (_, st) \<Rightarrow> (Some (Err e), r, st))
                   | (joined, out) \<Rightarrow> out))))"

subsection \<open>The writer task\<close>

text \<open>What one write ended in; \<open>None\<close> is the timeout. \<open>meanwhile\<close> is the work of other tasks while
  this one waited for a message and for the socket.\<close>

record 'w written =
  message :: bytes
  outcome :: "(unit, error_kind) result option"
  meanwhile :: "'w server_state \<Rightarrow> 'w server_state"
  joined :: bool

definition writer_stopped ::
  "'w chan_ops \<Rightarrow> map_orders \<Rightarrow> 'w server_state \<Rightarrow> socket_addr \<Rightarrow> token \<Rightarrow> ustr \<Rightarrow> bool \<Rightarrow> (unit, server_error) result \<times> 'w server_state"
where
  "writer_stopped ops it st address tok username has_joined =
     (case remove_client_if_current st address tok of
        (Panic, st) \<Rightarrow> (Panic, st)
      | (Err _, st) \<Rightarrow> (Ok (), st)
      | (Ok False, st) \<Rightarrow> (Ok (), st)
      | (Ok True, st) \<Rightarrow>
          (case
             (if has_joined then
                let leave = leave_line username in
                (case encode_frame Chat (as_bytes (trim_end leave)) of
                   Ok frame \<Rightarrow>
                     (case record_and_broadcast ops it st leave frame None of
                        (Panic, st) \<Rightarrow> (Panic, st)
                      | (_, st) \<Rightarrow> (Ok (), st))
                 | _ \<Rightarrow> (Ok (), st))
              else (Ok () :: (unit, server_error) result, st)) of
             (Panic, st) \<Rightarrow> (Panic, st)
           | (_, st) \<Rightarrow>
               (case broadcast_presence ops it st of
                  (Panic, st) \<Rightarrow> (Panic, st)
                | (_, st) \<Rightarrow> (Ok (), st))))"

fun outbound_writer ::
  "'w chan_ops \<Rightarrow> map_orders \<Rightarrow> 'w written list \<Rightarrow> 'w server_state \<Rightarrow> socket_addr \<Rightarrow> token \<Rightarrow> ustr \<Rightarrow>
     bytes list \<times> (unit, server_error) result \<times> 'w server_state"
where
  "outbound_writer ops it [] st address tok username = ([], Ok (), st)"
| "outbound_writer ops it (m # ms) st address tok username =
     (let st = meanwhile m st in
      case outcome m of
        Some (Ok _) \<Rightarrow>
          (case outbound_writer ops it ms st address tok username of (sent, out) \<Rightarrow> (message m # sent, out))
      | _ \<Rightarrow> ([], writer_stopped ops it st address tok username (joined m)))"

end
