(* ===== verification/Connection_Facts.thy ===== *)
theory Connection_Facts
  imports Connection
begin

section \<open>Facts about a connection\<close>

text \<open>
  A connection task keeps the shared state \<open>sound\<close>, never panics, never finds a lock poisoned and
  never fails to encode a line, provided that the tasks it shares the state with keep it sound
  as well. The replay of the history fits the outbound queue, and a session that has ended has
  removed its client.
\<close>

subsection \<open>Lines\<close>

definition short_line :: "ustr \<Rightarrow> bool" where
  "short_line l \<longleftrightarrow> str_len l \<le> MAX_FRAME_PAYLOAD_BYTES"

definition chat_bytes :: "ustr \<Rightarrow> bytes" where
  "chat_bytes l = frame_bytes \<lparr>version = CURRENT_PROTOCOL_VERSION, kind = Chat, payload = as_bytes l\<rparr>"

lemma encode_short: "short_line l \<Longrightarrow> encode_frame Chat (as_bytes l) = Ok (chat_bytes l)"
proof -
  assume "short_line l"
  then obtain bs where "encode_frame Chat (as_bytes l) = Ok bs"
    using encode_frame_Ok_iff [of Chat "as_bytes l"] by (auto simp: short_line_def)
  then show ?thesis by (simp add: chat_bytes_def frame_bytes_def)
qed

lemma short_trim_end: "short_line l \<Longrightarrow> short_line (trim_end l)"
  using str_len_sublist [OF trim_end_sublist [of l]] by (simp add: short_line_def)

lemma short_trim_newline: "short_line l \<Longrightarrow> short_line (trim_end_matches c l)"
  using str_len_sublist [OF trim_end_matches_sublist [of c l]] by (simp add: short_line_def)

lemma short_announcements:
  assumes "str_len u \<le> MAX_USERNAME_BYTES"
  shows "short_line (join_line u)" "short_line (leave_line u)"
  using assms str_len_lit_le [of "'' has entered the chat. Say hello!''"] str_len_lit_le [of "'' has left the chat''"]
  by (simp_all add: short_line_def join_line_def leave_line_def limits str_len_lit len_utf8_def)

lemma short_message:
  assumes "str_len u \<le> MAX_USERNAME_BYTES" "str_len c \<le> MAX_CHAT_MESSAGE_BYTES" "str_len t = 5"
  shows "short_line (format_chat_message u t c)"
  using assms by (simp add: short_line_def format_chat_message_def limits str_len_lit)

subsection \<open>The shared state between steps\<close>

definition sound :: "'w server_state \<Rightarrow> bool" where
  "sound st \<longleftrightarrow>
     settled st \<and> history_ok (guarded (history st)) \<and> limit (guarded (history st)) = MESSAGE_HISTORY_LIMIT \<and>
     list_all short_line (retained st)"

lemma sound_settled: "sound st \<Longrightarrow> settled st"
  by (simp add: sound_def)

lemma sound_same_history: "sound st \<Longrightarrow> settled st' \<Longrightarrow> history st' = history st \<Longrightarrow> sound st'"
  by (simp add: sound_def)

lemma sound_record:
  assumes "sound st" "settled st'" "short_line m"
    and "history st' = mutex_set (history_record m (guarded (history st))) (history st)"
  shows "sound st'"
proof -
  have "set (entries (history_record m (guarded (history st)))) \<subseteq> insert (trim_end_matches 0x0A m) (set (retained st))"
    by (auto simp: history_record_def Let_def dest: list.set_sel(2))
       (metis (no_types, lifting) Un_iff empty_iff insert_iff list.sel(2) list.set(1) list.set(2) list.set_sel(2) set_append)
  with assms show ?thesis
    by (auto simp: sound_def history_record_ok list_all_iff short_trim_newline)
qed

lemma remove_sound:
  assumes "sound st"
  obtains st' where
    "remove_client_if_current st a tok = (Ok ((a, tok) \<in> members st), st')" "sound st'" "shrinks st st'"
    "members st' = members st - {(a, tok)}"
proof -
  obtain st' where r: "remove_client_if_current st a tok = (Ok ((a, tok) \<in> members st), st')" "settled st'" "shrinks st st'"
    "same_rest st st'" "members st' = members st - {(a, tok)}"
    by (rule remove_settled [OF sound_settled [OF assms]], rule that)
  with sound_same_history [OF assms, of st'] show ?thesis by (intro that [of st']) (simp_all add: same_rest_def)
qed

lemma broadcast_presence_sound:
  assumes "sound st" "orders_ok it"
  obtains st' where "broadcast_presence ops it st = (Ok (), st')" "sound st'" "shrinks st st'" "history st' = history st"
proof -
  obtain st' where "broadcast_presence ops it st = (Ok (), st')" "settled st'" "shrinks st st'" "history st' = history st"
    by (rule broadcast_presence_settled [OF sound_settled [OF assms(1)] assms(2), of ops], rule that)
  with sound_same_history [OF assms(1), of st'] show ?thesis by (intro that [of st']) simp_all
qed

lemma record_and_broadcast_sound:
  assumes "sound st" "orders_ok it" "short_line m"
  obtains st' b where
    "record_and_broadcast ops it st m f ex = (Ok b, st')" "sound st'" "shrinks st st'"
    "history st' = mutex_set (history_record m (guarded (history st))) (history st)"
proof -
  obtain st' b where r: "record_and_broadcast ops it st m f ex = (Ok b, st')" "settled st'" "shrinks st st'"
    "history st' = mutex_set (history_record m (guarded (history st))) (history st)"
    by (rule record_and_broadcast_settled [OF sound_settled [OF assms(1)] assms(2), of ops m f ex], rule that)
  with sound_record [OF assms(1) r(2) assms(3) r(4)] that show ?thesis by blast
qed

text \<open>A line is recorded once and sent to every client; clients that cannot take it leave.\<close>

lemma publish_sound:
  assumes "sound st" "orders_ok it" "short_line m"
  obtains st' where "publish ops it st m f = (Ok (), st')" "sound st'" "shrinks st st'"
    "history st' = mutex_set (history_record m (guarded (history st))) (history st)"
proof -
  obtain st1 b where r: "record_and_broadcast ops it st m f None = (Ok b, st1)" "sound st1" "shrinks st st1"
    "history st1 = mutex_set (history_record m (guarded (history st))) (history st)"
    by (rule record_and_broadcast_sound [OF assms, of ops f None], rule that)
  obtain st2 where "broadcast_presence ops it st1 = (Ok (), st2)" "sound st2" "shrinks st1 st2" "history st2 = history st1"
    by (rule broadcast_presence_sound [OF r(2) assms(2), of ops], rule that)
  with r shrinks_trans [OF r(3)] that show ?thesis by (cases b) (auto simp: publish_def)
qed

lemma allow_message_sound:
  assumes "sound st"
  shows "sound (snd (allow_message rnd now st a))" "members (snd (allow_message rnd now st a)) = members st"
    "fst (allow_message rnd now st a) = Ok () \<or> fst (allow_message rnd now st a) = Err MessageRateLimitExceeded"
proof -
  have "settled (snd (allow_message rnd now st a))"
    using assms unfolding sound_def settled_def server_inv_def healthy_def names_ok_def
    by (simp add: allow_message_frame)
  then show "sound (snd (allow_message rnd now st a))"
    by (rule sound_same_history [OF assms]) (simp add: allow_message_frame)
  show "members (snd (allow_message rnd now st a)) = members st" by (simp add: members_def allow_message_frame)
  have "\<not> poisoned (rate_limits st)" using assms by (simp add: sound_def settled_def server_inv_def healthy_def)
  then show "fst (allow_message rnd now st a) = Ok () \<or> fst (allow_message rnd now st a) = Err MessageRateLimitExceeded"
    by (simp add: allow_message_def Let_def)
qed

subsection \<open>The replay fits the queue\<close>

context mpsc
begin

lemma send_lines_room:
  "\<not> is_closed ops w \<Longrightarrow> length (queued w) + length ls \<le> capacity w \<Longrightarrow> list_all short_line ls \<Longrightarrow>
   \<exists>w'. send_lines ops ls w = (Ok (), w') \<and> queued w' = queued w @ map chat_bytes ls \<and>
     capacity w' = capacity w \<and> \<not> is_closed ops w'"
proof (induction ls arbitrary: w)
  case (Cons l ls)
  from Cons.prems obtain w1 where w1: "try_send ops w (chat_bytes l) = (Sent, w1)"
    "queued w1 = queued w @ [chat_bytes l]" "capacity w1 = capacity w" "\<not> is_closed ops w1"
    using send_free [of w "chat_bytes l"] by auto
  from Cons.IH [OF w1(4)] Cons.prems w1 obtain w' where
    "send_lines ops ls w1 = (Ok (), w')" "queued w' = queued w1 @ map chat_bytes ls" "capacity w' = capacity w1"
    "\<not> is_closed ops w'" by auto
  with w1 Cons.prems(3) show ?case by (simp add: encode_short)
qed simp

lemma replay_fits:
  assumes sound: "sound st" and d: "find_client a tok (outboxes st) = Some d" and pending: "\<not> cd_ready d"
    and chan: "queued (channels st (cd_writer d)) = []" "capacity (channels st (cd_writer d)) = OUTBOUND_QUEUE_SIZE"
      "\<not> is_closed ops (channels st (cd_writer d))"
  shows "\<exists>st' w. send_message_history ops st a tok = (Ok (), st') \<and>
    st' = st\<lparr>deliveries := mutex_set (update_client a tok (\<lambda>d. d\<lparr>cd_pending := [], cd_ready := True\<rparr>) (outboxes st)) (deliveries st),
             channels := (channels st)(cd_writer d := w)\<rparr> \<and>
    queued w = map chat_bytes (retained st) @ cd_pending d \<and> \<not> is_closed ops w"
proof -
  let ?w = "channels st (cd_writer d)"
  have inv: "server_inv st" and h: "healthy st"
    using sound by (simp_all add: sound_def settled_def server_inv_def)
  have "d \<in> set (hm_or [] a (outboxes st))" using d find_client_iff [OF inv] by simp
  then have "delivery_ok a d"
    using delivery_inv_or inv by (auto simp: server_inv_def)
  then have pend: "length (cd_pending d) \<le> PENDING_MESSAGES_LIMIT" by (simp add: delivery_ok_def)
  have hist: "length (retained st) \<le> MESSAGE_HISTORY_LIMIT" "list_all short_line (retained st)"
    using sound by (auto simp: sound_def history_ok_def)
  from send_lines_room [OF chan(3), of "retained st"] chan hist obtain w1 where
    w1: "send_lines ops (retained st) ?w = (Ok (), w1)" "queued w1 = map chat_bytes (retained st)"
      "capacity w1 = OUTBOUND_QUEUE_SIZE" "\<not> is_closed ops w1"
    by (auto simp: OUTBOUND_QUEUE_SIZE_def)
  from flush_room [OF w1(4), of "cd_pending d"] w1 pend hist obtain w2 where
    w2: "flush_pending ops w1 (cd_pending d) = (Sent, w2, [])" "queued w2 = queued w1 @ cd_pending d" "\<not> is_closed ops w2"
    by (auto simp: OUTBOUND_QUEUE_SIZE_def)
  have "mark_client_ready ops (st\<lparr>channels := (channels st)(cd_writer d := w1)\<rparr>) a tok =
    (Ok (), st\<lparr>deliveries := mutex_set (update_client a tok (\<lambda>d. d\<lparr>cd_pending := [], cd_ready := True\<rparr>) (outboxes st)) (deliveries st),
             channels := (channels st)(cd_writer d := w2)\<rparr>)"
    using h d w2(1) by (simp add: mark_client_ready_def healthy_def Let_def)
  then have "send_message_history ops st a tok =
    (Ok (), st\<lparr>deliveries := mutex_set (update_client a tok (\<lambda>d. d\<lparr>cd_pending := [], cd_ready := True\<rparr>) (outboxes st)) (deliveries st),
             channels := (channels st)(cd_writer d := w2)\<rparr>)"
    using h d w1(1)
    by (simp add: send_message_history_def with_history_replay_def history_snapshot_unlocked_def healthy_def snapshot_def)
  with w2 w1(2) show ?thesis by auto
qed

end

subsection \<open>Steps of a session\<close>

text \<open>What the tasks that run meanwhile are relied on to do.\<close>

definition sound_step :: "('w server_state \<Rightarrow> 'w server_state) \<Rightarrow> bool" where
  "sound_step f \<longleftrightarrow> (\<forall>st. sound st \<longrightarrow> sound (f st))"

definition turn_ok :: "'w turn \<Rightarrow> bool" where
  "turn_ok t \<longleftrightarrow> sound_step (waited t) \<and> sound_step (slept t) \<and> str_len (hour_minute t) = 5"

definition no_read_panic :: "'r read_ops \<Rightarrow> bool" where
  "no_read_panic rd \<longleftrightarrow> (\<forall>n r. fst (op_read rd n r) \<noteq> Panic \<and> fst (op_read_exact rd n r) \<noteq> Panic)"

lemma read_async_frame_no_panic: "no_read_panic rd \<Longrightarrow> fst (read_async_frame rd r) \<noteq> Panic"
  by (auto simp: read_async_frame_def no_read_panic_def Let_def split: result.splits prod.splits)
     (metis fst_conv frame_type_try_from_no_panic)+

lemma read_handshake_no_panic: "no_read_panic rd \<Longrightarrow> fst (read_handshake_username rd r) \<noteq> Panic"
  using read_async_frame_no_panic [of rd r]
  by (auto simp: read_handshake_username_def split: result.splits prod.splits option.splits server_error.splits)

lemma handle_frame_sound:
  assumes "sound st" "orders_ok it" "turn_ok t" "registered_name u"
  obtains e st' where "handle_frame ops it rnd latency t st a u f = (e, st')" "sound st'"
    "e = Ok () \<or> e \<in> Err ` {InvalidFrameType, MessageTooLong, InvalidUtf8, MessageRateLimitExceeded}"
proof -
  note d = handle_frame_def [of ops it rnd latency t st a u f]
  consider (kind) "kind f \<noteq> Chat" | (long) "kind f = Chat" "length (payload f) > MAX_CHAT_MESSAGE_BYTES"
    | (utf8) "kind f = Chat" "length (payload f) \<le> MAX_CHAT_MESSAGE_BYTES" "from_utf8 (payload f) = None"
    | (blank) c where "kind f = Chat" "length (payload f) \<le> MAX_CHAT_MESSAGE_BYTES" "from_utf8 (payload f) = Some c" "trim c = []"
    | (chat) c where "kind f = Chat" "length (payload f) \<le> MAX_CHAT_MESSAGE_BYTES" "from_utf8 (payload f) = Some c" "trim c \<noteq> []"
    by (cases "kind f = Chat"; cases "length (payload f) \<le> MAX_CHAT_MESSAGE_BYTES"; cases "from_utf8 (payload f)") auto
  then show ?thesis
  proof cases
    case (chat c)
    have "length (as_bytes c) \<le> MAX_CHAT_MESSAGE_BYTES" using chat from_utf8_SomeD(1) by simp
    then have short: "short_line (format_chat_message u (hour_minute t) c)"
      using assms(3,4) by (intro short_message) (auto simp: registered_name_def turn_ok_def)
    obtain x st1 where al: "allow_message rnd (clock t) st a = (x, st1)" by (cases "allow_message rnd (clock t) st a")
    with allow_message_sound [OF assms(1), of rnd "clock t" a] have
      s1: "sound st1" "x = Ok () \<or> x = Err MessageRateLimitExceeded" by simp_all
    let ?st2 = "if latency \<noteq> 0 then slept t st1 else st1"
    have "sound ?st2" using s1(1) assms(3) by (auto simp: turn_ok_def sound_step_def)
    from this assms(2) short obtain st3 where
      "publish ops it ?st2 (format_chat_message u (hour_minute t) c)
        (chat_bytes (format_chat_message u (hour_minute t) c)) = (Ok (), st3)" "sound st3"
      by (rule publish_sound [where ops = ops]) (rule that)
    with s1 al chat short show ?thesis
      using that by (auto simp: d Let_def encode_short)
  qed (use assms(1) that in \<open>auto simp: d\<close>)
qed

lemma session_loop_sound:
  assumes "sound st" "orders_ok it" "list_all turn_ok ts" "registered_name u" "no_read_panic rd"
  shows "sound (snd (snd (session_loop ops rd it rnd latency ts r st a u))) \<and>
    fst (session_loop ops rd it rnd latency ts r st a u) \<noteq> Some Panic"
  using assms(1,3)
proof (induction ts arbitrary: r st)
  case (Cons t ts)
  let ?st = "waited t st"
  have st: "sound ?st" and t: "turn_ok t" using Cons.prems by (auto simp: turn_ok_def sound_step_def)
  obtain x r1 where rd: "read_async_frame rd r = (x, r1)" by (cases "read_async_frame rd r")
  have np: "x \<noteq> Panic" using read_async_frame_no_panic [OF assms(5), of r] rd by simp
  show ?case
  proof (cases "\<not> signalled t \<and> (\<exists>f. x = Ok (Some f))")
    case True
    then obtain f where f: "x = Ok (Some f)" by blast
    obtain e st1 where h: "handle_frame ops it rnd latency t ?st a u f = (e, st1)" "sound st1"
      "e = Ok () \<or> e \<in> Err ` {InvalidFrameType, MessageTooLong, InvalidUtf8, MessageRateLimitExceeded}"
      by (rule handle_frame_sound [OF st assms(2) t assms(4), of ops rnd latency a f], rule that)
    with True f rd Cons.IH [OF h(2)] Cons.prems(2) show ?thesis by (auto simp: Let_def)
  next
    case False
    with np rd st show ?thesis by (cases x) (auto simp: Let_def split: option.splits)
  qed
qed simp

lemma finish_session_sound:
  assumes "sound st" "orders_ok it" "registered_name u"
  obtains st' where "finish_session ops it st a u tok announce = (Ok (), st')" "sound st'" "shrinks st st'"
    "(a, tok) \<notin> members st'"
    "history st' = (if announce \<and> (a, tok) \<in> members st
       then mutex_set (history_record (leave_line u) (guarded (history st))) (history st) else history st)"
proof -
  obtain st1 where r: "remove_client_if_current st a tok = (Ok ((a, tok) \<in> members st), st1)" "sound st1" "shrinks st st1"
    "members st1 = members st - {(a, tok)}" "history st1 = history st"
  proof -
    obtain st1 where "remove_client_if_current st a tok = (Ok ((a, tok) \<in> members st), st1)" "settled st1" "shrinks st st1"
      "same_rest st st1" "members st1 = members st - {(a, tok)}"
      by (rule remove_settled [OF sound_settled [OF assms(1)]], rule that)
    then show ?thesis using that sound_same_history [OF assms(1), of st1] by (simp add: same_rest_def)
  qed
  show ?thesis
  proof (cases "announce \<and> (a, tok) \<in> members st")
    case False
    with r show ?thesis by (intro that [of st1]) (auto simp: finish_session_def)
  next
    case True
    have short: "short_line (leave_line u)" using assms(3) short_announcements by (simp add: registered_name_def)
    obtain st2 b where b: "record_and_broadcast ops it st1 (leave_line u) (chat_bytes (trim_end (leave_line u))) None = (Ok b, st2)"
      "sound st2" "shrinks st1 st2" "history st2 = mutex_set (history_record (leave_line u) (guarded (history st1))) (history st1)"
      by (rule record_and_broadcast_sound [OF r(2) assms(2) short], rule that)
    obtain st3 where p: "broadcast_presence ops it st2 = (Ok (), st3)" "sound st3" "shrinks st2 st3" "history st3 = history st2"
      by (rule broadcast_presence_sound [OF b(2) assms(2), of ops], rule that)
    have sh: "shrinks st1 st3" using b(3) p(3) by (rule shrinks_trans)
    have "(a, tok) \<notin> members st3" using shrinks_members [OF sh] r(4) by auto
    with True r b p sh shrinks_trans [OF r(3) sh] encode_short [OF short_trim_end [OF short]] show ?thesis
      by (intro that [of st3]) (simp_all add: finish_session_def Let_def)
  qed
qed

subsection \<open>Joining\<close>

lemma mark_client_ready_frame:
  "clients (snd (mark_client_ready ops st a tok)) = clients st"
  "history (snd (mark_client_ready ops st a tok)) = history st"
  "\<exists>f. (\<forall>d. cd_writer (f d) = cd_writer d) \<and>
     outboxes (snd (mark_client_ready ops st a tok)) = update_client a tok f (outboxes st)"
proof -
  let ?Q = "\<lambda>st'. clients st' = clients st \<and> history st' = history st \<and>
     (\<exists>f. (\<forall>d. cd_writer (f d) = cd_writer d) \<and> outboxes st' = update_client a tok f (outboxes st))"
  have id: "update_client a tok (\<lambda>d. d) (outboxes st) = outboxes st"
  proof -
    have "update_first P (\<lambda>d. d) ds = ds" for P and ds :: "client_delivery list" by (induction ds) auto
    then show ?thesis by (auto simp: update_client_def hm_insert_same split: option.splits)
  qed
  have "?Q (snd (mark_client_ready ops st a tok))"
  proof (cases "find_client a tok (outboxes st)")
    case None
    with id show ?thesis by (auto simp: mark_client_ready_def intro!: exI [of _ "\<lambda>d. d"])
  next
    case (Some d)
    obtain status w rest where "flush_pending ops (channels st (cd_writer d)) (cd_pending d) = (status, w, rest)"
      by (cases rule: prod_cases3)
    with Some id show ?thesis
      by (cases status) (auto simp: mark_client_ready_def Let_def
          intro: exI [of _ "\<lambda>d. d\<lparr>cd_pending := rest\<rparr>"] exI [of _ "\<lambda>d. d\<lparr>cd_pending := [], cd_ready := True\<rparr>"]
            exI [of _ "\<lambda>d. d"])
  qed
  then show "clients (snd (mark_client_ready ops st a tok)) = clients st"
    "history (snd (mark_client_ready ops st a tok)) = history st"
    "\<exists>f. (\<forall>d. cd_writer (f d) = cd_writer d) \<and>
       outboxes (snd (mark_client_ready ops st a tok)) = update_client a tok f (outboxes st)"
    by blast+
qed

lemma own_channels_update:
  assumes "own_channels dl" and f: "\<And>d. cd_writer (f d) = cd_writer d"
  shows "own_channels (update_client a tok f dl)"
proof -
  have eq: "map cd_writer (hm_or [] b (update_client a tok f dl)) = map cd_writer (hm_or [] b dl)" for b
    by (simp add: update_client_or map_update_first f)
  have "cd_writer ` set (hm_or [] b (update_client a tok f dl)) = cd_writer ` set (hm_or [] b dl)" for b
    using arg_cong [OF eq, of set] by simp
  with assms(1) show ?thesis by (simp add: own_channels_def eq)
qed

lemma mark_client_ready_sound:
  assumes "sound st"
  shows "sound (snd (mark_client_ready ops st a tok)) \<and> fst (mark_client_ready ops st a tok) \<noteq> Panic"
proof -
  let ?st' = "snd (mark_client_ready ops st a tok)"
  have set: "settled st" using assms by (rule sound_settled)
  obtain f where "\<And>d. cd_writer (f d) = cd_writer d" "outboxes ?st' = update_client a tok f (outboxes st)"
    using mark_client_ready_frame(3) by blast
  then have "own_channels (outboxes ?st')" using own_channels_update settledD(2) [OF set] by simp
  with mark_client_ready_inv [OF settledD(1) [OF set], of ops a tok] settledD(3) [OF set] have
    "settled ?st'" "fst (mark_client_ready ops st a tok) \<noteq> Panic"
    by (auto simp: settled_def names_ok_def mark_client_ready_frame)
  with sound_same_history [OF assms, of ?st'] show ?thesis by (simp add: mark_client_ready_frame)
qed

lemma send_lines_no_panic: "fst (send_lines ops ls w) \<noteq> Panic"
  by (induction ls arbitrary: w) (auto split: result.splits prod.splits send_status.splits)

lemma sound_channels [simp]: "sound (st\<lparr>channels := chans\<rparr>) = sound st"
  by (simp add: sound_def settled_def server_inv_def healthy_def names_ok_def)

lemma send_message_history_sound:
  assumes "sound st"
  shows "sound (snd (send_message_history ops st a tok)) \<and> fst (send_message_history ops st a tok) \<noteq> Panic"
proof -
  have h: "healthy st" using assms by (simp add: sound_def settled_def server_inv_def)
  show ?thesis
  proof (cases "find_client a tok (outboxes st)")
    case None
    with h assms show ?thesis
      by (simp add: send_message_history_def with_history_replay_def history_snapshot_unlocked_def healthy_def)
  next
    case (Some d)
    obtain r w where sl: "send_lines ops (retained st) (channels st (cd_writer d)) = (r, w)" by fastforce
    let ?st = "st\<lparr>channels := (channels st)(cd_writer d := w)\<rparr>"
    obtain r2 st2 where mr: "mark_client_ready ops ?st a tok = (r2, st2)" by fastforce
    have eq: "send_message_history ops st a tok = under_barrier (seq (r, ?st) (\<lambda>_ st. mark_client_ready ops st a tok))"
      using h Some sl
      by (simp add: send_message_history_def with_history_replay_def history_snapshot_unlocked_def healthy_def snapshot_def)
    have "sound ?st" using assms by simp
    from mark_client_ready_sound [OF this, of ops a tok] mr have "sound st2" "r2 \<noteq> Panic" by auto
    with assms mr send_lines_no_panic [of ops "retained st" "channels st (cd_writer d)"] sl show ?thesis
      unfolding eq by (cases r; cases r2) auto
  qed
qed

lemma announce_join_sound:
  assumes "sound st" "orders_ok it" "registered_name u"
  shows "sound (snd (announce_join ops it st a u tok)) \<and> fst (announce_join ops it st a u tok) \<noteq> Panic"
proof -
  obtain r1 st1 where h: "send_message_history ops st a tok = (r1, st1)" by fastforce
  with send_message_history_sound [OF assms(1), of ops a tok] have s1: "sound st1" "r1 \<noteq> Panic" by auto
  obtain st2 where p: "broadcast_presence ops it st1 = (Ok (), st2)" "sound st2"
    by (rule broadcast_presence_sound [OF s1(1) assms(2), of ops], rule that)
  have short: "short_line (join_line u)" using assms(3) short_announcements by (simp add: registered_name_def)
  obtain st3 where "publish ops it st2 (join_line u) (chat_bytes (trim_end (join_line u))) = (Ok (), st3)" "sound st3"
    by (rule publish_sound [OF p(2) assms(2) short], rule that)
  with h s1 p encode_short [OF short_trim_end [OF short]] show ?thesis
    by (cases r1) (simp_all add: announce_join_def Let_def)
qed

subsection \<open>A whole session\<close>

definition unused_channel :: "chan_id \<Rightarrow> delivery_registry \<Rightarrow> bool" where
  "unused_channel w dl \<longleftrightarrow> (\<forall>a. w \<notin> cd_writer ` set (hm_or [] a dl))"

lemma own_channels_add:
  assumes own: "own_channels dl" and new: "unused_channel (cd_writer d) dl"
    and dl': "\<And>b. hm_or [] b dl' = hm_or [] b dl @ (if b = a then [d] else [])"
  shows "own_channels dl'"
proof -
  have w: "cd_writer ` set (hm_or [] b dl') = (if b = a then {cd_writer d} else {}) \<union> cd_writer ` set (hm_or [] b dl)" for b
    by (auto simp: dl')
  show ?thesis
    unfolding own_channels_def
  proof (intro conjI allI impI)
    show "distinct (map cd_writer (hm_or [] b dl'))" for b
      using own new by (auto simp: dl' own_channels_def unused_channel_def)
    fix b c :: socket_addr assume "b \<noteq> c"
    then have "cd_writer ` set (hm_or [] b dl) \<inter> cd_writer ` set (hm_or [] c dl) = {}"
      using own by (simp add: own_channels_def)
    moreover have "cd_writer d \<notin> cd_writer ` set (hm_or [] b dl)" "cd_writer d \<notin> cd_writer ` set (hm_or [] c dl)"
      using new by (simp_all add: unused_channel_def)
    ultimately show "cd_writer ` set (hm_or [] b dl') \<inter> cd_writer ` set (hm_or [] c dl') = {}"
      using \<open>b \<noteq> c\<close> by (cases "b = a"; cases "c = a") (simp_all add: w)
  qed
qed

lemma register_named_sound:
  assumes "sound st" "unused_channel w (outboxes st)" "registered_name u"
  obtains (refused) "register_named st a w dc u = (Err ConnectionLimitReached, st)"
      "limit_reached (guarded (clients st)) (addr_ip a)"
    | (registered) st' where "register_named st a w dc u = (Ok (next_token st), st')" "sound st'"
      "\<not> limit_reached (guarded (clients st)) (addr_ip a)"
      "members st' = insert (a, next_token st) (members st)" "next_token st' = Suc (next_token st)"
      "history st' = history st" "channels st' = channels st" "signals st' = signals st"
      "find_client a (next_token st) (outboxes st') =
        Some \<lparr>cd_addr = a, cd_token = next_token st, cd_writer = w, cd_disconnect = Some dc, cd_ready = False, cd_pending = []\<rparr>"
proof (cases "limit_reached (guarded (clients st)) (addr_ip a)")
  case True
  have "\<not> poisoned (clients st)" using assms(1) by (simp add: sound_def settled_def server_inv_def healthy_def)
  with True refused show ?thesis
    by (simp add: register_named_def register_pending_client_def register_client_with_status_def)
next
  case free: False
  let ?tok = "next_token st"
  let ?d = "\<lparr>cd_addr = a, cd_token = ?tok, cd_writer = w, cd_disconnect = Some dc, cd_ready = False, cd_pending = []\<rparr>"
  note set = sound_settled [OF assms(1)]
  obtain st1 where r: "register_client_with_status st a w (Some dc) False = (Ok ?tok, st1)"
    and i1: "server_inv st1" "same_rest st st1" "signals st1 = signals st" "next_token st1 = Suc ?tok"
    and s1: "\<And>b. hm_or [] b (sessions st1) = hm_or [] b (sessions st) @
        (if b = a then [\<lparr>cs_token = ?tok, cs_username = None\<rparr>] else [])"
    and o1: "\<And>b. hm_or [] b (outboxes st1) = hm_or [] b (outboxes st) @ (if b = a then [?d] else [])"
    by (rule register_spec [OF settledD(1) [OF set] free, of w "Some dc" False], rule that)
  obtain st2 where u: "set_client_username st1 a ?tok u =
       (if ?tok \<in> cs_token ` set (hm_or [] a (sessions st1)) then Ok () else Err UnknownClient, st2)"
    and i2: "server_inv st2" "same_rest st1 st2" "signals st2 = signals st1" "next_token st2 = next_token st1"
      "deliveries st2 = deliveries st1"
    and s2: "\<And>b. hm_or [] b (sessions st2) =
        (if b = a then update_first (\<lambda>c. cs_token c = ?tok) (\<lambda>c. c\<lparr>cs_username := Some u\<rparr>) (hm_or [] a (sessions st1))
         else hm_or [] b (sessions st1))"
    by (rule set_username_spec [OF i1(1), of a ?tok u], rule that)
  have run: "register_named st a w dc u = (Ok ?tok, st2)"
    using r u by (simp add: register_named_def register_pending_client_def s1)
  have "own_channels (outboxes st2)"
  proof (rule own_channels_add [OF settledD(2) [OF set]])
    show "unused_channel (cd_writer ?d) (outboxes st)" using assms(2) by simp
    show "hm_or [] b (outboxes st2) = hm_or [] b (outboxes st) @ (if b = a then [?d] else [])" for b
      unfolding i2(5) by (rule o1)
  qed
  moreover have "names_ok st2"
    unfolding names_ok_def
  proof (intro allI ballI impI)
    fix b c x assume c: "c \<in> set (hm_or [] b (sessions st2))" "cs_username c = Some x"
    then have "c \<in> set (hm_or [] b (sessions st1)) \<or> x = u"
      unfolding s2 by (auto split: if_splits dest: set_update_first)
    with c(2) settledD(3) [OF set] assms(3) show "registered_name x"
      unfolding s1 by (auto simp: names_ok_def split: if_splits)
  qed
  ultimately have set2: "settled st2" using i2(1) by (simp add: settled_def)
  have hist: "history st2 = history st" "channels st2 = channels st"
    using i1(2) i2(2) by (simp_all add: same_rest_def)
  have toks: "cs_token ` set (hm_or [] b (sessions st2)) = cs_token ` set (hm_or [] b (sessions st1))" for b
  proof -
    have "map cs_token (hm_or [] b (sessions st2)) = map cs_token (hm_or [] b (sessions st1))"
      by (simp add: s2 map_update_first)
    then show ?thesis by (metis set_map)
  qed
  have mem: "members st2 = insert (a, ?tok) (members st)"
    unfolding members_def toks by (auto simp: s1 split: if_splits)
  have "find_client a ?tok (outboxes st2) = Some ?d"
    using find_client_iff [OF i2(1)] by (simp add: i2(5) o1)
  with run mem hist i1 i2 free sound_same_history [OF assms(1) set2] show ?thesis by (intro registered [of st2]) simp_all
qed

lemma serve_authenticated_sound:
  assumes "sound st" "orders_ok it" "list_all turn_ok ts" "registered_name u" "no_read_panic rd"
  obtains j out r' st' where "serve_authenticated ops rd it rnd latency ts r st a u tok = (j, out, r', st')"
    "sound st'" "out \<noteq> Some Panic" "out = Some (Ok ()) \<Longrightarrow> (a, tok) \<notin> members st'"
proof -
  obtain x st1 where j: "announce_join ops it st a u tok = (x, st1)" by fastforce
  with announce_join_sound [OF assms(1,2,4), of ops a tok] have s1: "sound st1" "x \<noteq> Panic" by auto
  show ?thesis
  proof (cases x)
    case (Err e)
    with j s1 show ?thesis by (intro that [of False "Some (Err e)" r st1]) (simp_all add: serve_authenticated_def)
  next
    case (Ok v)
    obtain o1 r1 st2 where l: "session_loop ops rd it rnd latency ts r st1 a u = (o1, r1, st2)"
      by (cases rule: prod_cases3)
    with session_loop_sound [OF s1(1) assms(2-5), of ops rnd latency r a] have s2: "sound st2" "o1 \<noteq> Some Panic"
      by auto
    obtain st3 where f: "finish_session ops it st2 a u tok True = (Ok (), st3)" "sound st3" "(a, tok) \<notin> members st3"
      by (rule finish_session_sound [OF s2(1) assms(2,4), of ops a tok True], rule that)
    show ?thesis
    proof (cases "o1 = Some (Ok ())")
      case True
      with j Ok l f show ?thesis by (intro that [of True "Some (Ok ())" r1 st3]) (simp_all add: serve_authenticated_def)
    next
      case False
      then have "serve_authenticated ops rd it rnd latency ts r st a u tok = (True, o1, r1, st2)"
        using j Ok l s2(2) by (cases o1; cases "the o1") (auto simp: serve_authenticated_def)
      with False s2 show ?thesis by (intro that) auto
    qed
  qed (use s1 in simp)
qed

lemma serve_sound:
  assumes "sound st" "orders_ok it" "list_all turn_ok ts" "no_read_panic rd" "unused_channel w (outboxes st)"
  obtains out r' st' where "serve ops rd it rnd latency timed_out fresh w dc ts r st a = (out, r', st')"
    "sound st'" "out \<noteq> Some Panic" "out \<noteq> None \<Longrightarrow> (a, next_token st) \<notin> members st'"
proof -
  have new: "(a, next_token st) \<notin> members st"
    using members_fresh [OF settledD(1) [OF sound_settled [OF assms(1)]]] by blast
  obtain x r1 where hs: "read_handshake_username rd r = (x, r1)" by fastforce
  have np: "x \<noteq> Panic" using read_handshake_no_panic [OF assms(4), of r] hs by simp
  show ?thesis
  proof (cases "\<not> timed_out \<and> (\<exists>u. x = Ok u)")
    case False
    then consider "timed_out" | e where "\<not> timed_out" "x = Err e" using np by (cases x) auto
    then show ?thesis
    proof cases
      case 1
      with assms(1) new show ?thesis by (intro that) (auto simp: serve_def)
    next
      case 2
      with hs assms(1) new show ?thesis by (intro that) (auto simp: serve_def)
    qed
  next
    case True
    then obtain u where u: "x = Ok u" "\<not> timed_out" by blast
    from hs u(1) obtain f where "handshake_verdict f = Ok u"
      using read_handshake_username_OkD [of rd r u r1] by blast
    then have name: "registered_name u" using handshake_verdict_OkD by (simp add: registered_name_def)
    let ?st = "st\<lparr>channels := (channels st)(w := fresh)\<rparr>"
    have snd: "sound ?st" and unused: "unused_channel w (outboxes ?st)" using assms(1,5) by simp_all
    from snd unused name show ?thesis
    proof (cases rule: register_named_sound [where a = a and dc = dc])
      case refused
      with hs u snd new show ?thesis
        by (intro that [of "Some (Err ConnectionLimitReached)" r1 ?st]) (auto simp: serve_def members_def)
    next
      case (registered st1)
      obtain j out r2 st2 where sa:
        "serve_authenticated ops rd it rnd latency ts r1 st1 a u (next_token ?st) = (j, out, r2, st2)"
        "sound st2" "out \<noteq> Some Panic" "out = Some (Ok ()) \<Longrightarrow> (a, next_token ?st) \<notin> members st2"
        by (rule serve_authenticated_sound [OF registered(2) assms(2,3) name assms(4),
              of ops rnd latency r1 a "next_token ?st"], rule that)
      obtain st3 where f: "finish_session ops it st2 a u (next_token ?st) j = (Ok (), st3)" "sound st3"
        "(a, next_token ?st) \<notin> members st3"
        by (rule finish_session_sound [OF sa(2) assms(2) name, of ops a "next_token ?st" j], rule that)
      show ?thesis
      proof (cases "\<exists>e. out = Some (Err e)")
        case True
        with hs u registered(1) sa f show ?thesis by (intro that) (auto simp: serve_def)
      next
        case False
        then have "out = None \<or> out = Some (Ok ())" using sa(3) by (cases out; cases "the out") auto
        with hs u registered(1) sa show ?thesis by (intro that) (auto simp: serve_def)
      qed
    qed
  qed
qed

subsection \<open>The loop ends\<close>

text \<open>On a transport that does not fail, each turn of the loop either ends it or reads a frame, so
  one turn more than there are bytes is enough.\<close>

context byte_reader
begin

lemma session_loop_ends:
  "live r \<Longrightarrow> length (avail r) < length ts \<Longrightarrow>
   \<exists>res r' st'. session_loop cops ops it rnd latency ts r st a u = (Some res, r', st')"
proof (induction ts arbitrary: r st)
  case (Cons t ts)
  let ?st = "waited t st"
  show ?case
  proof (cases "signalled t")
    case False
    from read_async_frame_refines [OF Cons.prems(1)] obtain r1 where r1: "live r1"
      "case decode_frame (avail r) of
         Ok (fo, rest) \<Rightarrow> read_async_frame ops r = (Ok fo, r1) \<and> avail r1 = rest
       | Err e \<Rightarrow> read_async_frame ops r = (Err (async_error (avail r) e), r1)
       | Panic \<Rightarrow> False" by blast
    show ?thesis
    proof (cases "\<exists>f rest. decode_frame (avail r) = Ok (Some f, rest)")
      case True
      then obtain f rest where f: "decode_frame (avail r) = Ok (Some f, rest)" by blast
      with r1(2) have rd: "read_async_frame ops r = (Ok (Some f), r1)" "avail r1 = rest" by auto
      have "length rest < length (avail r)"
        using decode_frame_canonical [OF f] frame_bytes_nonempty [of f] by auto
      with rd(2) Cons.prems(2) have "length (avail r1) < length ts" by simp
      from Cons.IH [OF r1(1) this] show ?thesis
        using False rd(1) by (auto simp: Let_def split: prod.splits result.splits)
    next
      case no_frame: False
      with r1(2) False show ?thesis by (cases "decode_frame (avail r)") (auto simp: Let_def split: option.splits)
    qed
  qed (simp add: Let_def)
qed simp

end

subsection \<open>The writer task\<close>

lemma writer_stopped_sound:
  assumes "sound st" "orders_ok it" "registered_name u"
  obtains st' where "writer_stopped ops it st a tok u has_joined = (Ok (), st')" "sound st'" "(a, tok) \<notin> members st'"
    "(a, tok) \<notin> members st \<Longrightarrow> members st' = members st \<and> history st' = history st"
    "history st' = (if has_joined \<and> (a, tok) \<in> members st
       then mutex_set (history_record (leave_line u) (guarded (history st))) (history st) else history st)"
proof -
  note finish = that
  obtain st1 where r: "remove_client_if_current st a tok = (Ok ((a, tok) \<in> members st), st1)" "sound st1"
    "members st1 = members st - {(a, tok)}" "history st1 = history st"
  proof -
    obtain st1 where "remove_client_if_current st a tok = (Ok ((a, tok) \<in> members st), st1)" "settled st1" "shrinks st st1"
      "same_rest st st1" "members st1 = members st - {(a, tok)}"
      by (rule remove_settled [OF sound_settled [OF assms(1)]], rule that)
    then show ?thesis using that sound_same_history [OF assms(1), of st1] by (simp add: same_rest_def)
  qed
  show ?thesis
  proof (cases "(a, tok) \<in> members st")
    case False
    with r show ?thesis by (intro that [of st1]) (simp_all add: writer_stopped_def)
  next
    case member: True
    have short: "short_line (leave_line u)" using assms(3) short_announcements by (simp add: registered_name_def)
    have presence: thesis if s2: "sound st2" "members st2 \<subseteq> members st1"
      and run: "writer_stopped ops it st a tok u has_joined =
        (case broadcast_presence ops it st2 of (Panic, st) \<Rightarrow> (Panic, st) | (_, st) \<Rightarrow> (Ok (), st))"
      and h: "history st2 = (if has_joined then mutex_set (history_record (leave_line u) (guarded (history st))) (history st)
        else history st)" for st2
    proof -
      obtain st3 where p: "broadcast_presence ops it st2 = (Ok (), st3)" "sound st3" "shrinks st2 st3" "history st3 = history st2"
        by (rule broadcast_presence_sound [OF s2(1) assms(2), of ops], rule that)
      have "(a, tok) \<notin> members st3" using shrinks_members [OF p(3)] s2(2) r(3) by auto
      with p run h member show thesis by (intro finish [of st3]) simp_all
    qed
    show ?thesis
    proof (cases has_joined)
      case False
      with r member show ?thesis by (intro presence [of st1]) (simp_all add: writer_stopped_def)
    next
      case True
      obtain st2 b where b: "record_and_broadcast ops it st1 (leave_line u) (chat_bytes (trim_end (leave_line u))) None = (Ok b, st2)"
        "sound st2" "shrinks st1 st2" "history st2 = mutex_set (history_record (leave_line u) (guarded (history st1))) (history st1)"
        by (rule record_and_broadcast_sound [OF r(2) assms(2) short], rule that)
      with True r member shrinks_members [OF b(3)] encode_short [OF short_trim_end [OF short]] show ?thesis
        by (intro presence [of st2]) (simp_all add: writer_stopped_def Let_def)
    qed
  qed
qed

subsection \<open>States to evaluate on\<close>

definition bounded_orders :: map_orders where
  "bounded_orders = \<lparr>clients_order = rev, deliveries_order = rev\<rparr>"

lemma bounded_orders_ok: "orders_ok bounded_orders"
  by (simp add: orders_ok_def bounded_orders_def)

definition quiet_turn :: "'w turn" where
  "quiet_turn = \<lparr>waited = (\<lambda>st. st), signalled = False, clock = 0, slept = (\<lambda>st. st), hour_minute = lit ''12:30''\<rparr>"

lemma quiet_turn_ok: "turn_ok quiet_turn"
  by (simp add: turn_ok_def quiet_turn_def sound_step_def lit_Cons lit_Nil len_utf8_def)

lemma no_clients_sound: "sound no_clients"
proof -
  have "settled no_clients"
    by (simp add: settled_def no_clients_simps own_channels_def names_ok_def hm_or_def)
  then show ?thesis
    by (simp add: sound_def history_ok_def) (simp add: no_clients_def new_shared_state_def history_new_def)
qed

lemma one_client_history: "history one_client = history no_clients" "channels one_client = channels no_clients"
  by (simp_all add: one_client_def register_pending_client_def register_client_with_status_def Let_def)

lemma one_client_sound: "sound one_client"
  using sound_same_history [OF no_clients_sound one_client_settled] one_client_history by simp

lemma registered_ann: "registered_name (lit ''ann'')"
  by (simp add: registered_name_def is_valid_username_def lit_Cons lit_Nil trim_def trim_start_def trim_end_def
      is_whitespace_def is_control_def is_scalar_def len_utf8_def limits)

lemma script_no_panic: "no_read_panic script_ops"
proof -
  have 1: "fst (script_read n r) \<noteq> Panic" for n r
    by (cases "(n, r)" rule: script_read.cases) auto
  have "fst (script_read_exact n r) \<noteq> Panic" for n r
  proof (induction n r rule: script_read_exact.induct)
    case IH: (1 n r)
    obtain x r' where x: "script_read n r = (x, r')" by fastforce
    show ?case
    proof (cases "n \<noteq> 0 \<and> (\<exists>bs. x = Ok bs \<and> bs \<noteq> [])")
      case True
      then obtain bs where bs: "n \<noteq> 0" "x = Ok bs" "bs \<noteq> []" by blast
      have "fst (script_read_exact (n - length bs) r') \<noteq> Panic"
        by (rule IH(1) [OF bs(1) _ _ bs(3)]) (use x bs(2) in auto)
      with bs x show ?thesis by (subst script_read_exact.simps) (auto split: prod.splits result.splits)
    next
      case False
      show ?thesis
      proof (cases "n \<noteq> 0 \<and> x = Err Interrupted")
        case True
        then show ?thesis using IH x by (subst script_read_exact.simps) (auto split: prod.splits result.splits)
      next
        case other: False
        with False x 1 [of n r] show ?thesis
          by (subst script_read_exact.simps) (cases x, auto split: prod.splits result.splits)
      qed
    qed
  qed
  with 1 show ?thesis by (simp add: no_read_panic_def script_ops_def)
qed

subsection \<open>Properties\<close>

text \<open>
  C11. When a client becomes ready, its outbound queue is large enough for everything it has to
  be sent: the replay succeeds, the channel then holds the retained history followed by the
  messages broadcast since the client registered, in this order, nothing stays pending, and
  from then on messages go to the channel directly.
\<close>

theorem replay_before_live:
  assumes "mpsc ops queued capacity" and "sound st"
    and "find_client a tok (outboxes st) = Some d" and "\<not> cd_ready d"
    and "queued (channels st (cd_writer d)) = []" "capacity (channels st (cd_writer d)) = OUTBOUND_QUEUE_SIZE"
      "\<not> is_closed ops (channels st (cd_writer d))"
  shows "\<exists>st'. send_message_history ops st a tok = (Ok (), st') \<and>
    queued (channels st' (cd_writer d)) = map chat_bytes (retained st) @ cd_pending d \<and>
    find_client a tok (outboxes st') = Some (d\<lparr>cd_pending := [], cd_ready := True\<rparr>) \<and>
    history st' = history st"
proof -
  from mpsc.replay_fits [OF assms] obtain st' w where
    r: "send_message_history ops st a tok = (Ok (), st')"
      "queued w = map chat_bytes (retained st) @ cd_pending d"
    and st': "st' = st\<lparr>deliveries := mutex_set (update_client a tok (\<lambda>d. d\<lparr>cd_pending := [], cd_ready := True\<rparr>) (outboxes st)) (deliveries st),
             channels := (channels st)(cd_writer d := w)\<rparr>" by blast
  obtain ds where ds: "hm_get a (outboxes st) = Some ds" "find (\<lambda>d. cd_token d = tok) ds = Some d"
    using assms(3) by (auto simp: find_client_def split: option.splits)
  have "find (\<lambda>d. cd_token d = tok) (update_first (\<lambda>d. cd_token d = tok) (\<lambda>d. d\<lparr>cd_pending := [], cd_ready := True\<rparr>) ds) =
      Some (d\<lparr>cd_pending := [], cd_ready := True\<rparr>)"
    by (rule find_update_first [OF ds(2)]) (use find_Some_in [OF ds(2)] in simp)
  then have "find_client a tok (update_client a tok (\<lambda>d. d\<lparr>cd_pending := [], cd_ready := True\<rparr>) (outboxes st)) =
      Some (d\<lparr>cd_pending := [], cd_ready := True\<rparr>)"
    by (simp add: find_client_def update_client_def ds(1))
  with r st' show ?thesis by simp
qed

theorem replay_before_live_witness:
  "\<exists>st'. send_message_history bounded_ops one_client localhost 0 = (Ok (), st') \<and>
     bc_queue (channels st' 0) = map chat_bytes (retained one_client)"
proof -
  have f: "find_client localhost 0 (outboxes one_client) =
      Some \<lparr>cd_addr = localhost, cd_token = 0, cd_writer = 0, cd_disconnect = Some 0, cd_ready = False, cd_pending = []\<rparr>"
    by (simp add: one_client_simps find_client_def)
  have c: "channels one_client 0 = bounded_new OUTBOUND_QUEUE_SIZE"
    by (simp add: one_client_history no_clients_def new_shared_state_def)
  show ?thesis
    using replay_before_live [OF bounded.mpsc_axioms one_client_sound f]
    by (auto simp: c bounded_new_def bounded_ops_def)
qed

text \<open>
  C12. Serving a connection keeps the shared state sound and never panics, whatever the bytes the
  peer sends and whatever the other tasks do meanwhile, as long as they keep it sound too; and
  when it returns, for whatever reason, its client is no longer registered.
\<close>

theorem serve_safe:
  assumes "sound st" and "orders_ok it" and "list_all turn_ok ts" and "no_read_panic rd"
    and "unused_channel w (outboxes st)"
  shows "\<exists>out r' st'. serve ops rd it rnd latency timed_out fresh w dc ts r st a = (out, r', st') \<and>
    sound st' \<and> out \<noteq> Some Panic \<and> (out \<noteq> None \<longrightarrow> (a, next_token st) \<notin> members st')"
proof -
  obtain out r' st' where "serve ops rd it rnd latency timed_out fresh w dc ts r st a = (out, r', st')"
    "sound st'" "out \<noteq> Some Panic" "out \<noteq> None \<Longrightarrow> (a, next_token st) \<notin> members st'"
    by (rule serve_sound [OF assms, of ops rnd latency timed_out fresh dc r a], rule that)
  then show ?thesis by blast
qed

theorem serve_safe_witness:
  "\<exists>out r' st'. serve bounded_ops script_ops bounded_orders (\<lambda>x. x) 0 False (bounded_new OUTBOUND_QUEUE_SIZE) 1 1
      [quiet_turn, quiet_turn] [Data [1, 1, 0, 0, 0, 1, 97], Data [1, 2, 0, 0, 0, 1, 98]] one_client localhost = (out, r', st') \<and>
    sound st' \<and> out \<noteq> Some Panic"
proof -
  have "unused_channel 1 (outboxes one_client)" by (simp add: unused_channel_def one_client_simps hm_or_def)
  moreover have "list_all turn_ok [quiet_turn, quiet_turn]" using quiet_turn_ok by simp
  ultimately show ?thesis
    using serve_safe [OF one_client_sound bounded_orders_ok _ script_no_panic] by blast
qed

text \<open>
  C23. The read loop of a session ends: on a transport that does not fail, one turn more than the
  bytes left to read is enough, whatever the turns are.
\<close>

theorem session_ends:
  assumes "byte_reader rd avail live" and "live r" and "length (avail r) < length ts"
  shows "\<exists>res r' st'. session_loop ops rd it rnd latency ts r st a u = (Some res, r', st')"
  using assms by (rule byte_reader.session_loop_ends)

theorem session_ends_witness:
  "\<exists>res r' st'. session_loop bounded_ops script_ops bounded_orders (\<lambda>x. x) 0 (replicate 8 quiet_turn)
     [Data [1, 2, 0], Data [0, 0, 1, 98]] one_client localhost (lit ''ann'') = (Some res, r', st')"
  by (rule session_ends [OF script.byte_reader_axioms]) simp_all

text \<open>
  C22. What a frame from an authenticated client does: the result is decided by the checks in
  their order (type, size, UTF-8, blank, rate limit); an accepted message is recorded once, as
  the formatted line, and everything else leaves the history alone.
\<close>

theorem handle_frame_result:
  assumes "sound st" and "orders_ok it" and "turn_ok t" and "registered_name u"
  shows "\<exists>st'. sound st' \<and>
    (if kind f \<noteq> Chat then handle_frame ops it rnd latency t st a u f = (Err InvalidFrameType, st)
     else if length (payload f) > MAX_CHAT_MESSAGE_BYTES then handle_frame ops it rnd latency t st a u f = (Err MessageTooLong, st)
     else (case from_utf8 (payload f) of
        None \<Rightarrow> handle_frame ops it rnd latency t st a u f = (Err InvalidUtf8, st)
      | Some c \<Rightarrow>
          if trim c = [] then handle_frame ops it rnd latency t st a u f = (Ok (), st)
          else (case allow_message rnd (clock t) st a of
             (Ok _, st1) \<Rightarrow>
               let st2 = (if latency \<noteq> 0 then slept t st1 else st1) in
               handle_frame ops it rnd latency t st a u f = (Ok (), st') \<and>
               history st' = mutex_set (history_record (format_chat_message u (hour_minute t) c) (guarded (history st2))) (history st2)
           | (e, st1) \<Rightarrow> handle_frame ops it rnd latency t st a u f = (e, st1) \<and> e = Err MessageRateLimitExceeded)))"
proof (cases "kind f \<noteq> Chat \<or> length (payload f) > MAX_CHAT_MESSAGE_BYTES \<or> from_utf8 (payload f) = None \<or>
    (\<exists>c. from_utf8 (payload f) = Some c \<and> trim c = [])")
  case True
  with assms(1) show ?thesis by (auto simp: handle_frame_def intro!: exI [of _ st])
next
  case False
  then obtain c where c: "kind f = Chat" "length (payload f) \<le> MAX_CHAT_MESSAGE_BYTES" "from_utf8 (payload f) = Some c" "trim c \<noteq> []"
    by auto
  have "length (as_bytes c) \<le> MAX_CHAT_MESSAGE_BYTES" using c from_utf8_SomeD(1) by simp
  then have short: "short_line (format_chat_message u (hour_minute t) c)"
    using assms(3,4) by (intro short_message) (auto simp: registered_name_def turn_ok_def)
  obtain x st1 where al: "allow_message rnd (clock t) st a = (x, st1)" by (cases "allow_message rnd (clock t) st a")
  with allow_message_sound [OF assms(1), of rnd "clock t" a] have
    s1: "sound st1" "x = Ok () \<or> x = Err MessageRateLimitExceeded" by simp_all
  let ?st2 = "if latency \<noteq> 0 then slept t st1 else st1"
  have "sound ?st2" using s1(1) assms(3) by (auto simp: turn_ok_def sound_step_def)
  from this assms(2) short obtain st3 where
    "publish ops it ?st2 (format_chat_message u (hour_minute t) c)
      (chat_bytes (format_chat_message u (hour_minute t) c)) = (Ok (), st3)" "sound st3"
    "history st3 = mutex_set (history_record (format_chat_message u (hour_minute t) c) (guarded (history ?st2))) (history ?st2)"
    by (rule publish_sound [where ops = ops]) (rule that)
  with s1 al c short show ?thesis
    by (intro exI [of _ st3]) (auto simp: handle_frame_def Let_def encode_short)
qed

theorem handle_frame_result_witness:
  "handle_frame bounded_ops bounded_orders (\<lambda>x. x) 0 quiet_turn one_client localhost (lit ''ann'')
     \<lparr>version = 1, kind = Presence, payload = []\<rparr> = (Err InvalidFrameType, one_client)"
  using handle_frame_result [OF one_client_sound bounded_orders_ok quiet_turn_ok registered_ann,
      of "\<lparr>version = 1, kind = Presence, payload = []\<rparr>"] by simp

text \<open>
  Leaving happens once: after the session has been finished, or the writer task has stopped,
  the client is gone, and a second \<open>finish_session\<close> or \<open>writer_stopped\<close> for it changes neither the
  members nor the history, so the leave line is recorded at most once.
\<close>

lemma leave_once:
  assumes "sound st" and "orders_ok it" and "registered_name u"
  shows "\<exists>st1. finish_session ops it st a u tok announce = (Ok (), st1) \<and> sound st1 \<and> (a, tok) \<notin> members st1 \<and>
      history st1 = (if announce \<and> (a, tok) \<in> members st
        then mutex_set (history_record (leave_line u) (guarded (history st))) (history st) else history st) \<and>
      (\<exists>st2. writer_stopped ops it st1 a tok u has_joined = (Ok (), st2) \<and> members st2 = members st1 \<and> history st2 = history st1)"
proof -
  obtain st1 where f: "finish_session ops it st a u tok announce = (Ok (), st1)" "sound st1" "(a, tok) \<notin> members st1"
    "history st1 = (if announce \<and> (a, tok) \<in> members st
       then mutex_set (history_record (leave_line u) (guarded (history st))) (history st) else history st)"
    by (rule finish_session_sound [OF assms, of ops a tok announce], rule that)
  obtain st2 where "writer_stopped ops it st1 a tok u has_joined = (Ok (), st2)"
    "(a, tok) \<notin> members st1 \<Longrightarrow> members st2 = members st1 \<and> history st2 = history st1"
    by (rule writer_stopped_sound [OF f(2) assms(2,3), of ops a tok has_joined], rule that)
  with f show ?thesis by blast
qed

text \<open>
  The other order is the same: when the writer task stops first, it removes the client and
  records the leave line if the client had joined, and finishing the session afterwards returns
  without recording it again.
\<close>

lemma leave_once_writer_first:
  assumes "sound st" and "orders_ok it" and "registered_name u"
  shows "\<exists>st1. writer_stopped ops it st a tok u has_joined = (Ok (), st1) \<and> sound st1 \<and> (a, tok) \<notin> members st1 \<and>
      history st1 = (if has_joined \<and> (a, tok) \<in> members st
        then mutex_set (history_record (leave_line u) (guarded (history st))) (history st) else history st) \<and>
      (\<exists>st2. finish_session ops it st1 a u tok announce = (Ok (), st2) \<and> history st2 = history st1)"
proof -
  obtain st1 where w: "writer_stopped ops it st a tok u has_joined = (Ok (), st1)" "sound st1" "(a, tok) \<notin> members st1"
    "history st1 = (if has_joined \<and> (a, tok) \<in> members st
       then mutex_set (history_record (leave_line u) (guarded (history st))) (history st) else history st)"
    by (rule writer_stopped_sound [OF assms, of ops a tok has_joined], rule that)
  obtain st2 where "finish_session ops it st1 a u tok announce = (Ok (), st2)"
    "history st2 = (if announce \<and> (a, tok) \<in> members st1
       then mutex_set (history_record (leave_line u) (guarded (history st1))) (history st1) else history st1)"
    by (rule finish_session_sound [OF w(2) assms(2,3), of ops a tok announce], rule that)
  with w show ?thesis by auto
qed

end
