(* ===== verification/Admission.thy ===== *)
theory Admission
  imports Registry
begin

section \<open>Admission control\<close>

text \<open>
  \<^verbatim>\<open>ConnectionAdmission\<close> and \<^verbatim>\<open>ConnectionPermit\<close> of \<^verbatim>\<open>crates/server/src/lib.rs\<close>: a global semaphore
  and a counter per IP address, taken when a connection is accepted and given back when the
  permit is dropped. The semaphore is tokio's, a parameter with the behaviour that the locale
  \<open>semaphore\<close> states. The specification is the multiset of the addresses of the outstanding
  permits.
\<close>

record 's sem_ops =
  try_acquire_owned :: "'s \<Rightarrow> 's option"
  release :: "'s \<Rightarrow> 's"

locale semaphore =
  fixes ops :: "'s sem_ops"
    and free :: "'s \<Rightarrow> nat"
  assumes acquire_some: "0 < free s \<Longrightarrow> \<exists>s'. try_acquire_owned ops s = Some s' \<and> free s = Suc (free s')"
    and acquire_none: "free s = 0 \<Longrightarrow> try_acquire_owned ops s = None"
    and release_free: "free (release ops s) = Suc (free s)"

definition counting_ops :: "nat sem_ops" where
  "counting_ops = \<lparr>try_acquire_owned = (\<lambda>n. if n = 0 then None else Some (n - 1)), release = Suc\<rparr>"

interpretation counting: semaphore counting_ops "\<lambda>n. n"
  by unfold_locales (auto simp: counting_ops_def)

record 's admission =
  global :: 's
  per_ip_counts :: "(ip_addr, nat) hash_map mutex"

record permit =
  permit_ip :: ip_addr

definition admission_new :: "'s \<Rightarrow> 's admission" where
  "admission_new sem = \<lparr>global = sem, per_ip_counts = mutex_new hm_empty\<rparr>"

definition try_acquire :: "'s sem_ops \<Rightarrow> 's admission \<Rightarrow> socket_addr \<Rightarrow> permit option \<times> 's admission" where
  "try_acquire ops adm address =
     (case try_acquire_owned ops (global adm) of
        None \<Rightarrow> (None, adm)
      | Some g \<Rightarrow>
          if poisoned (per_ip_counts adm) then (None, adm\<lparr>global := release ops g\<rparr>)
          else
            let ip = addr_ip address; m = guarded (per_ip_counts adm); c = hm_or 0 ip m in
            if c \<ge> MAX_CONNECTIONS_PER_IP then
              (None, adm\<lparr>global := release ops g, per_ip_counts := mutex_set (hm_insert ip c m) (per_ip_counts adm)\<rparr>)
            else
              (Some \<lparr>permit_ip = ip\<rparr>,
               adm\<lparr>global := g, per_ip_counts := mutex_set (hm_insert ip (c + 1) m) (per_ip_counts adm)\<rparr>))"

text \<open>\<^verbatim>\<open>Drop for ConnectionPermit\<close>, then the drop of its field, the semaphore permit.\<close>

definition drop_permit :: "'s sem_ops \<Rightarrow> permit \<Rightarrow> 's admission \<Rightarrow> (unit, unit) result \<times> 's admission" where
  "drop_permit ops p adm =
     (let adm' = adm\<lparr>global := release ops (global adm)\<rparr>; m = guarded (per_ip_counts adm) in
      if poisoned (per_ip_counts adm) then (Ok (), adm')
      else
        (case hm_get (permit_ip p) m of
           None \<Rightarrow> (Ok (), adm')
         | Some c \<Rightarrow>
             if c = 0 then (Panic, adm'\<lparr>per_ip_counts := poison (per_ip_counts adm)\<rparr>)
             else
               (Ok (), adm'\<lparr>per_ip_counts := mutex_set
                  (if c - 1 = 0 then hm_remove (permit_ip p) m else hm_insert (permit_ip p) (c - 1) m)
                  (per_ip_counts adm)\<rparr>)))"

subsection \<open>Specification\<close>

definition admission_inv :: "('s \<Rightarrow> nat) \<Rightarrow> ip_addr multiset \<Rightarrow> 's admission \<Rightarrow> bool" where
  "admission_inv free out adm \<longleftrightarrow>
     \<not> poisoned (per_ip_counts adm) \<and>
     (\<forall>ip. hm_get ip (guarded (per_ip_counts adm)) = (if count out ip = 0 then None else Some (count out ip))) \<and>
     free (global adm) + size out = MAX_CONNECTIONS \<and>
     (\<forall>ip. count out ip \<le> MAX_CONNECTIONS_PER_IP)"

definition may_enter :: "ip_addr multiset \<Rightarrow> ip_addr \<Rightarrow> bool" where
  "may_enter out ip \<longleftrightarrow> size out < MAX_CONNECTIONS \<and> count out ip < MAX_CONNECTIONS_PER_IP"

lemma admission_new_inv: "free s = MAX_CONNECTIONS \<Longrightarrow> admission_inv free {#} (admission_new s)"
  by (simp add: admission_inv_def admission_new_def hm_empty_def)

context semaphore
begin

lemma try_acquire_refines:
  assumes inv: "admission_inv free out adm"
  shows "\<exists>adm'. try_acquire ops adm a =
      (if may_enter out (addr_ip a) then Some \<lparr>permit_ip = addr_ip a\<rparr> else None, adm') \<and>
    admission_inv free (if may_enter out (addr_ip a) then add_mset (addr_ip a) out else out) adm'"
proof (cases "free (global adm) = 0")
  case True
  with acquire_none inv show ?thesis by (simp add: try_acquire_def may_enter_def admission_inv_def)
next
  case False
  then obtain g where g: "try_acquire_owned ops (global adm) = Some g" "free (global adm) = Suc (free g)"
    using acquire_some by auto
  have c: "hm_or 0 (addr_ip a) (guarded (per_ip_counts adm)) = count out (addr_ip a)"
    using inv by (simp add: admission_inv_def hm_or_def)
  have room: "size out < MAX_CONNECTIONS" using inv g(2) by (simp add: admission_inv_def)
  have pos: "0 < MAX_CONNECTIONS_PER_IP" by (simp add: limits)
  have held: "\<not> count out (addr_ip a) < MAX_CONNECTIONS_PER_IP \<Longrightarrow> addr_ip a \<in># out"
    using pos by (metis count_greater_zero_iff linorder_neqE_nat not_gr_zero)
  show ?thesis
    using inv g room pos c held
    by (cases "count out (addr_ip a) < MAX_CONNECTIONS_PER_IP")
       (auto simp: try_acquire_def may_enter_def admission_inv_def Let_def release_free count_eq_zero_iff)
qed

lemma drop_permit_refines:
  assumes inv: "admission_inv free out adm" and p: "permit_ip p \<in># out"
  shows "\<exists>adm'. drop_permit ops p adm = (Ok (), adm') \<and> admission_inv free (out - {#permit_ip p#}) adm'"
proof -
  obtain out' where out: "out = add_mset (permit_ip p) out'" using p by (metis insert_DiffM)
  have c: "count out (permit_ip p) \<noteq> 0" by (simp add: out)
  have le: "count out' ip \<le> MAX_CONNECTIONS_PER_IP" for ip
  proof -
    have "count out' ip \<le> count out ip" by (simp add: out)
    also have "\<dots> \<le> MAX_CONNECTIONS_PER_IP" using inv by (simp add: admission_inv_def)
    finally show ?thesis .
  qed
  show ?thesis
    using inv c le
    by (cases "count out' (permit_ip p) = 0") (auto simp: drop_permit_def admission_inv_def Let_def release_free out count_eq_zero_iff)
qed

end

text \<open>
  While every registered client and one more connection from \<open>a\<close>'s host hold a permit each, the
  registry's own limits, which are the same numbers, cannot refuse that connection.
\<close>

lemma permits_leave_room:
  assumes inv: "server_inv st" and adm: "admission_inv free out adm"
    and held: "add_mset (addr_ip a) (image_mset (\<lambda>(b, t). addr_ip b) (mset_set (members st))) \<subseteq># out"
  shows "\<not> limit_reached (guarded (clients st)) (addr_ip a)"
proof -
  let ?ips = "image_mset (\<lambda>(b, t). addr_ip b) (mset_set (members st))"
  note card = members_card [OF inv]
  have "Suc (size ?ips) \<le> size out" using size_mset_mono [OF held] by simp
  then have tot: "total (guarded (clients st)) < MAX_CONNECTIONS"
    using adm card(2) by (simp add: admission_inv_def)
  have "count (add_mset (addr_ip a) ?ips) (addr_ip a) \<le> count out (addr_ip a)"
    using held by (rule mset_subset_eq_count)
  moreover have "count ?ips (addr_ip a) = card {(b, t) \<in> members st. addr_ip b = addr_ip a}"
  proof -
    have "{p \<in> members st. (\<lambda>(b, t). addr_ip b) p = addr_ip a} = {(b, t) \<in> members st. addr_ip b = addr_ip a}"
      by auto
    moreover have "count ?ips (addr_ip a) = card {p \<in> members st. (\<lambda>(b, t). addr_ip b) p = addr_ip a}"
      using card(1) by (simp add: count_image_mset' Collect_conj_eq Int_commute conj_commute eq_commute)
    ultimately show ?thesis by simp
  qed
  ultimately have "hm_or 0 (addr_ip a) (per_ip (guarded (clients st))) < MAX_CONNECTIONS_PER_IP"
    using adm card(3) by (auto simp: admission_inv_def) (metis Suc_le_lessD le_trans)
  with tot show ?thesis by (simp add: limit_reached_def)
qed

text \<open>So the registration of an admitted connection succeeds.\<close>

lemma admitted_can_register:
  assumes "server_inv st" and "admission_inv free out adm"
    and "add_mset (addr_ip a) (image_mset (\<lambda>(b, t). addr_ip b) (mset_set (members st))) \<subseteq># out"
  shows "fst (register_pending_client st a w dc) = Ok (next_token st)"
proof -
  have free: "\<not> limit_reached (guarded (clients st)) (addr_ip a)" using assms by (rule permits_leave_room)
  obtain st' where "register_client_with_status st a w (Some dc) False = (Ok (next_token st), st')"
    by (rule register_spec [OF assms(1) free, of w "Some dc" False], rule that)
  then show ?thesis by (simp add: register_pending_client_def)
qed

subsection \<open>Properties\<close>

text \<open>
  C21. Admission implements the abstract policy: with the multiset \<open>out\<close> of the addresses of the
  outstanding permits, a connection is admitted exactly when fewer than 256 permits are out and
  fewer than 4 for its address; a refusal takes nothing, and dropping a permit gives back
  exactly what it held, without underflow.
\<close>

theorem admission_refines:
  assumes "semaphore ops free" and "admission_inv free out adm"
  shows "(\<exists>adm'. try_acquire ops adm a =
      (if may_enter out (addr_ip a) then Some \<lparr>permit_ip = addr_ip a\<rparr> else None, adm') \<and>
      admission_inv free (if may_enter out (addr_ip a) then add_mset (addr_ip a) out else out) adm') \<and>
    (\<forall>p. permit_ip p \<in># out \<longrightarrow>
      (\<exists>adm'. drop_permit ops p adm = (Ok (), adm') \<and> admission_inv free (out - {#permit_ip p#}) adm'))"
  using semaphore.try_acquire_refines [OF assms] semaphore.drop_permit_refines [OF assms] by blast

theorem admission_refines_witness:
  "\<exists>adm'. try_acquire counting_ops (admission_new 256) (SocketV4 1 80) = (Some \<lparr>permit_ip = V4 1\<rparr>, adm') \<and>
     admission_inv (\<lambda>n. n) {#V4 1#} adm'"
proof -
  have inv: "admission_inv (\<lambda>n. n) {#} (admission_new 256)" by (rule admission_new_inv) (simp add: limits)
  show ?thesis
    using admission_refines [OF counting.semaphore_axioms inv, of "SocketV4 1 80"]
    by (auto simp: may_enter_def limits)
qed

end
