(* ===== verification/Server.thy ===== *)
theory Server
  imports Connection_Facts Admission
begin

section \<open>The server as a system of tasks\<close>

text \<open>
  \<^verbatim>\<open>run_server_async\<close> of \<^verbatim>\<open>lib.rs\<close> with the tasks it spawns, as a step relation. A task is at a
  \<open>phase\<close>: the call of \<open>ConnectionHandler::serve\<close>, \<open>serve_authenticated\<close>, \<open>finish_session\<close> or
  \<open>outbound_writer\<close> it makes next. One step is one call into the shared state (\<open>task_call\<close>), and
  between any two calls of a task any other task may run: this is finer than the connection
  model, whose tasks interleave where the handler awaits. The accept loop and the cleanup task
  are steps of their own. Shared state, admission and tasks are the whole state of the server.
\<close>

subsection \<open>Tasks\<close>

datatype phase =
    Handshaking
  | Register ustr
  | Name ustr token
  | Forget token
  | Replay ustr token
  | ShowUsers ustr token
  | RecordJoin ustr token
  | JoinUsers ustr token
  | Talk ustr token
  | Compose ustr token ustr
  | LineUsers ustr token
  | Finish ustr token bool bool
  | RecordLeave ustr token bool
  | LeaveUsers ustr token bool
  | Writing ustr token
  | CheckJoined ustr token
  | WriterLeave ustr token
  | WriterUsers

text \<open>What a call is given by the outside: the outcome of the handshake under its timeout, the
  channels created for the client, the clock, and what \<^verbatim>\<open>select!\<close> yields (\<open>None\<close> is the disconnect
  signal); what the load of the flag \<^verbatim>\<open>joined\<close> yields (\<open>Announcements\<close> says what that is).\<close>

record 'w inputs =
  shaken :: "(ustr, server_error) result"
  fresh :: 'w
  channel :: chan_id
  watch :: watch_id
  now :: nat
  time_of_day :: ustr
  selected :: "(frame option, server_error) result option"
  has_joined :: bool

text \<open>The phase after a call, by its result.\<close>

fun after_call ::
  "('a, server_error) result \<times> 'w server_state \<Rightarrow> ('a \<Rightarrow> phase option) \<Rightarrow> phase option \<Rightarrow>
     (phase option, unit) result \<times> 'w server_state"
where
  "after_call (Ok x, st) next failed = (Ok (next x), st)"
| "after_call (Err _, st) next failed = (Ok failed, st)"
| "after_call (Panic, st) next failed = (Panic, st)"

definition record_line ::
  "'w chan_ops \<Rightarrow> map_orders \<Rightarrow> 'w server_state \<Rightarrow> ustr \<Rightarrow> ustr \<Rightarrow> (bool, server_error) result \<times> 'w server_state"
where
  "record_line ops it st line content =
     (case encode_frame Chat (as_bytes content) of
        Err _ \<Rightarrow> (Err MessageTooLong, st)
      | Panic \<Rightarrow> (Panic, st)
      | Ok f \<Rightarrow> record_and_broadcast ops it st line f None)"

text \<open>What the loop does with what \<^verbatim>\<open>select!\<close> yields, up to the rate limiter.\<close>

definition frame_phase ::
  "(rat \<Rightarrow> rat) \<Rightarrow> 'w inputs \<Rightarrow> socket_addr \<Rightarrow> ustr \<Rightarrow> token \<Rightarrow> 'w server_state \<Rightarrow> (phase option, unit) result \<times> 'w server_state"
where
  "frame_phase rnd i a u tok st =
     (case selected i of
        None \<Rightarrow> (Ok (Some (Finish u tok True False)), st)
      | Some Panic \<Rightarrow> (Panic, st)
      | Some (Err _) \<Rightarrow> (Ok (Some (Finish u tok True True)), st)
      | Some (Ok None) \<Rightarrow> (Ok (Some (Finish u tok True False)), st)
      | Some (Ok (Some f)) \<Rightarrow>
          if kind f \<noteq> Chat \<or> length (payload f) > MAX_CHAT_MESSAGE_BYTES then (Ok (Some (Finish u tok True True)), st)
          else
            (case from_utf8 (payload f) of
               None \<Rightarrow> (Ok (Some (Finish u tok True True)), st)
             | Some content \<Rightarrow>
                 if trim content = [] then (Ok (Some (Talk u tok)), st)
                 else after_call (allow_message rnd (now i) st a) (\<lambda>_. Some (Compose u tok content))
                        (Some (Finish u tok True True))))"

fun task_call ::
  "'w chan_ops \<Rightarrow> map_orders \<Rightarrow> (rat \<Rightarrow> rat) \<Rightarrow> 'w inputs \<Rightarrow> socket_addr \<Rightarrow> phase \<Rightarrow> 'w server_state \<Rightarrow>
     (phase option, unit) result \<times> 'w server_state"
where
  "task_call ops it rnd i a Handshaking st = after_call (shaken i, st) (\<lambda>u. Some (Register u)) None"
| "task_call ops it rnd i a (Register u) st =
     after_call (register_pending_client (st\<lparr>channels := (channels st)(channel i := fresh i)\<rparr>) a (channel i) (watch i))
       (\<lambda>tok. Some (Name u tok)) None"
| "task_call ops it rnd i a (Name u tok) st =
     after_call (set_client_username st a tok u) (\<lambda>_. Some (Replay u tok)) (Some (Forget tok))"
| "task_call ops it rnd i a (Forget tok) st = after_call (remove_client_if_current st a tok) (\<lambda>_. None) None"
| "task_call ops it rnd i a (Replay u tok) st =
     after_call (send_message_history ops st a tok) (\<lambda>_. Some (ShowUsers u tok)) (Some (Finish u tok False True))"
| "task_call ops it rnd i a (ShowUsers u tok) st =
     after_call (broadcast_presence ops it st) (\<lambda>_. Some (RecordJoin u tok)) (Some (Finish u tok False True))"
| "task_call ops it rnd i a (RecordJoin u tok) st =
     after_call (record_line ops it st (join_line u) (trim_end (join_line u)))
       (\<lambda>dropped. Some (if dropped then JoinUsers u tok else Talk u tok)) (Some (Finish u tok False True))"
| "task_call ops it rnd i a (JoinUsers u tok) st =
     after_call (broadcast_presence ops it st) (\<lambda>_. Some (Talk u tok)) (Some (Finish u tok False True))"
| "task_call ops it rnd i a (Talk u tok) st = frame_phase rnd i a u tok st"
| "task_call ops it rnd i a (Compose u tok content) st =
     (let line = format_chat_message u (time_of_day i) content in
      after_call (record_line ops it st line line)
        (\<lambda>dropped. Some (if dropped then LineUsers u tok else Talk u tok)) (Some (Finish u tok True True)))"
| "task_call ops it rnd i a (LineUsers u tok) st =
     after_call (broadcast_presence ops it st) (\<lambda>_. Some (Talk u tok)) (Some (Finish u tok True True))"
| "task_call ops it rnd i a (Finish u tok announce failed) st =
     after_call (remove_client_if_current st a tok)
       (\<lambda>removed. if removed \<and> announce then Some (RecordLeave u tok failed) else None)
       (if failed then None else Some (Finish u tok announce True))"
| "task_call ops it rnd i a (RecordLeave u tok failed) st =
     after_call (record_line ops it st (leave_line u) (trim_end (leave_line u)))
       (\<lambda>_. Some (LeaveUsers u tok failed)) (if failed then None else Some (Finish u tok True True))"
| "task_call ops it rnd i a (LeaveUsers u tok failed) st =
     after_call (broadcast_presence ops it st) (\<lambda>_. None) (if failed then None else Some (Finish u tok True True))"
| "task_call ops it rnd i a (Writing u tok) st =
     after_call (remove_client_if_current st a tok)
       (\<lambda>removed. if removed then Some (CheckJoined u tok) else None) None"
| "task_call ops it rnd i a (CheckJoined u tok) st =
     (Ok (Some (if has_joined i then WriterLeave u tok else WriterUsers)), st)"
| "task_call ops it rnd i a (WriterLeave u tok) st =
     after_call (record_line ops it st (leave_line u) (trim_end (leave_line u))) (\<lambda>_. Some WriterUsers) (Some WriterUsers)"
| "task_call ops it rnd i a WriterUsers st = after_call (broadcast_presence ops it st) (\<lambda>_. None) None"

subsection \<open>The system\<close>

text \<open>A handler's task owns the permit it was admitted with; a writer's task has none.\<close>

record task =
  peer :: socket_addr
  holds :: "permit option"
  phase :: phase

record ('s, 'w) system =
  admitting :: "'s admission"
  shared :: "'w server_state"
  tasks :: "task list"

definition system_new :: "'s \<Rightarrow> (chan_id \<Rightarrow> 'w) \<Rightarrow> ('s, 'w) system" where
  "system_new permits chans = \<lparr>admitting = admission_new permits, shared = new_shared_state chans, tasks = []\<rparr>"

text \<open>
  Starting: \<^verbatim>\<open>run_server\<close> builds the runtime, \<^verbatim>\<open>run_server_async\<close> binds and asks for its address;
  the first failure is the result. Otherwise the loop runs from the initial system and never
  returns; the first component says whether the warning about the address is logged.
\<close>

fun is_loopback :: "ip_addr \<Rightarrow> bool" where
  "is_loopback (V4 w) = (drop_bit 24 w = 127)"
| "is_loopback (V6 w) = (w = 1)"

definition bind_is_not_loopback :: "ip_addr \<Rightarrow> bool" where
  "bind_is_not_loopback ip = (\<not> is_loopback ip)"

definition run_server_async ::
  "(unit, error_kind) result \<Rightarrow> (socket_addr, error_kind) result \<Rightarrow> 's \<Rightarrow> (chan_id \<Rightarrow> 'w) \<Rightarrow>
     (bool \<times> ('s, 'w) system, server_error) result"
where
  "run_server_async bound local_addr permits chans =
     (case bound of
        Panic \<Rightarrow> Panic
      | Err e \<Rightarrow> Err (ServerIo e)
      | Ok _ \<Rightarrow>
          (case local_addr of
             Panic \<Rightarrow> Panic
           | Err e \<Rightarrow> Err (ServerIo e)
           | Ok address \<Rightarrow> Ok (bind_is_not_loopback (addr_ip address), system_new permits chans)))"

definition run_server ::
  "(unit, error_kind) result \<Rightarrow> (unit, error_kind) result \<Rightarrow> (socket_addr, error_kind) result \<Rightarrow> 's \<Rightarrow> (chan_id \<Rightarrow> 'w) \<Rightarrow>
     (bool \<times> ('s, 'w) system, server_error) result"
where
  "run_server built bound local_addr permits chans =
     (case built of
        Panic \<Rightarrow> Panic
      | Err e \<Rightarrow> Err (ServerIo e)
      | Ok _ \<Rightarrow> run_server_async bound local_addr permits chans)"

text \<open>One turn of the accept loop: a failed \<^verbatim>\<open>accept\<close> and a connection without a permit leave
  nothing behind, an admitted one becomes a task.\<close>

definition accept_turn ::
  "'s sem_ops \<Rightarrow> (socket_addr, error_kind) result \<Rightarrow> ('s, 'w) system \<Rightarrow> ('s, 'w) system"
where
  "accept_turn sem accepted s =
     (case accepted of
        Ok peer_addr \<Rightarrow>
          (case try_acquire sem (admitting s) peer_addr of
             (None, adm) \<Rightarrow> s\<lparr>admitting := adm\<rparr>
           | (Some p, adm) \<Rightarrow>
               s\<lparr>admitting := adm, tasks := tasks s @ [\<lparr>peer = peer_addr, holds = Some p, phase = Handshaking\<rparr>]\<rparr>)
      | _ \<Rightarrow> s)"

definition cleanup_tick :: "nat \<Rightarrow> ('s, 'w) system \<Rightarrow> ('s, 'w) system" where
  "cleanup_tick time s = s\<lparr>shared := snd (cleanup_rate_limits time (shared s))\<rparr>"

text \<open>The writer's task is spawned when the client has its name.\<close>

fun spawned :: "socket_addr \<Rightarrow> phase \<Rightarrow> phase option \<Rightarrow> task list" where
  "spawned a (Name u tok) (Some (Replay u' tok')) = [\<lparr>peer = a, holds = None, phase = Writing u tok\<rparr>]"
| "spawned a p q = []"

text \<open>A task that returns, or dies of a panic, drops its permit.\<close>

definition drop_held :: "'s sem_ops \<Rightarrow> permit option \<Rightarrow> 's admission \<Rightarrow> 's admission" where
  "drop_held sem held adm = (case held of None \<Rightarrow> adm | Some p \<Rightarrow> snd (drop_permit sem p adm))"

definition task_turn ::
  "'s sem_ops \<Rightarrow> 'w chan_ops \<Rightarrow> map_orders \<Rightarrow> (rat \<Rightarrow> rat) \<Rightarrow> 'w inputs \<Rightarrow> task list \<Rightarrow> task \<Rightarrow> task list \<Rightarrow>
     ('s, 'w) system \<Rightarrow> ('s, 'w) system"
where
  "task_turn sem ops it rnd i earlier t later s =
     (case task_call ops it rnd i (peer t) (phase t) (shared s) of
        (Ok (Some p), st) \<Rightarrow>
          s\<lparr>shared := st, tasks := earlier @ t\<lparr>phase := p\<rparr> # later @ spawned (peer t) (phase t) (Some p)\<rparr>
      | (_, st) \<Rightarrow>
          s\<lparr>shared := st, admitting := drop_held sem (holds t) (admitting s), tasks := earlier @ later\<rparr>)"

text \<open>What can be said of the inputs: the handshake yields what the decoder lets through, a new
  channel is not in use, and reading does not panic.\<close>

definition inputs_ok :: "'w inputs \<Rightarrow> 'w server_state \<Rightarrow> bool" where
  "inputs_ok i st \<longleftrightarrow>
     shaken i \<noteq> Panic \<and> (\<forall>u. shaken i = Ok u \<longrightarrow> registered_name u) \<and> selected i \<noteq> Some Panic \<and>
     unused_channel (channel i) (outboxes st) \<and> str_len (time_of_day i) = 5 \<and> valid_str (time_of_day i)"

text \<open>The steps. Messages leave the channels as the writers receive them; a writer whose channel is
  closed and empty returns.\<close>

inductive server_step ::
  "'s sem_ops \<Rightarrow> 'w chan_ops \<Rightarrow> map_orders \<Rightarrow> (rat \<Rightarrow> rat) \<Rightarrow> ('s, 'w) system \<Rightarrow> ('s, 'w) system \<Rightarrow> bool"
  for sem ops it rnd
where
  accept: "server_step sem ops it rnd s (accept_turn sem accepted s)"
| cleanup: "server_step sem ops it rnd s (cleanup_tick time s)"
| call: "tasks s = before @ t # after \<Longrightarrow> inputs_ok i (shared s) \<Longrightarrow>
    server_step sem ops it rnd s (task_turn sem ops it rnd i before t after s)"
| received: "server_step sem ops it rnd s (s\<lparr>shared := (shared s)\<lparr>channels := chans\<rparr>\<rparr>)"
| writer_done: "tasks s = before @ t # after \<Longrightarrow> phase t = Writing u tok \<Longrightarrow>
    server_step sem ops it rnd s (s\<lparr>tasks := before @ after\<rparr>)"

inductive server_reachable ::
  "'s sem_ops \<Rightarrow> 'w chan_ops \<Rightarrow> map_orders \<Rightarrow> (rat \<Rightarrow> rat) \<Rightarrow> 's \<Rightarrow> (chan_id \<Rightarrow> 'w) \<Rightarrow> ('s, 'w) system \<Rightarrow> bool"
  for sem ops it rnd permits chans
where
  start: "server_reachable sem ops it rnd permits chans (system_new permits chans)"
| step: "server_reachable sem ops it rnd permits chans s \<Longrightarrow> server_step sem ops it rnd s s' \<Longrightarrow>
    server_reachable sem ops it rnd permits chans s'"

end
