(* ===== verification/Server_Facts.thy ===== *)
theory Server_Facts
  imports Server
begin

section \<open>What the server keeps in every reachable state\<close>

text \<open>
  The invariant of the whole server: the shared state is sound, every registered client has a
  task that handles it, every such task holds a permit for its address, and the permits are
  within the limits. Every step keeps it, so in no interleaving does a call panic or the registry
  refuse a client. A task that is not interrupted does what the connection model says.
\<close>

subsection \<open>Invariant\<close>

text \<open>The client a handler's task may have registered, and the permits that are out.\<close>

fun phase_token :: "phase \<Rightarrow> token option" where
  "phase_token Handshaking = None"
| "phase_token (Register u) = None"
| "phase_token (Name u tok) = Some tok"
| "phase_token (Forget tok) = Some tok"
| "phase_token (Replay u tok) = Some tok"
| "phase_token (ShowUsers u tok) = Some tok"
| "phase_token (RecordJoin u tok) = Some tok"
| "phase_token (JoinUsers u tok) = Some tok"
| "phase_token (Talk u tok) = Some tok"
| "phase_token (Compose u tok c) = Some tok"
| "phase_token (LineUsers u tok) = Some tok"
| "phase_token (Finish u tok j f) = Some tok"
| "phase_token (RecordLeave u tok f) = None"
| "phase_token (LeaveUsers u tok f) = None"
| "phase_token (Writing u tok) = None"
| "phase_token (CheckJoined u tok) = None"
| "phase_token (WriterLeave u tok) = None"
| "phase_token WriterUsers = None"

fun phase_name :: "phase \<Rightarrow> ustr option" where
  "phase_name Handshaking = None"
| "phase_name (Register u) = Some u"
| "phase_name (Name u tok) = Some u"
| "phase_name (Forget tok) = None"
| "phase_name (Replay u tok) = Some u"
| "phase_name (ShowUsers u tok) = Some u"
| "phase_name (RecordJoin u tok) = Some u"
| "phase_name (JoinUsers u tok) = Some u"
| "phase_name (Talk u tok) = Some u"
| "phase_name (Compose u tok c) = Some u"
| "phase_name (LineUsers u tok) = Some u"
| "phase_name (Finish u tok j f) = Some u"
| "phase_name (RecordLeave u tok f) = Some u"
| "phase_name (LeaveUsers u tok f) = Some u"
| "phase_name (Writing u tok) = Some u"
| "phase_name (CheckJoined u tok) = Some u"
| "phase_name (WriterLeave u tok) = Some u"
| "phase_name WriterUsers = None"

fun is_writer :: "phase \<Rightarrow> bool" where
  "is_writer (Writing u tok) = True"
| "is_writer (CheckJoined u tok) = True"
| "is_writer (WriterLeave u tok) = True"
| "is_writer WriterUsers = True"
| "is_writer p = False"

fun content_ok :: "phase \<Rightarrow> bool" where
  "content_ok (Compose u tok c) = (str_len c \<le> MAX_CHAT_MESSAGE_BYTES \<and> valid_str c)"
| "content_ok p = True"

definition phase_ok :: "phase \<Rightarrow> bool" where
  "phase_ok p \<longleftrightarrow> content_ok p \<and> (\<forall>u. phase_name p = Some u \<longrightarrow> registered_name u)"

definition task_ok :: "task \<Rightarrow> bool" where
  "task_ok t \<longleftrightarrow>
     phase_ok (phase t) \<and>
     (if is_writer (phase t) then holds t = None else holds t = Some \<lparr>permit_ip = addr_ip (peer t)\<rparr>)"

definition client_of :: "task \<Rightarrow> (socket_addr \<times> token) option" where
  "client_of t = map_option (Pair (peer t)) (phase_token (phase t))"

definition handled :: "task list \<Rightarrow> (socket_addr \<times> token) list" where
  "handled ts = List.map_filter client_of ts"

definition permits_out :: "task list \<Rightarrow> ip_addr multiset" where
  "permits_out ts = mset (map permit_ip (List.map_filter holds ts))"

definition system_inv :: "('s \<Rightarrow> nat) \<Rightarrow> ('s, 'w) system \<Rightarrow> bool" where
  "system_inv free s \<longleftrightarrow>
     sound (shared s) \<and> list_all task_ok (tasks s) \<and> admission_inv free (permits_out (tasks s)) (admitting s) \<and>
     distinct (map snd (handled (tasks s))) \<and> (\<forall>(a, tok) \<in> set (handled (tasks s)). tok < next_token (shared s)) \<and>
     members (shared s) \<subseteq> set (handled (tasks s))"

subsection \<open>A call keeps the shared state sound\<close>

lemma register_pending_sound:
  assumes "sound st" "unused_channel w (outboxes st)"
  obtains (refused) "register_pending_client st a w dc = (Err ConnectionLimitReached, st)"
      "limit_reached (guarded (clients st)) (addr_ip a)"
    | (registered) st' where "register_pending_client st a w dc = (Ok (next_token st), st')" "sound st'"
      "members st' = insert (a, next_token st) (members st)" "next_token st' = Suc (next_token st)"
proof (cases "limit_reached (guarded (clients st)) (addr_ip a)")
  case True
  have "\<not> poisoned (clients st)" using assms(1) by (simp add: sound_def settled_def server_inv_def healthy_def)
  with True refused show ?thesis by (simp add: register_pending_client_def register_client_with_status_def)
next
  case False
  note set = sound_settled [OF assms(1)]
  let ?d = "\<lparr>cd_addr = a, cd_token = next_token st, cd_writer = w, cd_disconnect = Some dc, cd_ready = False, cd_pending = []\<rparr>"
  obtain st' where r: "register_client_with_status st a w (Some dc) False = (Ok (next_token st), st')"
    and i: "server_inv st'" "same_rest st st'" "signals st' = signals st" "next_token st' = Suc (next_token st)"
    and s: "\<And>b. hm_or [] b (sessions st') = hm_or [] b (sessions st) @
        (if b = a then [\<lparr>cs_token = next_token st, cs_username = None\<rparr>] else [])"
    and o: "\<And>b. hm_or [] b (outboxes st') = hm_or [] b (outboxes st) @ (if b = a then [?d] else [])"
    by (rule register_spec [OF settledD(1) [OF set] False, of w "Some dc" False], rule that)
  have "own_channels (outboxes st')"
    by (rule own_channels_add [OF settledD(2) [OF set], of ?d]) (use assms(2) o in simp_all)
  moreover have "names_ok st'"
    using settledD(3) [OF set] by (auto simp: names_ok_def s split: if_splits)
  ultimately have "sound st'"
    using i by (intro sound_same_history [OF assms(1)]) (simp_all add: settled_def same_rest_def)
  moreover have "members st' = insert (a, next_token st) (members st)"
    by (auto simp: members_def s split: if_splits)
  ultimately show ?thesis using r i(4) by (intro registered [of st']) (simp_all add: register_pending_client_def)
qed

lemma set_username_sound:
  assumes "sound st" "registered_name u"
  obtains r st' where "set_client_username st a tok u = (r, st')" "r \<noteq> Panic" "sound st'"
    "members st' = members st" "next_token st' = next_token st"
proof -
  note set = sound_settled [OF assms(1)]
  obtain st' where r: "set_client_username st a tok u =
       (if tok \<in> cs_token ` set (hm_or [] a (sessions st)) then Ok () else Err UnknownClient, st')"
    and i: "server_inv st'" "same_rest st st'" "signals st' = signals st" "next_token st' = next_token st"
      "deliveries st' = deliveries st"
    and s: "\<And>b. hm_or [] b (sessions st') =
        (if b = a then update_first (\<lambda>c. cs_token c = tok) (\<lambda>c. c\<lparr>cs_username := Some u\<rparr>) (hm_or [] a (sessions st))
         else hm_or [] b (sessions st))"
    by (rule set_username_spec [OF settledD(1) [OF set], of a tok u], rule that)
  have "names_ok st'"
    unfolding names_ok_def
  proof (intro allI ballI impI)
    fix b c x assume c: "c \<in> set (hm_or [] b (sessions st'))" "cs_username c = Some x"
    then have "c \<in> set (hm_or [] b (sessions st)) \<or> x = u"
      unfolding s by (auto split: if_splits dest: set_update_first)
    with c(2) settledD(3) [OF set] assms(2) show "registered_name x" by (auto simp: names_ok_def)
  qed
  then have "sound st'"
    using i settledD(2) [OF set] by (intro sound_same_history [OF assms(1)]) (simp_all add: settled_def same_rest_def)
  moreover have "cs_token ` set (hm_or [] b (sessions st')) = cs_token ` set (hm_or [] b (sessions st))" for b
  proof -
    have "map cs_token (hm_or [] b (sessions st')) = map cs_token (hm_or [] b (sessions st))"
      by (simp add: s map_update_first)
    then show ?thesis by (metis set_map)
  qed
  then have "members st' = members st" by (simp add: members_def)
  ultimately show ?thesis using r i(4) by (intro that [OF r]) auto
qed

lemma mark_client_ready_token: "next_token (snd (mark_client_ready ops st a tok)) = next_token st"
  by (auto simp: mark_client_ready_def Let_def split: option.splits prod.splits send_status.splits)

lemma members_frame [simp]:
  "members (st\<lparr>channels := c\<rparr>) = members st" "members (st\<lparr>replay_barrier := b\<rparr>) = members st"
  "members (st\<lparr>rate_limits := l\<rparr>) = members st"
  by (simp_all add: members_def)

lemma under_barrier_members:
  "members (snd (under_barrier p)) = members (snd p)" "next_token (snd (under_barrier p)) = next_token (snd p)"
  by (cases p rule: under_barrier.cases; simp)+

lemma send_message_history_members:
  "members (snd (send_message_history ops st a tok)) = members st"
  "next_token (snd (send_message_history ops st a tok)) = next_token st"
proof -
  have "members (snd (send_message_history ops st a tok)) = members st \<and>
    next_token (snd (send_message_history ops st a tok)) = next_token st"
  proof (cases "history_snapshot_unlocked st a tok")
    case (Pair r st1)
    have st1: "st1 = st" using Pair by (auto simp: history_snapshot_unlocked_def split: if_splits option.splits)
    show ?thesis
    proof (cases r)
      case (Ok p)
      obtain c ls where p: "p = (c, ls)" by (cases p)
      obtain x w where sl: "send_lines ops ls (channels st c) = (x, w)" by fastforce
      let ?st = "st\<lparr>channels := (channels st)(c := w)\<rparr>"
      obtain y st2 where mr: "mark_client_ready ops ?st a tok = (y, st2)" by fastforce
      have "clients st2 = clients st" "next_token st2 = next_token st"
        using mark_client_ready_frame(1) [of ops ?st a tok] mark_client_ready_token [of ops ?st a tok] mr by simp_all
      then have "members st2 = members st" "next_token st2 = next_token st" by (simp_all add: members_def)
      then show ?thesis
        using Pair st1 Ok p sl mr
        by (cases x; cases y) (simp_all add: send_message_history_def with_history_replay_def under_barrier_members)
    qed (use Pair st1 in \<open>simp_all add: send_message_history_def with_history_replay_def under_barrier_members\<close>)
  qed
  then show "members (snd (send_message_history ops st a tok)) = members st"
    "next_token (snd (send_message_history ops st a tok)) = next_token st" by blast+
qed

lemma sound_cleanup: "sound st \<Longrightarrow> sound (snd (cleanup_rate_limits time st))"
  by (auto simp: cleanup_rate_limits_def sound_def settled_def server_inv_def healthy_def names_ok_def)

lemma record_line_sound:
  assumes "sound st" "orders_ok it" "short_line line" "short_line content"
  obtains st' b where "record_line ops it st line content = (Ok b, st')" "sound st'" "shrinks st st'"
proof -
  obtain st' b where "record_and_broadcast ops it st line (chat_bytes content) None = (Ok b, st')" "sound st'" "shrinks st st'"
    by (rule record_and_broadcast_sound [OF assms(1-3), of ops "chat_bytes content" None], rule that)
  then show ?thesis by (intro that [of b st']) (simp_all add: record_line_def encode_short [OF assms(4)])
qed

text \<open>How a call changes the clients: it registers its own, or clients only leave and the task goes
  on handling its client as long as that one may be registered.\<close>

definition keeps_client :: "socket_addr \<Rightarrow> phase \<Rightarrow> phase option \<Rightarrow> 'w server_state \<Rightarrow> 'w server_state \<Rightarrow> bool" where
  "keeps_client a p q st st' \<longleftrightarrow>
     next_token st' = next_token st \<and> members st' \<subseteq> members st \<and>
     (case phase_token p of
        None \<Rightarrow> q = None \<or> phase_token (the q) = None
      | Some tok \<Rightarrow> (q \<noteq> None \<and> phase_token (the q) = Some tok) \<or>
          ((a, tok) \<notin> members st' \<and> (q = None \<or> phase_token (the q) = None)))"

definition adds_client :: "socket_addr \<Rightarrow> phase \<Rightarrow> phase option \<Rightarrow> 'w server_state \<Rightarrow> 'w server_state \<Rightarrow> bool" where
  "adds_client a p q st st' \<longleftrightarrow>
     phase_token p = None \<and> q \<noteq> None \<and> phase_token (the q) = Some (next_token st) \<and>
     next_token st' = Suc (next_token st) \<and> members st' = insert (a, next_token st) (members st)"

definition call_sound :: "socket_addr \<Rightarrow> phase \<Rightarrow> phase option \<Rightarrow> 'w server_state \<Rightarrow> 'w server_state \<Rightarrow> bool" where
  "call_sound a p q st st' \<longleftrightarrow>
     sound st' \<and> (\<forall>p'. q = Some p' \<longrightarrow> phase_ok p' \<and> is_writer p' = is_writer p) \<and>
     (keeps_client a p q st st' \<or> adds_client a p q st st')"

lemma frame_phase_sound:
  assumes "sound st" "registered_name u" "selected i \<noteq> Some Panic"
  shows "\<exists>q st'. frame_phase rnd i a u tok st = (Ok q, st') \<and> call_sound a (Talk u tok) q st st'"
proof -
  have stay: "call_sound a (Talk u tok) (Some p) st st"
    if "phase_ok p" "\<not> is_writer p" "phase_token p = Some tok" for p
    using assms(1) that by (auto simp: call_sound_def keeps_client_def)
  note stays = stay [of "Finish u tok True b" for b] stay [of "Talk u tok"]
  have ok: "phase_ok (Finish u tok True b)" "phase_ok (Talk u tok)" for b
    using assms(2) by (simp_all add: phase_ok_def)
  have allow: "\<exists>q st'. after_call (allow_message rnd (now i) st a) (\<lambda>_. Some (Compose u tok c)) (Some (Finish u tok True True)) =
      (Ok q, st') \<and> call_sound a (Talk u tok) q st st'" if "length (payload f) \<le> MAX_CHAT_MESSAGE_BYTES" "from_utf8 (payload f) = Some c" for f c
  proof -
    obtain r st1 where al: "allow_message rnd (now i) st a = (r, st1)" by fastforce
    with allow_message_sound [OF assms(1), of rnd "now i" a] have s1: "sound st1" "members st1 = members st"
      "r = Ok () \<or> r = Err MessageRateLimitExceeded" by auto
    have "next_token st1 = next_token st" using allow_message_frame [of rnd "now i" st a] al by simp
    moreover have "length (payload f) = str_len c" using from_utf8_SomeD(1) [OF that(2)] by (metis length_as_bytes)
    then have "phase_ok (Compose u tok c)" using assms(2) that from_utf8_SomeD(2) by (simp add: phase_ok_def)
    ultimately show ?thesis
      using s1 al ok by (auto simp: call_sound_def keeps_client_def)
  qed
  show ?thesis
    using assms(3) stays ok allow
    by (auto simp: frame_phase_def not_less split: option.split result.split)
qed

definition good_call ::
  "'w chan_ops \<Rightarrow> map_orders \<Rightarrow> (rat \<Rightarrow> rat) \<Rightarrow> 'w inputs \<Rightarrow> socket_addr \<Rightarrow> phase \<Rightarrow> 'w server_state \<Rightarrow> bool"
where
  "good_call ops it rnd i a p st \<longleftrightarrow> (\<exists>q st'. task_call ops it rnd i a p st = (Ok q, st') \<and> call_sound a p q st st')"

lemmas call_defs = good_call_def call_sound_def keeps_client_def phase_ok_def

lemma shrinks_frame: "shrinks st st' \<Longrightarrow> next_token st' = next_token st \<and> members st' \<subseteq> members st"
  using shrinks_members by (auto simp: shrinks_def)

lemma short_join_leave:
  assumes "registered_name u"
  shows "short_line (join_line u)" "short_line (leave_line u)" "short_line (trim_end (join_line u))"
    "short_line (trim_end (leave_line u))"
  using assms short_announcements [of u] by (simp_all add: registered_name_def short_trim_end)

text \<open>What the call of a phase is: one of joining, a presence update, a recorded line, a removal, or
  the handling of a frame.\<close>

datatype call_kind = Joining | Presence_update | Line | Removal | Frame_read

fun kind_of_call :: "phase \<Rightarrow> call_kind" where
  "kind_of_call (ShowUsers u tok) = Presence_update"
| "kind_of_call (JoinUsers u tok) = Presence_update"
| "kind_of_call (LineUsers u tok) = Presence_update"
| "kind_of_call (LeaveUsers u tok f) = Presence_update"
| "kind_of_call WriterUsers = Presence_update"
| "kind_of_call (RecordJoin u tok) = Line"
| "kind_of_call (Compose u tok c) = Line"
| "kind_of_call (RecordLeave u tok f) = Line"
| "kind_of_call (WriterLeave u tok) = Line"
| "kind_of_call (Forget tok) = Removal"
| "kind_of_call (Finish u tok j f) = Removal"
| "kind_of_call (Writing u tok) = Removal"
| "kind_of_call (CheckJoined u tok) = Removal"
| "kind_of_call (Talk u tok) = Frame_read"
| "kind_of_call p = Joining"

lemma presence_call:
  assumes "sound st" "orders_ok it" "phase_ok p" "kind_of_call p = Presence_update"
  shows "good_call ops it rnd i a p st"
proof -
  obtain st' where st': "broadcast_presence ops it st = (Ok (), st')" "sound st'" "shrinks st st'"
    by (rule broadcast_presence_sound [OF assms(1,2), of ops], rule that)
  show ?thesis
    using assms(3,4) st' shrinks_frame [OF st'(3)] by (cases p) (simp_all add: call_defs)
qed

lemma line_call:
  assumes "sound st" "orders_ok it" "phase_ok p" "kind_of_call p = Line" "str_len (time_of_day i) = 5"
  shows "good_call ops it rnd i a p st"
proof -
  have recorded: "\<exists>b st'. record_line ops it st line content = (Ok b, st') \<and> sound st' \<and> next_token st' = next_token st \<and>
      members st' \<subseteq> members st" if "short_line line" "short_line content" for line content
    using record_line_sound [OF assms(1,2) that, of ops] shrinks_frame by metis
  have announce: "\<exists>b st'. record_line ops it st (join_line u) (trim_end (join_line u)) = (Ok b, st') \<and> sound st' \<and>
      next_token st' = next_token st \<and> members st' \<subseteq> members st"
    "\<exists>b st'. record_line ops it st (leave_line u) (trim_end (leave_line u)) = (Ok b, st') \<and> sound st' \<and>
      next_token st' = next_token st \<and> members st' \<subseteq> members st" if "phase_ok p" "phase_name p = Some u" for u
    using short_join_leave [of u] that by (auto simp: phase_ok_def intro!: recorded)
  note name = assms(3) [unfolded phase_ok_def]
  show ?thesis
  proof (cases p)
    case (RecordJoin u tok)
    with announce(1) [OF assms(3), of u] obtain b st' where
      "record_line ops it st (join_line u) (trim_end (join_line u)) = (Ok b, st')" "sound st'"
      "next_token st' = next_token st" "members st' \<subseteq> members st" by auto
    with RecordJoin name show ?thesis by (cases b) (simp_all add: call_defs)
  next
    case (Compose u tok c)
    with name assms(5) have "short_line (format_chat_message u (time_of_day i) c)"
      using short_message [of u c "time_of_day i"] by (auto simp: registered_name_def)
    from recorded [OF this this] obtain b st' where
      "record_line ops it st (format_chat_message u (time_of_day i) c) (format_chat_message u (time_of_day i) c) = (Ok b, st')"
      "sound st'" "next_token st' = next_token st" "members st' \<subseteq> members st" by auto
    with Compose name show ?thesis by (cases b) (simp_all add: call_defs Let_def)
  next
    case (RecordLeave u tok f)
    with announce(2) [OF assms(3), of u] obtain b st' where
      "record_line ops it st (leave_line u) (trim_end (leave_line u)) = (Ok b, st')" "sound st'"
      "next_token st' = next_token st" "members st' \<subseteq> members st" by auto
    with RecordLeave name show ?thesis by (simp add: call_defs)
  next
    case (WriterLeave u tok)
    with announce(2) [OF assms(3), of u] obtain b st' where
      "record_line ops it st (leave_line u) (trim_end (leave_line u)) = (Ok b, st')" "sound st'"
      "next_token st' = next_token st" "members st' \<subseteq> members st" by auto
    with WriterLeave name show ?thesis by (simp add: call_defs)
  qed (use assms(4) in simp_all)
qed

lemma removal_call:
  assumes "sound st" "phase_ok p" "kind_of_call p = Removal"
  shows "good_call ops it rnd i a p st"
proof -
  have remove: "\<exists>st'. remove_client_if_current st a tok = (Ok ((a, tok) \<in> members st), st') \<and> sound st' \<and>
      next_token st' = next_token st \<and> members st' = members st - {(a, tok)}" for tok
    using remove_sound [OF assms(1), of a tok] shrinks_frame by metis
  show ?thesis
  proof (cases p)
    case (Forget tok)
    with remove [of tok] show ?thesis by (auto simp: call_defs)
  next
    case (Finish u tok j f)
    with remove [of tok] assms(2) show ?thesis by (cases "(a, tok) \<in> members st \<and> j") (auto simp: call_defs)
  next
    case (Writing u tok)
    with remove [of tok] assms(2) show ?thesis by (cases "(a, tok) \<in> members st") (auto simp: call_defs)
  next
    case (CheckJoined u tok)
    with assms(1,2) show ?thesis by (cases "has_joined i") (simp_all add: call_defs)
  qed (use assms(3) in simp_all)
qed

lemma joining_call:
  assumes "sound st" "phase_ok p" "kind_of_call p = Joining" "inputs_ok i st"
  shows "good_call ops it rnd i a p st"
proof (cases p)
  case Handshaking
  with assms show ?thesis by (cases "shaken i") (auto simp: inputs_ok_def call_defs)
next
  case (Register u)
  let ?st = "st\<lparr>channels := (channels st)(channel i := fresh i)\<rparr>"
  have s: "sound ?st" "unused_channel (channel i) (outboxes ?st)" using assms by (simp_all add: inputs_ok_def)
  show ?thesis
    using Register assms(2) s
    by (cases rule: register_pending_sound [OF s, of a "watch i"]) (auto simp: call_defs adds_client_def)
next
  case (Name u tok)
  then have "registered_name u" using assms(2) by (simp add: phase_ok_def)
  from set_username_sound [OF assms(1) this, of a tok] obtain r st' where
    "set_client_username st a tok u = (r, st')" "r \<noteq> Panic" "sound st'" "members st' = members st" "next_token st' = next_token st"
    by metis
  with Name assms(2) show ?thesis by (cases r) (auto simp: call_defs)
next
  case (Replay u tok)
  obtain r st' where h: "send_message_history ops st a tok = (r, st')" by fastforce
  with send_message_history_sound [OF assms(1), of ops a tok] send_message_history_members [of ops st a tok]
  have "r \<noteq> Panic" "sound st'" "members st' = members st" "next_token st' = next_token st" by auto
  with h Replay assms(2) show ?thesis by (cases r) (auto simp: call_defs)
qed (use assms(3) in simp_all)

lemma task_call_sound:
  assumes "sound st" "orders_ok it" "phase_ok p" "inputs_ok i st"
  obtains q st' where "task_call ops it rnd i a p st = (Ok q, st')" "call_sound a p q st st'"
proof -
  have "str_len (time_of_day i) = 5" using assms(4) by (simp add: inputs_ok_def)
  note calls = presence_call [OF assms(1-3)] removal_call [OF assms(1,3)] line_call [OF assms(1-3) _ this]
    joining_call [OF assms(1,3) _ assms(4)]
  have "good_call ops it rnd i a p st"
  proof (cases "kind_of_call p")
    case Frame_read
    then obtain u tok where p: "p = Talk u tok" by (cases p) auto
    with frame_phase_sound [OF assms(1), of u i rnd a tok] assms(3,4) show ?thesis
      by (auto simp: inputs_ok_def phase_ok_def good_call_def)
  qed (use calls in simp_all)
  with that show ?thesis by (auto simp: good_call_def)
qed

subsection \<open>Every step keeps the invariant\<close>

lemma handled_simps [simp]:
  "handled [] = []" "handled (xs @ ys) = handled xs @ handled ys"
  "handled (t # ts) = (case client_of t of None \<Rightarrow> handled ts | Some c \<Rightarrow> c # handled ts)"
  by (simp_all add: handled_def map_filter_simps List.map_filter_def split: option.split)

lemma permits_out_simps [simp]:
  "permits_out [] = {#}" "permits_out (xs @ ys) = permits_out xs + permits_out ys"
  "permits_out (t # ts) = (case holds t of None \<Rightarrow> permits_out ts | Some p \<Rightarrow> add_mset (permit_ip p) (permits_out ts))"
  by (simp_all add: permits_out_def map_filter_simps List.map_filter_def split: option.split)

lemma client_of_update [simp]: "client_of (t\<lparr>phase := p\<rparr>) = map_option (Pair (peer t)) (phase_token p)"
  by (simp add: client_of_def)

lemma spawned_simps [simp]: "handled (spawned a p q) = []" "permits_out (spawned a p q) = {#}"
  by (cases "(a, p, q)" rule: spawned.cases; simp add: client_of_def)+

lemma spawned_ok: "phase_ok p \<Longrightarrow> list_all task_ok (spawned a p q)"
  by (cases "(a, p, q)" rule: spawned.cases) (simp_all add: task_ok_def phase_ok_def)

text \<open>Every registered client has a handler, and every handler a permit for its address.\<close>

lemma clients_hold_permits:
  "list_all task_ok ts \<Longrightarrow> image_mset (\<lambda>(b, t). addr_ip b) (mset (handled ts)) \<subseteq># permits_out ts"
proof (induction ts)
  case (Cons t ts)
  then have IH: "image_mset (\<lambda>(b, t). addr_ip b) (mset (handled ts)) \<subseteq># permits_out ts" and t: "task_ok t" by simp_all
  show ?case
  proof (cases "client_of t")
    case None
    have "permits_out ts \<subseteq># permits_out (t # ts)" by (simp split: option.split)
    with IH None show ?thesis by (simp add: subset_mset.order_trans)
  next
    case (Some c)
    then obtain tok where c: "c = (peer t, tok)" "phase_token (phase t) = Some tok" by (auto simp: client_of_def)
    then have "\<not> is_writer (phase t)" by (cases "phase t") auto
    with t have "holds t = Some \<lparr>permit_ip = addr_ip (peer t)\<rparr>" by (simp add: task_ok_def)
    with IH Some c(1) show ?thesis by simp
  qed
qed simp

lemma system_invD:
  assumes "system_inv free s"
  shows "sound (shared s)" "list_all task_ok (tasks s)" "admission_inv free (permits_out (tasks s)) (admitting s)"
    "distinct (map snd (handled (tasks s)))" "\<forall>(a, tok) \<in> set (handled (tasks s)). tok < next_token (shared s)"
    "members (shared s) \<subseteq> set (handled (tasks s))"
  using assms by (auto simp: system_inv_def)

lemma system_new_inv: "free permits = MAX_CONNECTIONS \<Longrightarrow> system_inv free (system_new permits chans)"
proof -
  assume "free permits = MAX_CONNECTIONS"
  moreover have "members (new_shared_state chans) = {}"
    by (simp add: members_def new_shared_state_def registry_new_def hm_empty_def hm_or_def)
  moreover have "sound (new_shared_state chans)"
    using new_shared_state_inv [of chans]
    by (simp add: sound_def settled_def history_ok_def)
      (simp add: own_channels_def names_ok_def new_shared_state_def new_registry_def registry_new_def hm_empty_def hm_or_def history_new_def)
  ultimately show ?thesis
    by (simp add: system_inv_def system_new_def admission_new_inv)
qed

lemma task_end_permits:
  assumes "semaphore sem free" and "admission_inv free (permits_out (before @ t # after)) adm" and "task_ok t"
  shows "admission_inv free (permits_out (before @ after)) (drop_held sem (holds t) adm)"
proof (cases "holds t")
  case None
  with assms(2) show ?thesis by (simp add: drop_held_def)
next
  case (Some p)
  then have "permits_out (before @ t # after) = add_mset (permit_ip p) (permits_out (before @ after))" by simp
  with semaphore.drop_permit_refines [OF assms(1,2), of p] Some show ?thesis
    by (auto simp: drop_held_def)
qed

lemma clients_after_call:
  assumes "call_sound (peer t) (phase t) q st st'"
    and old: "distinct (map snd (handled (before @ t # after)))"
      "\<forall>(a, tok) \<in> set (handled (before @ t # after)). tok < next_token st"
      "members st \<subseteq> set (handled (before @ t # after))"
  defines "new \<equiv> before @ (case q of None \<Rightarrow> [] | Some p \<Rightarrow> [t\<lparr>phase := p\<rparr>]) @ after"
  shows "distinct (map snd (handled new))"
    "\<forall>(a, tok) \<in> set (handled new). tok < next_token st'"
    "members st' \<subseteq> set (handled new)"
proof -
  have fresh: "next_token st \<notin> snd ` set (handled (before @ t # after))" using old(2) by force
  consider (stays) tok p where "phase_token (phase t) = Some tok" "q = Some p" "phase_token p = Some tok"
        "keeps_client (peer t) (phase t) q st st'"
    | (leaves) tok where "phase_token (phase t) = Some tok" "(peer t, tok) \<notin> members st'"
        "q = None \<or> phase_token (the q) = None" "keeps_client (peer t) (phase t) q st st'"
    | (none) "phase_token (phase t) = None" "q = None \<or> phase_token (the q) = None" "keeps_client (peer t) (phase t) q st st'"
    | (adds) p where "phase_token (phase t) = None" "q = Some p" "phase_token p = Some (next_token st)"
        "next_token st' = Suc (next_token st)" "members st' = insert (peer t, next_token st) (members st)"
    using assms(1) by (auto simp: call_sound_def keeps_client_def adds_client_def split: option.splits)
  then have "distinct (map snd (handled new)) \<and> (\<forall>(a, tok) \<in> set (handled new). tok < next_token st') \<and>
    members st' \<subseteq> set (handled new)"
  proof cases
    case stays
    then have "handled new = handled (before @ t # after)" by (simp add: new_def client_of_def)
    with stays old show ?thesis by (auto simp: keeps_client_def)
  next
    case leaves
    then have "handled new = handled before @ handled after" by (cases q) (auto simp: new_def)
    moreover have "handled (before @ t # after) = handled before @ (peer t, tok) # handled after"
      using leaves(1) by (simp add: client_of_def)
    ultimately show ?thesis using leaves(2,4) old by (auto simp: keeps_client_def)
  next
    case none
    then have "handled new = handled (before @ t # after)" by (cases q) (auto simp: new_def client_of_def)
    with none old show ?thesis by (auto simp: keeps_client_def)
  next
    case adds
    then have n: "handled new = handled before @ (peer t, next_token st) # handled after" by (simp add: new_def)
    have o: "handled (before @ t # after) = handled before @ handled after"
      using adds(1) by (simp add: client_of_def)
    have "distinct (map snd (handled new))" using old(1) fresh unfolding n o by (simp add: image_Un)
    moreover have "\<forall>(a, tok) \<in> set (handled new). tok < next_token st'"
      using old(2) unfolding n o adds(4) by (auto simp: less_Suc_eq)
    moreover have "members st' \<subseteq> set (handled new)" using old(3) unfolding n o adds(5) by auto
    ultimately show ?thesis by blast
  qed
  then show "distinct (map snd (handled new))" "\<forall>(a, tok) \<in> set (handled new). tok < next_token st'"
    "members st' \<subseteq> set (handled new)" by auto
qed

text \<open>What the end of a call does to the system, by its result.\<close>

lemma call_result_inv:
  assumes "semaphore sem free" "system_inv free s" "tasks s = before @ t # after"
    and call: "call_sound (peer t) (phase t) q (shared s) st'"
  shows "q = None \<Longrightarrow> system_inv free (s\<lparr>shared := st', admitting := drop_held sem (holds t) (admitting s), tasks := before @ after\<rparr>)"
    and "q = Some p \<Longrightarrow> system_inv free (s\<lparr>shared := st', tasks := before @ t\<lparr>phase := p\<rparr> # after @ spawned (peer t) (phase t) (Some p)\<rparr>)"
proof -
  note inv = system_invD [OF assms(2), unfolded assms(3)]
  have t: "task_ok t" "phase_ok (phase t)" using inv(2) by (simp_all add: task_ok_def)
  note clients = clients_after_call [OF call inv(4-6)]
  have st': "sound st'" using call by (simp add: call_sound_def)
  {
    assume "q = None"
    with clients st' inv(2) task_end_permits [OF assms(1) inv(3) t(1)]
    show "system_inv free (s\<lparr>shared := st', admitting := drop_held sem (holds t) (admitting s), tasks := before @ after\<rparr>)"
      by (auto simp: system_inv_def)
  next
    assume Some: "q = Some p"
    then have p: "phase_ok p" "is_writer p = is_writer (phase t)" using call by (auto simp: call_sound_def)
    let ?ts = "before @ t\<lparr>phase := p\<rparr> # after @ spawned (peer t) (phase t) (Some p)"
    have "handled ?ts = handled (before @ (case q of None \<Rightarrow> [] | Some p \<Rightarrow> [t\<lparr>phase := p\<rparr>]) @ after)"
      using Some by (simp split: option.split)
    moreover have "permits_out ?ts = permits_out (before @ t # after)" by (simp split: option.split)
    moreover have "list_all task_ok ?ts"
      using inv(2) t(1) p spawned_ok [OF t(2), of "peer t" "Some p"] by (simp add: task_ok_def)
    ultimately show "system_inv free (s\<lparr>shared := st', tasks := ?ts\<rparr>)"
      using clients st' inv(3) by (simp add: Some system_inv_def del: handled_simps permits_out_simps)
  }
qed

lemma task_turn_inv:
  assumes "semaphore sem free" "orders_ok it" "system_inv free s" "tasks s = before @ t # after" "inputs_ok i (shared s)"
  shows "system_inv free (task_turn sem ops it rnd i before t after s)"
proof -
  note inv = system_invD [OF assms(3), unfolded assms(4)]
  have "phase_ok (phase t)" using inv(2) by (simp add: task_ok_def)
  then obtain q st' where c: "task_call ops it rnd i (peer t) (phase t) (shared s) = (Ok q, st')"
    "call_sound (peer t) (phase t) q (shared s) st'"
    by (rule task_call_sound [OF inv(1) assms(2) _ assms(5)])
  with call_result_inv [OF assms(1,3,4) c(2)] show ?thesis by (cases q) (simp_all add: task_turn_def)
qed

lemma accept_turn_inv:
  assumes "semaphore sem free" "system_inv free s"
  shows "system_inv free (accept_turn sem accepted s)"
proof (cases accepted)
  case (Ok a)
  note inv = system_invD [OF assms(2)]
  obtain adm' where adm': "try_acquire sem (admitting s) a =
      (if may_enter (permits_out (tasks s)) (addr_ip a) then Some \<lparr>permit_ip = addr_ip a\<rparr> else None, adm')"
    "admission_inv free (if may_enter (permits_out (tasks s)) (addr_ip a) then add_mset (addr_ip a) (permits_out (tasks s))
      else permits_out (tasks s)) adm'"
    using semaphore.try_acquire_refines [OF assms(1) inv(3)] by blast
  show ?thesis
    using inv adm' Ok
    by (cases "may_enter (permits_out (tasks s)) (addr_ip a)")
      (auto simp: accept_turn_def system_inv_def task_ok_def phase_ok_def client_of_def)
qed (use assms(2) in \<open>simp_all add: accept_turn_def\<close>)

lemma server_step_inv:
  assumes "semaphore sem free" "orders_ok it"
  shows "server_step sem ops it rnd s s' \<Longrightarrow> system_inv free s \<Longrightarrow> system_inv free s'"
proof (induction rule: server_step.induct)
  case (cleanup s time)
  then have "sound (shared (cleanup_tick time s))" by (simp add: cleanup_tick_def sound_cleanup system_inv_def)
  moreover have "members (snd (cleanup_rate_limits time (shared s))) = members (shared s)"
    "next_token (snd (cleanup_rate_limits time (shared s))) = next_token (shared s)"
    by (simp_all add: cleanup_rate_limits_def members_def)
  ultimately show ?case using cleanup by (simp add: system_inv_def cleanup_tick_def)
next
  case (writer_done s before t after u tok)
  note inv = system_invD [OF writer_done(3), unfolded writer_done(1)]
  have "holds t = None" using inv(2) writer_done(2) by (simp add: task_ok_def)
  moreover have "client_of t = None" using writer_done(2) by (simp add: client_of_def)
  ultimately show ?case using inv by (auto simp: system_inv_def)
qed (use assms in \<open>auto simp: accept_turn_inv task_turn_inv\<close>, simp add: system_inv_def)

lemma server_reachable_inv:
  assumes "semaphore sem free" "free permits = MAX_CONNECTIONS" "orders_ok it"
  shows "server_reachable sem ops it rnd permits chans s \<Longrightarrow> system_inv free s"
proof (induction rule: server_reachable.induct)
  case start
  then show ?case by (rule system_new_inv [where free = free, OF assms(2)])
next
  case (step s s')
  then show ?case using server_step_inv [OF assms(1,3)] by blast
qed

text \<open>In a reachable state there is room for a client about to register.\<close>

lemma register_room:
  assumes "system_inv free s" "tasks s = before @ t # after" "phase t = Register u"
  shows "add_mset (addr_ip (peer t)) (image_mset (\<lambda>(b, tok). addr_ip b) (mset_set (members (shared s)))) \<subseteq># permits_out (tasks s)"
proof -
  note inv = system_invD [OF assms(1), unfolded assms(2)]
  let ?hs = "handled (before @ after)"
  have t: "client_of t = None" "holds t = Some \<lparr>permit_ip = addr_ip (peer t)\<rparr>"
    using inv(2) assms(3) by (simp_all add: client_of_def task_ok_def)
  have hs: "handled (before @ t # after) = ?hs" using t(1) by simp
  have "distinct ?hs" using inv(4) unfolding hs distinct_map by (rule conjunct1)
  then have "mset_set (set ?hs) = mset ?hs" by (rule mset_set_set)
  moreover have "mset_set (members (shared s)) \<subseteq># mset_set (set ?hs)"
    using inv(6) unfolding hs by (intro subset_imp_msubset_mset_set) auto
  ultimately have "mset_set (members (shared s)) \<subseteq># mset ?hs" by simp
  then have "image_mset (\<lambda>(b, tok). addr_ip b) (mset_set (members (shared s))) \<subseteq># image_mset (\<lambda>(b, tok). addr_ip b) (mset ?hs)"
    by (rule image_mset_subseteq_mono)
  also have "\<dots> \<subseteq># permits_out (before @ after)" using inv(2) by (intro clients_hold_permits) simp
  finally show ?thesis using t(2) by (simp add: assms(2))
qed

lemma clients_within_permits:
  assumes "system_inv free s"
  shows "card (members (shared s)) \<le> size (permits_out (tasks s))"
proof -
  note inv = system_invD [OF assms]
  have "card (members (shared s)) \<le> card (set (handled (tasks s)))" using inv(6) by (intro card_mono) auto
  also have "\<dots> \<le> length (handled (tasks s))" by (rule card_length)
  also have "\<dots> \<le> size (permits_out (tasks s))" using size_mset_mono [OF clients_hold_permits [OF inv(2)]] by simp
  finally show ?thesis .
qed

subsection \<open>Properties\<close>

text \<open>
  Whatever connections arrive, whatever the peers send and however the tasks interleave, the
  server's shared state stays sound; no call of a task panics; every registered client belongs
  to a task that holds a permit, and there are at most 256 permits and at most 4 for an address.
\<close>

lemma server_stays_sound:
  assumes "semaphore sem free" and "free permits = MAX_CONNECTIONS" and "orders_ok it"
    and "server_reachable sem ops it rnd permits chans s"
  shows "sound (shared s) \<and>
    (\<forall>t \<in> set (tasks s). \<forall>i. inputs_ok i (shared s) \<longrightarrow> fst (task_call ops it rnd i (peer t) (phase t) (shared s)) \<noteq> Panic) \<and>
    members (shared s) \<subseteq> set (handled (tasks s)) \<and> card (members (shared s)) \<le> size (permits_out (tasks s)) \<and>
    size (permits_out (tasks s)) \<le> MAX_CONNECTIONS \<and> (\<forall>ip. count (permits_out (tasks s)) ip \<le> MAX_CONNECTIONS_PER_IP)"
proof -
  have inv: "system_inv free s" using server_reachable_inv [OF assms] .
  note D = system_invD [OF inv]
  have "fst (task_call ops it rnd i (peer t) (phase t) (shared s)) \<noteq> Panic"
    if t: "t \<in> set (tasks s)" "inputs_ok i (shared s)" for t i
  proof -
    have "phase_ok (phase t)" using D(2) t(1) by (simp add: list_all_iff task_ok_def)
    then obtain q st' where "task_call ops it rnd i (peer t) (phase t) (shared s) = (Ok q, st')"
      by (rule task_call_sound [OF D(1) assms(3) _ t(2)])
    then show ?thesis by simp
  qed
  moreover have "size (permits_out (tasks s)) \<le> MAX_CONNECTIONS" using D(3) by (simp add: admission_inv_def)
  ultimately show ?thesis
    using D clients_within_permits [OF inv] by (simp add: admission_inv_def)
qed

text \<open>A run: a connection from localhost is admitted and shakes hands.\<close>

definition ann_inputs :: "bounded_chan inputs" where
  "ann_inputs = \<lparr>shaken = Ok (lit ''ann''), fresh = bounded_new OUTBOUND_QUEUE_SIZE, channel = 1, watch = 1, now = 0,
     time_of_day = lit ''12:00'', selected = None, has_joined = False\<rparr>"

definition admitted_system :: "(nat, bounded_chan) system" where
  "admitted_system = accept_turn counting_ops (Ok localhost) (system_new 256 (\<lambda>_. bounded_new OUTBOUND_QUEUE_SIZE))"

definition shaken_system :: "(nat, bounded_chan) system" where
  "shaken_system = task_turn counting_ops bounded_ops bounded_orders (\<lambda>x. x) ann_inputs []
     \<lparr>peer = localhost, holds = Some \<lparr>permit_ip = addr_ip localhost\<rparr>, phase = Handshaking\<rparr> [] admitted_system"

lemma noon: "str_len (lit ''12:00'') = 5"
  by (simp add: lit_Cons lit_Nil len_utf8_def)

lemma ann_inputs_ok: "unused_channel 1 (outboxes st) \<Longrightarrow> inputs_ok ann_inputs st"
  using registered_ann by (simp add: inputs_ok_def ann_inputs_def noon)

lemma admitted_tasks:
  "tasks admitted_system = [\<lparr>peer = localhost, holds = Some \<lparr>permit_ip = addr_ip localhost\<rparr>, phase = Handshaking\<rparr>]"
  "shared admitted_system = no_clients"
proof -
  have "admission_inv (\<lambda>n. n) {#} (admission_new 256)" by (rule admission_new_inv) (simp add: limits)
  from counting.try_acquire_refines [OF this, of localhost]
  show "tasks admitted_system = [\<lparr>peer = localhost, holds = Some \<lparr>permit_ip = addr_ip localhost\<rparr>, phase = Handshaking\<rparr>]"
    "shared admitted_system = no_clients"
    by (auto simp: admitted_system_def accept_turn_def system_new_def may_enter_def limits no_clients_def)
qed

lemma shaken_tasks:
  "tasks shaken_system = [\<lparr>peer = localhost, holds = Some \<lparr>permit_ip = addr_ip localhost\<rparr>, phase = Register (lit ''ann'')\<rparr>]"
  "shared shaken_system = no_clients"
  by (simp_all add: shaken_system_def task_turn_def admitted_tasks ann_inputs_def)

lemma shaken_reachable:
  "server_reachable counting_ops bounded_ops bounded_orders (\<lambda>x. x) 256 (\<lambda>_. bounded_new OUTBOUND_QUEUE_SIZE) shaken_system"
proof -
  have "inputs_ok ann_inputs (shared admitted_system)"
    by (rule ann_inputs_ok) (simp add: admitted_tasks unused_channel_def no_clients_simps hm_or_def)
  moreover have "server_reachable counting_ops bounded_ops bounded_orders (\<lambda>x. x) 256
      (\<lambda>_. bounded_new OUTBOUND_QUEUE_SIZE) admitted_system"
    unfolding admitted_system_def by (rule server_reachable.step [OF server_reachable.start server_step.accept])
  ultimately show ?thesis
    unfolding shaken_system_def by (intro server_reachable.step [OF _ server_step.call]) (simp_all add: admitted_tasks)
qed

text \<open>
  C9. A connection that was admitted is never refused by the registry: in every reachable state of
  the server the registration of a client about to register succeeds, under a token never used
  before. The registry's own limits, the same numbers as the admission's, are never hit.
\<close>

theorem admitted_never_refused:
  assumes "semaphore sem free" and "free permits = MAX_CONNECTIONS" and "orders_ok it"
    and "server_reachable sem ops it rnd permits chans s"
    and "t \<in> set (tasks s)" and "phase t = Register u" and "inputs_ok i (shared s)"
  shows "\<exists>st'. task_call ops it rnd i (peer t) (phase t) (shared s) = (Ok (Some (Name u (next_token (shared s)))), st') \<and>
    (peer t, next_token (shared s)) \<in> members st' - members (shared s)"
proof -
  have inv: "system_inv free s" using server_reachable_inv [OF assms(1-4)] .
  note D = system_invD [OF inv]
  obtain before after where ts: "tasks s = before @ t # after" using assms(5) by (meson split_list)
  let ?st = "(shared s)\<lparr>channels := (channels (shared s))(channel i := fresh i)\<rparr>"
  have st: "sound ?st" "unused_channel (channel i) (outboxes ?st)" using D(1) assms(7) by (simp_all add: inputs_ok_def)
  have si: "server_inv ?st" using st(1) by (simp add: sound_def settled_def)
  have ok: "fst (register_pending_client ?st (peer t) (channel i) (watch i)) = Ok (next_token ?st)"
    using admitted_can_register [OF si D(3)] register_room [OF inv ts assms(6)] by simp
  have new: "(peer t, next_token (shared s)) \<notin> members (shared s)"
    using members_fresh [OF si, of "peer t" "next_token (shared s)"] by auto
  show ?thesis
    using ok new assms(6) by (cases rule: register_pending_sound [OF st, of "peer t" "watch i"]) auto
qed

theorem admitted_never_refused_witness:
  "\<exists>st'. task_call bounded_ops bounded_orders (\<lambda>x. x) ann_inputs localhost (Register (lit ''ann'')) no_clients =
     (Ok (Some (Name (lit ''ann'') 0)), st')"
proof -
  have i: "inputs_ok ann_inputs (shared shaken_system)"
    by (rule ann_inputs_ok) (simp add: shaken_tasks unused_channel_def no_clients_simps hm_or_def)
  let ?t = "\<lparr>peer = localhost, holds = Some \<lparr>permit_ip = addr_ip localhost\<rparr>, phase = Register (lit ''ann'')\<rparr>"
  have "?t \<in> set (tasks shaken_system)" by (simp add: shaken_tasks)
  from admitted_never_refused [OF counting.semaphore_axioms _ bounded_orders_ok shaken_reachable this _ i, of "lit ''ann''"]
  show ?thesis by (auto simp: limits shaken_tasks no_clients_simps simp del: task_call.simps)
qed

text \<open>A task that runs alone for a while.\<close>

fun run_calls ::
  "'w chan_ops \<Rightarrow> map_orders \<Rightarrow> (rat \<Rightarrow> rat) \<Rightarrow> 'w inputs \<Rightarrow> socket_addr \<Rightarrow> nat \<Rightarrow> phase \<Rightarrow> 'w server_state \<Rightarrow>
     (phase option, unit) result \<times> 'w server_state"
where
  "run_calls ops it rnd i a 0 p st = (Ok (Some p), st)"
| "run_calls ops it rnd i a (Suc n) p st =
     (case task_call ops it rnd i a p st of
        (Ok (Some q), st) \<Rightarrow> run_calls ops it rnd i a n q st
      | out \<Rightarrow> out)"

lemma run_one [simp]: "run_calls ops it rnd i a (Suc 0) p st = task_call ops it rnd i a p st"
  by (auto split: prod.split result.split option.split)

lemma run_stop: "task_call ops it rnd i a p st = out \<Longrightarrow> \<exists>n. run_calls ops it rnd i a (Suc n) p st = out"
  using run_one by metis

lemma run_on:
  "task_call ops it rnd i a p st = (Ok (Some q), st1) \<Longrightarrow> \<exists>n. run_calls ops it rnd i a (Suc n) q st1 = out \<Longrightarrow>
     \<exists>n. run_calls ops it rnd i a (Suc n) p st = out"
  by (elim exE, rule_tac x = "Suc n" in exI) simp

text \<open>A line and then, if somebody was dropped, the names: \<open>publish\<close>.\<close>

definition encode_and_publish ::
  "'w chan_ops \<Rightarrow> map_orders \<Rightarrow> 'w server_state \<Rightarrow> ustr \<Rightarrow> ustr \<Rightarrow> (unit, server_error) result \<times> 'w server_state"
where
  "encode_and_publish ops it st line content =
     (case encode_frame Chat (as_bytes content) of
        Err _ \<Rightarrow> (Err MessageTooLong, st)
      | Panic \<Rightarrow> (Panic, st)
      | Ok frame \<Rightarrow> publish ops it st line frame)"

lemma run_publish:
  assumes "\<And>st. task_call ops it rnd i a p st =
      after_call (record_line ops it st line content) (\<lambda>dropped. Some (if dropped then q else done)) failed"
    and "\<And>st. task_call ops it rnd i a q st = after_call (broadcast_presence ops it st) (\<lambda>_. Some done) failed"
  shows "\<exists>n. run_calls ops it rnd i a (Suc n) p st =
      after_call (encode_and_publish ops it st line content) (\<lambda>_. Some done) failed"
proof -
  obtain r st1 where r: "record_line ops it st line content = (r, st1)" by fastforce
  have p: "encode_and_publish ops it st line content =
      seq (r, st1) (\<lambda>dropped st. if dropped then broadcast_presence ops it st else (Ok (), st))"
    using r by (auto simp: encode_and_publish_def record_line_def publish_def split: result.splits)
  show ?thesis
  proof (cases "r = Ok True")
    case True
    show ?thesis
      by (rule run_on [of ops it rnd i a p st q st1]) (use assms(1) r True in simp, rule run_stop, use assms(2) p True in simp)
  next
    case False
    show ?thesis by (rule run_stop) (use assms(1) r p False in \<open>cases r; simp\<close>)
  qed
qed

lemma run_join:
  "\<exists>n. run_calls ops it rnd i a (Suc n) (Replay u tok) st =
     after_call (announce_join ops it st a u tok) (\<lambda>_. Some (Talk u tok)) (Some (Finish u tok False True))"
proof -
  obtain r st1 where r: "send_message_history ops st a tok = (r, st1)" by fastforce
  obtain r2 st2 where r2: "broadcast_presence ops it st1 = (r2, st2)" by fastforce
  have rec: "\<exists>n. run_calls ops it rnd i a (Suc n) (RecordJoin u tok) st2 =
      after_call (encode_and_publish ops it st2 (join_line u) (trim_end (join_line u))) (\<lambda>_. Some (Talk u tok)) (Some (Finish u tok False True))"
    by (rule run_publish [where q = "JoinUsers u tok"]) simp_all
  show ?thesis
  proof (cases "r = Ok ()")
    case False
    then show ?thesis by (intro run_stop) (use r in \<open>cases r; simp add: announce_join_def\<close>)
  next
    case True
    show ?thesis
    proof (rule run_on)
      show "task_call ops it rnd i a (Replay u tok) st = (Ok (Some (ShowUsers u tok)), st1)" using r True by simp
      show "\<exists>n. run_calls ops it rnd i a (Suc n) (ShowUsers u tok) st1 =
          after_call (announce_join ops it st a u tok) (\<lambda>_. Some (Talk u tok)) (Some (Finish u tok False True))"
      proof (cases "r2 = Ok ()")
        case False
        then show ?thesis by (intro run_stop) (use r r2 True in \<open>cases r2; simp add: announce_join_def\<close>)
      next
        case r2ok: True
        then have "announce_join ops it st a u tok = encode_and_publish ops it st2 (join_line u) (trim_end (join_line u))"
          using r r2 True by (simp add: announce_join_def encode_and_publish_def Let_def)
        with rec show ?thesis by (intro run_on [of ops it rnd i a "ShowUsers u tok" st1 "RecordJoin u tok" st2]) (use r2 r2ok in simp_all)
      qed
    qed
  qed
qed

text \<open>The latency of a message is slept between the call that admits it and the call that composes its line.\<close>

definition run_message ::
  "'w chan_ops \<Rightarrow> map_orders \<Rightarrow> (rat \<Rightarrow> rat) \<Rightarrow> 'w inputs \<Rightarrow> nat \<Rightarrow> 'w turn \<Rightarrow> socket_addr \<Rightarrow> nat \<Rightarrow> phase \<Rightarrow> 'w server_state \<Rightarrow>
     (phase option, unit) result \<times> 'w server_state"
where
  "run_message ops it rnd i latency t a n p st =
     (case task_call ops it rnd i a p st of
        (Ok (Some (Compose u tok c)), st1) \<Rightarrow>
          run_calls ops it rnd i a n (Compose u tok c) (if latency \<noteq> 0 then slept t st1 else st1)
      | out \<Rightarrow> out)"

lemma run_frame:
  assumes "selected i = Some (Ok (Some f))" "now i = clock t" "time_of_day i = hour_minute t"
  shows "\<exists>n. run_message ops it rnd i latency t a (Suc n) (Talk u tok) st =
     after_call (handle_frame ops it rnd latency t st a u f) (\<lambda>_. Some (Talk u tok)) (Some (Finish u tok True True))"
proof (cases "kind f \<noteq> Chat \<or> length (payload f) > MAX_CHAT_MESSAGE_BYTES \<or> from_utf8 (payload f) = None \<or>
    (\<exists>c. from_utf8 (payload f) = Some c \<and> trim c = [])")
  case True
  then show ?thesis using assms by (auto simp: run_message_def frame_phase_def handle_frame_def)
next
  case False
  then obtain c where c: "kind f = Chat" "\<not> length (payload f) > MAX_CHAT_MESSAGE_BYTES" "from_utf8 (payload f) = Some c" "trim c \<noteq> []"
    by auto
  obtain r st1 where r: "allow_message rnd (clock t) st a = (r, st1)" by fastforce
  let ?st = "if latency \<noteq> 0 then slept t st1 else st1" and ?l = "format_chat_message u (hour_minute t) c"
  have compose: "\<exists>n. run_calls ops it rnd i a (Suc n) (Compose u tok c) ?st =
      after_call (encode_and_publish ops it ?st ?l ?l) (\<lambda>_. Some (Talk u tok)) (Some (Finish u tok True True))"
    by (rule run_publish [where q = "LineUsers u tok"]) (simp_all add: assms(3) Let_def)
  show ?thesis
  proof (cases "r = Ok ()")
    case True
    then have "handle_frame ops it rnd latency t st a u f = encode_and_publish ops it ?st ?l ?l"
      using c r by (simp add: handle_frame_def encode_and_publish_def Let_def)
    with compose True c r assms show ?thesis by (simp add: run_message_def frame_phase_def del: run_calls.simps task_call.simps(10))
  next
    case False
    with c r assms show ?thesis by (cases r) (simp_all add: run_message_def frame_phase_def handle_frame_def)
  qed
qed

lemma run_finish:
  "\<exists>n. run_calls ops it rnd i a (Suc n) (Finish u tok announce failed) st =
     after_call (finish_session ops it st a u tok announce) (\<lambda>_. None) (if failed then None else Some (Finish u tok announce True))"
proof -
  let ?out = "after_call (finish_session ops it st a u tok announce) (\<lambda>_. None) (if failed then None else Some (Finish u tok announce True))"
  obtain r st1 where r: "remove_client_if_current st a tok = (r, st1)" by fastforce
  show ?thesis
  proof (cases "r = Ok True \<and> announce")
    case False
    then show ?thesis by (intro run_stop) (use r in \<open>cases r; auto simp: finish_session_def\<close>)
  next
    case True
    obtain r2 st2 where r2: "record_line ops it st1 (leave_line u) (trim_end (leave_line u)) = (r2, st2)" by fastforce
    have f: "finish_session ops it st a u tok announce = seq (r2, st2) (\<lambda>_ st. broadcast_presence ops it st)"
      using r r2 True by (auto simp: finish_session_def record_line_def Let_def split: result.splits)
    have "\<exists>n. run_calls ops it rnd i a (Suc n) (RecordLeave u tok failed) st1 = ?out"
    proof (cases "\<exists>b. r2 = Ok b")
      case ok: True
      then have "task_call ops it rnd i a (RecordLeave u tok failed) st1 = (Ok (Some (LeaveUsers u tok failed)), st2)" using r2 by auto
      moreover have "\<exists>n. run_calls ops it rnd i a (Suc n) (LeaveUsers u tok failed) st2 = ?out"
        by (rule run_stop) (use f ok True in auto)
      ultimately show ?thesis by (rule run_on)
    next
      case False
      then show ?thesis by (intro run_stop) (use f r2 True in \<open>cases r2; simp\<close>)
    qed
    then show ?thesis by (intro run_on [of ops it rnd i a "Finish u tok announce failed" st]) (use r True in simp)
  qed
qed

lemma run_register:
  "\<exists>n. run_calls ops it rnd i a (Suc n) (Register u) st =
     after_call (register_named (st\<lparr>channels := (channels st)(channel i := fresh i)\<rparr>) a (channel i) (watch i) u)
       (\<lambda>tok. Some (Replay u tok)) None"
proof -
  let ?st = "st\<lparr>channels := (channels st)(channel i := fresh i)\<rparr>"
  let ?out = "after_call (register_named ?st a (channel i) (watch i) u) (\<lambda>tok. Some (Replay u tok)) None"
  obtain r st1 where r: "register_pending_client ?st a (channel i) (watch i) = (r, st1)" by fastforce
  show ?thesis
  proof (cases r)
    case (Ok tok)
    obtain r2 st2 where r2: "set_client_username st1 a tok u = (r2, st2)" by fastforce
    have "\<exists>n. run_calls ops it rnd i a (Suc n) (Name u tok) st1 = ?out"
    proof (cases "\<exists>e. r2 = Err e")
      case True
      then have "task_call ops it rnd i a (Name u tok) st1 = (Ok (Some (Forget tok)), st2)" using r2 by auto
      moreover have "\<exists>n. run_calls ops it rnd i a (Suc n) (Forget tok) st2 = ?out"
        by (rule run_stop, cases "remove_client_if_current st2 a tok"; cases "fst (remove_client_if_current st2 a tok)")
          (use r r2 Ok True in \<open>auto simp: register_named_def\<close>)
      ultimately show ?thesis by (rule run_on)
    next
      case False
      then show ?thesis by (intro run_stop) (use r r2 Ok in \<open>cases r2; simp add: register_named_def\<close>)
    qed
    then show ?thesis by (intro run_on [of ops it rnd i a "Register u" st]) (use r Ok in simp)
  qed (rule run_stop; use r in \<open>simp add: register_named_def\<close>)+
qed

lemma run_writer:
  "\<exists>n. run_calls ops it rnd i a (Suc n) (Writing u tok) st =
     after_call (writer_stopped ops it st a tok u (has_joined i)) (\<lambda>_. None) None"
proof -
  let ?out = "after_call (writer_stopped ops it st a tok u (has_joined i)) (\<lambda>_. None) None"
  obtain r st1 where r: "remove_client_if_current st a tok = (r, st1)" by fastforce
  show ?thesis
  proof (cases "r = Ok True")
    case False
    then show ?thesis by (intro run_stop) (use r in \<open>cases r; auto simp: writer_stopped_def\<close>)
  next
    case True
    have users: "\<exists>n. run_calls ops it rnd i a (Suc n) WriterUsers st2 =
        (case broadcast_presence ops it st2 of (Panic, st) \<Rightarrow> (Panic, st) | (_, st) \<Rightarrow> (Ok None, st))" for st2
      by (rule run_stop, cases "broadcast_presence ops it st2"; cases "fst (broadcast_presence ops it st2)") auto
    have "\<exists>n. run_calls ops it rnd i a (Suc n) (CheckJoined u tok) st1 = ?out"
    proof (cases "has_joined i")
      case False
      then have "?out = (case broadcast_presence ops it st1 of (Panic, st) \<Rightarrow> (Panic, st) | (_, st) \<Rightarrow> (Ok None, st))"
        using r True by (auto simp: writer_stopped_def split: prod.split result.split)
      with users [of st1] False show ?thesis by (intro run_on [of ops it rnd i a "CheckJoined u tok" st1 WriterUsers st1]) simp_all
    next
      case joined: True
      obtain r2 st2 where r2: "record_line ops it st1 (leave_line u) (trim_end (leave_line u)) = (r2, st2)" by fastforce
      have "\<exists>n. run_calls ops it rnd i a (Suc n) (WriterLeave u tok) st1 = ?out"
      proof (cases "r2 = Panic")
        case False
        then have "?out = (case broadcast_presence ops it st2 of (Panic, st) \<Rightarrow> (Panic, st) | (_, st) \<Rightarrow> (Ok None, st))"
          using r r2 True joined by (auto simp: writer_stopped_def record_line_def Let_def split: prod.splits result.splits)
        with users [of st2] False r2 show ?thesis
          by (intro run_on [of ops it rnd i a "WriterLeave u tok" st1 WriterUsers st2]) (cases r2; simp)+
      next
        case panic: True
        then have "?out = (Panic, st2)"
          using r r2 True joined by (auto simp: writer_stopped_def record_line_def Let_def encode_frame_def split: prod.splits result.splits if_splits)
        with panic r2 show ?thesis by (intro run_stop) simp
      qed
      with joined show ?thesis by (intro run_on [of ops it rnd i a "CheckJoined u tok" st1 "WriterLeave u tok" st1]) simp_all
    qed
    then show ?thesis by (intro run_on [of ops it rnd i a "Writing u tok" st "CheckJoined u tok" st1]) (use r True in simp_all)
  qed
qed

text \<open>
  C29. The task's calls are the handler's, whatever their results. A task that is not interrupted
  does, call by call, exactly what registering and naming the client, \<open>announce_join\<close>, the handling
  of a frame, \<open>finish_session\<close> and the end of the writer do, and goes on to the phase the handler
  goes on to: the next one when they succeed, the end of the session when they fail (announced if the
  client had joined, and not twice), and the panic when they panic. The latency of a message lies
  between the call that admits it and those that send it.
\<close>

theorem calls_implement_handler:
  assumes "selected i = Some (Ok (Some f))" and "now i = clock t" and "time_of_day i = hour_minute t"
  shows "(\<exists>n. run_calls ops it rnd i a (Suc n) (Register u) st =
      after_call (register_named (st\<lparr>channels := (channels st)(channel i := fresh i)\<rparr>) a (channel i) (watch i) u)
        (\<lambda>tok. Some (Replay u tok)) None) \<and>
    (\<exists>n. run_calls ops it rnd i a (Suc n) (Replay u tok) st =
      after_call (announce_join ops it st a u tok) (\<lambda>_. Some (Talk u tok)) (Some (Finish u tok False True))) \<and>
    (\<exists>n. run_message ops it rnd i latency t a (Suc n) (Talk u tok) st =
      after_call (handle_frame ops it rnd latency t st a u f) (\<lambda>_. Some (Talk u tok)) (Some (Finish u tok True True))) \<and>
    (\<exists>n. run_calls ops it rnd i a (Suc n) (Finish u tok announce failed) st =
      after_call (finish_session ops it st a u tok announce) (\<lambda>_. None) (if failed then None else Some (Finish u tok announce True))) \<and>
    (\<exists>n. run_calls ops it rnd i a (Suc n) (Writing u tok) st =
      after_call (writer_stopped ops it st a tok u (has_joined i)) (\<lambda>_. None) None)"
  by (intro conjI) (rule run_register run_join run_frame [OF assms] run_finish run_writer)+

theorem calls_implement_handler_witness:
  "\<exists>n st'. run_calls bounded_ops bounded_orders (\<lambda>x. x)
     (ann_inputs\<lparr>selected := Some (Ok (Some \<lparr>version = 1, kind = Chat, payload = [97]\<rparr>))\<rparr>) localhost (Suc n)
     (Finish (lit ''ann'') 0 True True) one_client = (Ok None, st') \<and> (localhost, 0) \<notin> members st'"
proof -
  let ?i = "ann_inputs\<lparr>selected := Some (Ok (Some \<lparr>version = 1, kind = Chat, payload = [97]\<rparr>))\<rparr>"
  obtain st' where f: "finish_session bounded_ops bounded_orders one_client localhost (lit ''ann'') 0 True = (Ok (), st')"
    "(localhost, 0) \<notin> members st'"
    by (rule finish_session_sound [OF one_client_sound bounded_orders_ok registered_ann, of bounded_ops localhost 0 True], rule that)
  have "selected ?i = Some (Ok (Some \<lparr>version = 1, kind = Chat, payload = [97]\<rparr>))"
    "now ?i = clock (quiet_turn\<lparr>clock := 0, hour_minute := lit ''12:00''\<rparr>)"
    "time_of_day ?i = hour_minute (quiet_turn\<lparr>clock := 0, hour_minute := lit ''12:00''\<rparr>)"
    by (simp_all add: ann_inputs_def)
  from calls_implement_handler [OF this, of bounded_ops bounded_orders "\<lambda>x. x" localhost "lit ''ann''" one_client 0 0 True True] f
  show ?thesis by auto
qed

end
