(* ===== verification/Client_App.thy ===== *)
theory Client_App
  imports Protocol_Text
begin

section \<open>The client's state\<close>

text \<open>
  Model of \<^verbatim>\<open>crates/client/src/app.rs\<close>: the messages shown, the input line, the connected users
  and the selection in the mention popup. Slices of the input are cut at byte indices and the
  selected mention is an index into a list that changes under it, so the operations that do
  either return \<open>Panic\<close> where the code would; the invariant \<open>app_inv\<close> excludes it.
\<close>

definition MESSAGE_LIMIT :: nat where
  [limits]: "MESSAGE_LIMIT = 300"

datatype message_state = Pending | Confirmed

record chat_message =
  cm_text :: ustr
  cm_state :: message_state

record chat_app =
  ca_username :: ustr
  ca_input :: ustr
  ca_messages :: "chat_message list"
  ca_connected_users :: "ustr list"
  ca_mention_selection :: nat
  ca_connected :: bool
  ca_exit_notice :: "ustr option"
  ca_should_quit :: bool

definition chat_app_new :: "ustr \<Rightarrow> ustr \<Rightarrow> chat_app" where
  "chat_app_new username server_addr =
     \<lparr>ca_username = username,
      ca_input = [],
      ca_messages =
        [\<lparr>cm_text = lit ''[system] Connected to '' @ server_addr, cm_state = Confirmed\<rparr>,
         \<lparr>cm_text = lit ''[system] Type a message and press Enter.'', cm_state = Confirmed\<rparr>],
      ca_connected_users = [username],
      ca_mention_selection = 0,
      ca_connected = True,
      ca_exit_notice = None,
      ca_should_quit = False\<rparr>"

subsection \<open>Messages\<close>

definition push_message :: "ustr \<Rightarrow> message_state \<Rightarrow> chat_app \<Rightarrow> chat_app" where
  "push_message message state app =
     (let messages = ca_messages app @ [\<lparr>cm_text = message, cm_state = state\<rparr>] in
      app\<lparr>ca_messages :=
        (if length messages > MESSAGE_LIMIT then drop (length messages - MESSAGE_LIMIT) messages else messages)\<rparr>)"

text \<open>\<^verbatim>\<open>confirm_message\<close> changes the first pending entry with this text.\<close>

definition is_awaited :: "ustr \<Rightarrow> chat_message \<Rightarrow> bool" where
  "is_awaited message e \<longleftrightarrow> cm_text e = message \<and> cm_state e = Pending"

definition confirm_message :: "ustr \<Rightarrow> chat_app \<Rightarrow> bool \<times> chat_app" where
  "confirm_message message app =
     (case find (is_awaited message) (ca_messages app) of
        Some _ \<Rightarrow> (True, app\<lparr>ca_messages :=
          update_first (is_awaited message) (\<lambda>e. e\<lparr>cm_state := Confirmed\<rparr>) (ca_messages app)\<rparr>)
      | None \<Rightarrow> (False, app))"

definition receive_message :: "ustr \<Rightarrow> chat_app \<Rightarrow> chat_app" where
  "receive_message message app =
     (case confirm_message message app of
        (True, app) \<Rightarrow> app
      | (False, app) \<Rightarrow> push_message message Confirmed app)"

definition begin_shutdown :: "ustr \<Rightarrow> chat_app \<Rightarrow> chat_app" where
  "begin_shutdown reason app =
     (push_message (lit ''[system] '' @ reason) Confirmed (app\<lparr>ca_connected := False\<rparr>))\<lparr>ca_exit_notice := Some reason\<rparr>"

definition mark_offline :: "ustr \<Rightarrow> chat_app \<Rightarrow> chat_app" where
  "mark_offline reason app =
     push_message (lit ''[system] '' @ reason) Confirmed (app\<lparr>ca_connected := False\<rparr>)"

subsection \<open>Mentions in the input line\<close>

definition active_mention_query :: "ustr \<Rightarrow> (ustr option, unit) result" where
  "active_mention_query input =
     (case str_rfind 0x40 input of
        None \<Rightarrow> Ok None
      | Some at_index \<Rightarrow>
          (case str_from (at_index + 1) input of
             None \<Rightarrow> Ok None
           | Some mention \<Rightarrow>
               if list_ex is_whitespace mention then Ok None
               else if at_index > 0 then
                 (case str_to at_index input of
                    None \<Rightarrow> Panic
                  | Some before \<Rightarrow>
                      if before = [] then Ok None
                      else if \<not> is_whitespace (last before) then Ok None
                      else Ok (Some mention))
               else Ok (Some mention)))"

definition mention_candidates :: "chat_app \<Rightarrow> (ustr list, unit) result" where
  "mention_candidates app =
     (case active_mention_query (ca_input app) of
        Panic \<Rightarrow> Panic
      | Err e \<Rightarrow> Err e
      | Ok None \<Rightarrow> Ok []
      | Ok (Some query) \<Rightarrow>
          Ok (filter (\<lambda>user. prefix (to_ascii_lowercase query) (to_ascii_lowercase user)) (ca_connected_users app)))"

text \<open>The code after a call of \<^verbatim>\<open>mention_candidates\<close>.\<close>

definition with_candidates :: "chat_app \<Rightarrow> (ustr list \<Rightarrow> (unit, unit) result \<times> chat_app) \<Rightarrow> (unit, unit) result \<times> chat_app" where
  "with_candidates app f =
     (case mention_candidates app of
        Ok candidates \<Rightarrow> f candidates
      | Err e \<Rightarrow> (Err e, app)
      | Panic \<Rightarrow> (Panic, app))"

definition update_connected_users :: "ustr list \<Rightarrow> chat_app \<Rightarrow> (unit, unit) result \<times> chat_app" where
  "update_connected_users users app =
     (let app = app\<lparr>ca_connected_users := users\<rparr> in
      with_candidates app (\<lambda>candidates.
        let candidates_len = length candidates in
        if candidates_len = 0 then (Ok (), app\<lparr>ca_mention_selection := 0\<rparr>)
        else if ca_mention_selection app \<ge> candidates_len then
          (Ok (), app\<lparr>ca_mention_selection := candidates_len - 1\<rparr>)
        else (Ok (), app)))"

definition reset_mention_selection :: "chat_app \<Rightarrow> chat_app" where
  "reset_mention_selection app = app\<lparr>ca_mention_selection := 0\<rparr>"

definition append_input :: "uchar \<Rightarrow> chat_app \<Rightarrow> chat_app" where
  "append_input character app = reset_mention_selection (app\<lparr>ca_input := ca_input app @ [character]\<rparr>)"

definition pop_input :: "chat_app \<Rightarrow> chat_app" where
  "pop_input app = reset_mention_selection (app\<lparr>ca_input := butlast (ca_input app)\<rparr>)"

definition take_input :: "chat_app \<Rightarrow> ustr \<times> chat_app" where
  "take_input app = (trim (ca_input app), app\<lparr>ca_input := []\<rparr>)"

definition has_exit_notice :: "chat_app \<Rightarrow> bool" where
  "has_exit_notice app \<longleftrightarrow> ca_exit_notice app \<noteq> None"

definition select_previous_mention :: "chat_app \<Rightarrow> (unit, unit) result \<times> chat_app" where
  "select_previous_mention app =
     with_candidates app (\<lambda>candidates.
       if candidates = [] then (Ok (), app)
       else if ca_mention_selection app = 0 then (Ok (), app\<lparr>ca_mention_selection := length candidates - 1\<rparr>)
       else (Ok (), app\<lparr>ca_mention_selection := ca_mention_selection app - 1\<rparr>))"

definition select_next_mention :: "chat_app \<Rightarrow> (unit, unit) result \<times> chat_app" where
  "select_next_mention app =
     with_candidates app (\<lambda>candidates.
       if candidates = [] then (Ok (), app)
       else (Ok (), app\<lparr>ca_mention_selection := (ca_mention_selection app + 1) mod length candidates\<rparr>))"

definition apply_selected_mention :: "chat_app \<Rightarrow> (unit, unit) result \<times> chat_app" where
  "apply_selected_mention app =
     with_candidates app (\<lambda>candidates.
       if candidates = [] then (Ok (), app)
       else if ca_mention_selection app \<ge> length candidates then (Panic, app)
       else
         let mention = candidates ! ca_mention_selection app in
         (case str_rfind 0x40 (ca_input app) of
            None \<Rightarrow> (Ok (), app)
          | Some at_index \<Rightarrow>
              (case str_to at_index (ca_input app) of
                 None \<Rightarrow> (Panic, app)
               | Some kept \<Rightarrow>
                   (Ok (), app\<lparr>ca_input := kept @ [0x40] @ mention @ [0x20], ca_mention_selection := 0\<rparr>))))"

definition message_mentions_current_user :: "(uchar \<Rightarrow> bool) \<Rightarrow> ustr \<Rightarrow> chat_app \<Rightarrow> (bool, unit) result" where
  "message_mentions_current_user alnum content app = message_mentions_user alnum content (ca_username app)"

subsection \<open>Specification\<close>

text \<open>The mention being typed: what follows the last \<open>@\<close>, if that is one word that starts at the
  beginning of the input or after white space.\<close>

definition typed_mention :: "ustr \<Rightarrow> ustr \<Rightarrow> ustr \<Rightarrow> bool" where
  "typed_mention input before query \<longleftrightarrow>
     input = before @ [0x40] @ query \<and> 0x40 \<notin> set query \<and> \<not> list_ex is_whitespace query \<and>
     (before = [] \<or> is_whitespace (last before))"

definition starts_with_ignoring_case :: "ustr \<Rightarrow> ustr \<Rightarrow> bool" where
  "starts_with_ignoring_case query user \<longleftrightarrow> prefix (to_ascii_lowercase query) (to_ascii_lowercase user)"

lemma last_at_unique:
  assumes "a @ [0x40] @ q = b @ [0x40] @ (r :: ustr)" and "0x40 \<notin> set q" and "0x40 \<notin> set r"
  shows "a = b \<and> q = r"
proof -
  have "takeWhile (\<lambda>c. c \<noteq> 0x40) (rev (c @ [0x40] @ s)) = rev s" if "0x40 \<notin> set s" for c s :: ustr
  proof -
    have "\<And>x. x \<in> set (rev s) \<Longrightarrow> x \<noteq> 0x40" using that by auto
    then have "takeWhile (\<lambda>c. c \<noteq> 0x40) (rev s @ 0x40 # rev c) = rev s @ takeWhile (\<lambda>c. c \<noteq> 0x40) (0x40 # rev c)"
      by (rule takeWhile_append2)
    then show ?thesis by simp
  qed
  then have "rev q = rev r" using assms by metis
  with assms(1) show ?thesis by simp
qed

lemma active_mention_query_at:
  assumes "input = a @ 0x40 # q" and "0x40 \<notin> set q"
  shows "str_rfind 0x40 input = Some (str_len a)" "str_from (str_len a + 1) input = Some q"
    "str_to (str_len a) input = Some a"
proof -
  obtain i where i: "str_rfind 0x40 input = Some i"
    using assms(1) str_rfind_None [of "0x40" input] by (cases "str_rfind 0x40 input") auto
  from str_rfind_SomeD [OF i] obtain b r where b: "input = b @ 0x40 # r" "str_len b = i" "0x40 \<notin> set r" by blast
  have "a = b" using last_at_unique [of a q b r] assms b by simp
  with i b show "str_rfind 0x40 input = Some (str_len a)" by simp
  have "len_utf8 0x40 = 1" by (simp add: len_utf8_def)
  then show "str_from (str_len a + 1) input = Some q"
    using str_from_append [of "a @ [0x40]" q] assms(1) by simp
  show "str_to (str_len a) input = Some a" using assms(1) by simp
qed

lemma active_mention_query_spec:
  obtains (none) "active_mention_query input = Ok None" "\<And>a q. \<not> typed_mention input a q"
    | (some) a q where "active_mention_query input = Ok (Some q)" "typed_mention input a q"
proof (cases "0x40 \<in> set input")
  case False
  then have "active_mention_query input = Ok None" using str_rfind_None [of "0x40" input] by (simp add: active_mention_query_def)
  moreover have "\<not> typed_mention input a q" for a q using False by (auto simp: typed_mention_def)
  ultimately show ?thesis by (rule none)
next
  case True
  then obtain a q where aq: "input = a @ 0x40 # q" "0x40 \<notin> set q" by (metis split_list_last)
  note at = active_mention_query_at [OF aq]
  have uniq: "b = a \<and> r = q" if "typed_mention input b r" for b r
    using that aq last_at_unique [of a q b r] by (auto simp: typed_mention_def)
  have eq: "active_mention_query input =
      (if list_ex is_whitespace q then Ok None
       else if a \<noteq> [] \<and> \<not> is_whitespace (last a) then Ok None else Ok (Some q))"
    unfolding active_mention_query_def at option.case by (simp add: at)
  show ?thesis
  proof (cases "typed_mention input a q")
    case True
    then have "active_mention_query input = Ok (Some q)" unfolding eq typed_mention_def by auto
    then show ?thesis using True by (rule some)
  next
    case False
    with aq have "list_ex is_whitespace q \<or> (a \<noteq> [] \<and> \<not> is_whitespace (last a))" by (auto simp: typed_mention_def)
    then have "active_mention_query input = Ok None" unfolding eq by auto
    moreover have "\<not> typed_mention input b r" for b r using uniq False by blast
    ultimately show ?thesis by (rule none)
  qed
qed

text \<open>The list of candidates, as a function that cannot fail.\<close>

definition candidates :: "chat_app \<Rightarrow> ustr list" where
  "candidates app = (case mention_candidates app of Ok us \<Rightarrow> us | _ \<Rightarrow> [])"

lemma mention_candidates_Ok: "mention_candidates app = Ok (candidates app)"
  by (cases rule: active_mention_query_spec [of "ca_input app"])
     (simp_all add: candidates_def mention_candidates_def)

lemma candidates_typed:
  "typed_mention (ca_input app) a q \<Longrightarrow>
     candidates app = filter (starts_with_ignoring_case q) (ca_connected_users app)"
  by (cases rule: active_mention_query_spec [of "ca_input app"])
     (auto simp: candidates_def mention_candidates_def starts_with_ignoring_case_def [abs_def] typed_mention_def
       dest: last_at_unique [simplified])

lemma candidates_nonempty: "candidates app \<noteq> [] \<Longrightarrow> \<exists>a q. typed_mention (ca_input app) a q"
  by (cases rule: active_mention_query_spec [of "ca_input app"])
     (auto simp: candidates_def mention_candidates_def)

lemma with_candidates_eq [simp]: "with_candidates app f = f (candidates app)"
  by (simp add: with_candidates_def mention_candidates_Ok)

lemma candidates_cong:
  "ca_input app' = ca_input app \<Longrightarrow> ca_connected_users app' = ca_connected_users app \<Longrightarrow> candidates app' = candidates app"
  by (auto simp: candidates_def mention_candidates_def split: result.splits option.splits)

subsection \<open>Invariant\<close>

text \<open>At most 300 messages, none of them pending, and a selection that points at a candidate
  whenever there is one.\<close>

definition selection_ok :: "chat_app \<Rightarrow> bool" where
  "selection_ok app \<longleftrightarrow> candidates app \<noteq> [] \<longrightarrow> ca_mention_selection app < length (candidates app)"

definition app_inv :: "chat_app \<Rightarrow> bool" where
  "app_inv app \<longleftrightarrow>
     length (ca_messages app) \<le> MESSAGE_LIMIT \<and> list_all (\<lambda>e. cm_state e = Confirmed) (ca_messages app) \<and>
     selection_ok app"

lemma selection_ok_0: "ca_mention_selection app = 0 \<Longrightarrow> selection_ok app"
  by (simp add: selection_ok_def)

lemma candidates_no_at: "0x40 \<notin> set (ca_input app) \<Longrightarrow> candidates app = []"
  using candidates_nonempty [of app] by (metis Un_iff insertI1 list.set(2) set_append typed_mention_def)

lemma selection_cong:
  "ca_input app' = ca_input app \<Longrightarrow> ca_connected_users app' = ca_connected_users app \<Longrightarrow>
   ca_mention_selection app' = ca_mention_selection app \<Longrightarrow> selection_ok app' = selection_ok app"
  using candidates_cong [of app' app] by (simp add: selection_ok_def)

lemma push_message_sel [simp]:
  "ca_input (push_message m s app) = ca_input app" "ca_connected_users (push_message m s app) = ca_connected_users app"
  "ca_mention_selection (push_message m s app) = ca_mention_selection app"
  "ca_connected (push_message m s app) = ca_connected app" "ca_exit_notice (push_message m s app) = ca_exit_notice app"
  "ca_should_quit (push_message m s app) = ca_should_quit app" "ca_username (push_message m s app) = ca_username app"
  by (simp_all add: push_message_def Let_def)

lemma push_message_messages:
  "ca_messages (push_message m s app) =
     (let ms = ca_messages app @ [\<lparr>cm_text = m, cm_state = s\<rparr>] in drop (length ms - MESSAGE_LIMIT) ms)"
  by (simp add: push_message_def Let_def)

lemma push_message_inv: "app_inv app \<Longrightarrow> app_inv (push_message m Confirmed app)"
  using selection_cong [of "push_message m Confirmed app" app]
  by (auto simp: app_inv_def push_message_messages Let_def list_all_iff dest!: in_set_dropD)

lemma confirm_message_none: "list_all (\<lambda>e. cm_state e = Confirmed) (ca_messages app) \<Longrightarrow> confirm_message m app = (False, app)"
  by (auto simp: confirm_message_def is_awaited_def list_all_iff find_None_iff_all split: option.split dest: find_Some_in)

lemma receive_message_confirmed: "app_inv app \<Longrightarrow> receive_message m app = push_message m Confirmed app"
  by (simp add: receive_message_def app_inv_def confirm_message_none)

lemma app_inv_cong:
  "app_inv app \<Longrightarrow> ca_messages app' = ca_messages app \<Longrightarrow> selection_ok app' \<Longrightarrow> app_inv app'"
  by (simp add: app_inv_def)

lemma app_inv_update:
  "app_inv (app\<lparr>ca_connected := b\<rparr>) = app_inv app" "app_inv (app\<lparr>ca_exit_notice := e\<rparr>) = app_inv app"
  "app_inv (app\<lparr>ca_should_quit := b\<rparr>) = app_inv app"
  using selection_cong [of "app\<lparr>ca_connected := b\<rparr>" app] selection_cong [of "app\<lparr>ca_exit_notice := e\<rparr>" app]
    selection_cong [of "app\<lparr>ca_should_quit := b\<rparr>" app]
  by (simp_all add: app_inv_def)

lemma chat_app_new_inv: "app_inv (chat_app_new u a)"
  by (simp add: app_inv_def chat_app_new_def selection_ok_def candidates_no_at limits)

lemma app_steps_inv:
  assumes "app_inv app"
  shows "app_inv (receive_message m app)" "app_inv (begin_shutdown m app)" "app_inv (mark_offline m app)"
    "app_inv (append_input c app)" "app_inv (pop_input app)" "app_inv (snd (take_input app))"
proof -
  show "app_inv (receive_message m app)" using assms by (simp add: receive_message_confirmed push_message_inv)
  show "app_inv (begin_shutdown m app)" "app_inv (mark_offline m app)"
    using assms by (simp_all add: begin_shutdown_def mark_offline_def app_inv_update push_message_inv)
  show "app_inv (append_input c app)" "app_inv (pop_input app)"
    by (rule app_inv_cong [OF assms], simp_all add: append_input_def pop_input_def reset_mention_selection_def selection_ok_0)+
  show "app_inv (snd (take_input app))"
    by (rule app_inv_cong [OF assms]) (simp_all add: take_input_def selection_ok_def candidates_no_at)
qed

lemma app_mention_steps_inv:
  assumes "app_inv app"
  shows "\<exists>app'. update_connected_users us app = (Ok (), app') \<and> app_inv app'"
    "\<exists>app'. select_previous_mention app = (Ok (), app') \<and> app_inv app'"
    "\<exists>app'. select_next_mention app = (Ok (), app') \<and> app_inv app'"
    "\<exists>app'. apply_selected_mention app = (Ok (), app') \<and> app_inv app'"
proof -
  have sel: "app_inv (app'\<lparr>ca_mention_selection := i\<rparr>)"
    if "ca_messages app' = ca_messages app" "candidates app' \<noteq> [] \<longrightarrow> i < length (candidates app')" for app' i
    using app_inv_cong [OF assms, of "app'\<lparr>ca_mention_selection := i\<rparr>"] that candidates_cong [of "app'\<lparr>ca_mention_selection := i\<rparr>" app']
    by (simp add: selection_ok_def)
  let ?u = "app\<lparr>ca_connected_users := us\<rparr>"
  have "app_inv ?u" if "candidates ?u \<noteq> []" "ca_mention_selection app < length (candidates ?u)"
    using app_inv_cong [OF assms, of ?u] that by (simp add: selection_ok_def)
  then show "\<exists>app'. update_connected_users us app = (Ok (), app') \<and> app_inv app'"
    using sel [of ?u] by (auto simp: update_connected_users_def Let_def not_le)
  have idx: "candidates app \<noteq> [] \<longrightarrow> ca_mention_selection app < length (candidates app)"
    using assms by (simp add: app_inv_def selection_ok_def)
  then show "\<exists>app'. select_previous_mention app = (Ok (), app') \<and> app_inv app'"
    "\<exists>app'. select_next_mention app = (Ok (), app') \<and> app_inv app'"
    using assms sel [of app] by (auto simp: select_previous_mention_def select_next_mention_def)
  show "\<exists>app'. apply_selected_mention app = (Ok (), app') \<and> app_inv app'"
  proof (cases "candidates app = []")
    case True
    with assms show ?thesis by (simp add: apply_selected_mention_def)
  next
    case False
    then obtain a q where t: "typed_mention (ca_input app) a q" using candidates_nonempty by blast
    then have at: "ca_input app = a @ 0x40 # q" "0x40 \<notin> set q" by (auto simp: typed_mention_def)
    let ?m = "candidates app ! ca_mention_selection app"
    let ?app' = "app\<lparr>ca_input := a @ [0x40] @ ?m @ [0x20], ca_mention_selection := 0\<rparr>"
    have "apply_selected_mention app = (Ok (), ?app')"
      using False idx active_mention_query_at [OF at] by (simp add: apply_selected_mention_def Let_def)
    moreover have "app_inv ?app'" by (rule app_inv_cong [OF assms]) (simp_all add: selection_ok_0)
    ultimately show ?thesis by blast
  qed
qed

subsection \<open>Properties\<close>

text \<open>
  The mention being typed is recognised exactly: a query is active if and only if the input
  ends in an at sign, at its beginning or after white space, followed by one word without
  another at sign, and the query is that word; and slicing the input never panics.
\<close>

lemma mention_query_exact:
  "\<exists>r. active_mention_query input = Ok r \<and> (\<forall>q. r = Some q \<longleftrightarrow> (\<exists>a. typed_mention input a q))"
proof -
  have uniq: "q = r" if "typed_mention input a q" "typed_mention input b r" for a b q r
    using that last_at_unique [of a q b r] by (auto simp: typed_mention_def)
  show ?thesis
  proof (cases rule: active_mention_query_spec [of input])
    case none
    then show ?thesis by (intro exI [of _ None]) simp
  next
    case (some b r)
    with uniq show ?thesis by (intro exI [of _ "Some r"]) auto
  qed
qed

text \<open>
  Tab completes the mention: when there are candidates, the word after the last at sign is
  replaced by the selected one, which is a connected user whose name starts with what was typed
  (ignoring case), followed by a space; the text before it is kept.
\<close>

lemma apply_mention_completes:
  assumes "app_inv app" and "typed_mention (ca_input app) a q" and "candidates app \<noteq> []"
  shows "\<exists>u app'. apply_selected_mention app = (Ok (), app') \<and>
    u \<in> set (ca_connected_users app) \<and> starts_with_ignoring_case q u \<and>
    u = filter (starts_with_ignoring_case q) (ca_connected_users app) ! ca_mention_selection app \<and>
    ca_input app' = a @ [0x40] @ u @ [0x20] \<and> ca_mention_selection app' = 0 \<and> ca_messages app' = ca_messages app"
proof -
  note c = candidates_typed [OF assms(2)]
  have idx: "ca_mention_selection app < length (candidates app)"
    using assms(1,3) by (simp add: app_inv_def selection_ok_def)
  have at: "ca_input app = a @ 0x40 # q" "0x40 \<notin> set q" using assms(2) by (auto simp: typed_mention_def)
  let ?u = "candidates app ! ca_mention_selection app"
  have "?u \<in> set (candidates app)" using idx by simp
  then have "?u \<in> set (ca_connected_users app)" "starts_with_ignoring_case q ?u" by (auto simp: c)
  moreover have "apply_selected_mention app =
      (Ok (), app\<lparr>ca_input := a @ [0x40] @ ?u @ [0x20], ca_mention_selection := 0\<rparr>)"
    using assms(3) idx active_mention_query_at [OF at] by (simp add: apply_selected_mention_def Let_def)
  ultimately show ?thesis using c by auto
qed

text \<open>
  The message list keeps the last 300 messages: pushing appends one and drops from the front
  what exceeds the limit.
\<close>

lemma push_keeps_last:
  assumes "length (ca_messages app) \<le> MESSAGE_LIMIT"
  shows "\<exists>dropped. ca_messages app @ [\<lparr>cm_text = m, cm_state = s\<rparr>] = dropped @ ca_messages (push_message m s app) \<and>
    length (ca_messages (push_message m s app)) = min MESSAGE_LIMIT (Suc (length (ca_messages app))) \<and>
    push_message m s app = app\<lparr>ca_messages := ca_messages (push_message m s app)\<rparr>"
proof -
  let ?ms = "ca_messages app @ [\<lparr>cm_text = m, cm_state = s\<rparr>]"
  have "?ms = take (length ?ms - MESSAGE_LIMIT) ?ms @ ca_messages (push_message m s app)"
    unfolding push_message_messages Let_def by (rule append_take_drop_id [symmetric])
  moreover have "length (ca_messages (push_message m s app)) = min MESSAGE_LIMIT (Suc (length (ca_messages app)))"
    unfolding push_message_messages Let_def by simp
  ultimately show ?thesis by (auto simp: push_message_def Let_def)
qed

end
