(* ===== verification/Client_View.thy ===== *)
theory Client_View
  imports Client_App
begin

section \<open>What the client shows\<close>

text \<open>
  Model of \<^verbatim>\<open>crates/tui/src/components.rs\<close>, \<^verbatim>\<open>theme.rs\<close> and \<^verbatim>\<open>layout.rs\<close>: the styled text of every
  panel and the geometry the program computes itself, on 16-bit words with saturating, checked
  and truncating arithmetic as in the source. The widgets, the inner area of a block and the
  layout solver are ratatui's and are parameters; so is whether a call on the frame panics, and
  the only thing relied on is that a call whose area lies within the frame does not.
\<close>

subsection \<open>Styles\<close>

text \<open>
  A style is ratatui's; what the program does with it is to build one from \<^verbatim>\<open>Style::new()\<close> by its
  setters. It is kept here as the term of those calls, without assuming what they do.
\<close>

datatype color = Rgb u8 u8 u8 | Black | Red | Green | Blue | Magenta | Cyan | Gray | DarkGray | White

datatype modifier = BOLD | DIM

datatype style = Style_new | Fg style color | Bg style color | Add_modifier style modifier

abbreviation fg :: "color \<Rightarrow> style \<Rightarrow> style" where
  "fg c s \<equiv> Fg s c"

abbreviation bg :: "color \<Rightarrow> style \<Rightarrow> style" where
  "bg c s \<equiv> Bg s c"

abbreviation add_modifier :: "modifier \<Rightarrow> style \<Rightarrow> style" where
  "add_modifier m s \<equiv> Add_modifier s m"

abbreviation style_new :: style where
  "style_new \<equiv> Style_new"

definition PASTEL_YELLOW :: color where
  "PASTEL_YELLOW = Rgb 245 229 168"

definition PASTEL_YELLOW_BORDER :: color where
  "PASTEL_YELLOW_BORDER = Rgb 226 208 140"

definition brand_style :: style where
  "brand_style = add_modifier BOLD (fg Cyan style_new)"

definition client_badge_style :: style where
  "client_badge_style = bg Green (fg Black style_new)"

definition messages_border_style :: style where
  "messages_border_style = fg Blue style_new"

definition session_border_style :: style where
  "session_border_style = fg Green style_new"

definition input_border_style :: style where
  "input_border_style = fg PASTEL_YELLOW_BORDER style_new"

definition mention_selected_style :: style where
  "mention_selected_style = bg PASTEL_YELLOW (fg Black style_new)"

definition mention_plain_style :: style where
  "mention_plain_style = fg White style_new"

definition system_message_style :: style where
  "system_message_style = fg Magenta style_new"

definition username_style :: "bool \<Rightarrow> style" where
  "username_style pending = (if pending then fg Gray style_new else fg Cyan style_new)"

definition timestamp_style :: style where
  "timestamp_style = add_modifier DIM (fg DarkGray style_new)"

definition body_style :: "bool \<Rightarrow> style" where
  "body_style pending = (if pending then fg Gray style_new else fg White style_new)"

definition fallback_message_style :: "bool \<Rightarrow> style" where
  "fallback_message_style pending = (if pending then fg Gray style_new else style_new)"

definition disconnected_title_style :: style where
  "disconnected_title_style = add_modifier BOLD (fg Red style_new)"

definition disconnected_border_style :: style where
  "disconnected_border_style = fg Red style_new"

definition muted_style :: style where
  "muted_style = fg DarkGray style_new"

definition users_title_style :: style where
  "users_title_style = add_modifier BOLD (fg Green style_new)"

definition online_user_style :: style where
  "online_user_style = fg Cyan style_new"

definition input_text_style :: style where
  "input_text_style = fg White style_new"

subsection \<open>Text\<close>

text \<open>
  Spans and lines likewise: a span with a style, one without, or a string made \<^verbatim>\<open>.bold().yellow()\<close>;
  a line of spans, or one made from a single string.
\<close>

datatype span = Styled ustr style | Raw ustr | Bold_yellow ustr

datatype line = Spans "span list" | Plain ustr

abbreviation styled :: "ustr \<Rightarrow> style \<Rightarrow> span" where
  "styled content s \<equiv> Styled content s"

abbreviation raw :: "ustr \<Rightarrow> span" where
  "raw content \<equiv> Raw content"

text \<open>The characters given to a line.\<close>

primrec span_text :: "span \<Rightarrow> ustr" where
  "span_text (Styled t s) = t"
| "span_text (Raw t) = t"
| "span_text (Bold_yellow t) = t"

primrec line_text :: "line \<Rightarrow> ustr" where
  "line_text (Spans ss) = concat (map span_text ss)"
| "line_text (Plain t) = t"

definition header_line :: line where
  "header_line = Spans [styled (lit ''drocsid'') brand_style, raw (lit ''  ''), styled (lit ''client'') client_badge_style]"

definition help_line :: line where
  "help_line =
     Spans [Bold_yellow (lit ''Enter''), raw (lit '' send  ''),
            Bold_yellow (lit ''Tab''), raw (lit '' mention  ''),
            Bold_yellow (lit ''Esc''), raw (lit '' quit  ''),
            Bold_yellow (lit ''Ctrl+Q''), raw (lit '' force quit'')]"

definition chat_message_line ::
  "(uchar \<Rightarrow> bool) \<Rightarrow> chat_message \<Rightarrow> chat_app \<Rightarrow> ustr \<Rightarrow> ustr \<Rightarrow> ustr \<Rightarrow> (line, unit) result"
where
  "chat_message_line alnum m app username timestamp body =
     (case message_mentions_current_user alnum body app of
        Panic \<Rightarrow> Panic
      | Err e \<Rightarrow> Err e
      | Ok mention_highlight \<Rightarrow>
          let us = username_style (cm_state m = Pending);
              ts = timestamp_style;
              bs = body_style (cm_state m = Pending);
              (us, ts, cs, bs) =
                (if mention_highlight then
                   (bg PASTEL_YELLOW us, bg PASTEL_YELLOW ts,
                    bg PASTEL_YELLOW (fg Black bs), bg PASTEL_YELLOW (fg Black bs))
                 else (us, ts, bs, bs))
          in Ok (Spans
                [styled (lit ''['' @ username @ lit '']'') us,
                 styled (lit ''('' @ timestamp @ lit '')'') ts,
                 styled (lit '':'') cs,
                 raw (lit '' ''),
                 styled body bs]))"

definition fallback_line_style :: "(uchar \<Rightarrow> bool) \<Rightarrow> chat_message \<Rightarrow> chat_app \<Rightarrow> (style, unit) result" where
  "fallback_line_style alnum m app =
     (let s = fallback_message_style (cm_state m = Pending) in
      (case message_mentions_current_user alnum (cm_text m) app of
         Panic \<Rightarrow> Panic
       | Err e \<Rightarrow> Err e
       | Ok mentioned \<Rightarrow> Ok (if mentioned then bg PASTEL_YELLOW (fg Black s) else s)))"

definition chat_line :: "(uchar \<Rightarrow> bool) \<Rightarrow> chat_app \<Rightarrow> chat_message \<Rightarrow> (line, unit) result" where
  "chat_line alnum app m =
     (if prefix (lit ''[system]'') (cm_text m) then Ok (Spans [styled (cm_text m) system_message_style])
      else
        (case parse_chat_message (cm_text m) of
           Panic \<Rightarrow> Panic
         | Err e \<Rightarrow> Err e
         | Ok (Some (username, timestamp, body)) \<Rightarrow> chat_message_line alnum m app username timestamp body
         | Ok None \<Rightarrow>
             (case fallback_line_style alnum m app of
                Panic \<Rightarrow> Panic
              | Err e \<Rightarrow> Err e
              | Ok s \<Rightarrow> Ok (Spans [styled (cm_text m) s]))))"

fun lines_of :: "(chat_message \<Rightarrow> (line, unit) result) \<Rightarrow> chat_message list \<Rightarrow> (line list, unit) result" where
  "lines_of f [] = Ok []"
| "lines_of f (m # ms) =
     (case f m of
        Panic \<Rightarrow> Panic
      | Err e \<Rightarrow> Err e
      | Ok l \<Rightarrow> (case lines_of f ms of Ok ls \<Rightarrow> Ok (l # ls) | other \<Rightarrow> other))"

definition messages_text :: "(uchar \<Rightarrow> bool) \<Rightarrow> chat_app \<Rightarrow> (line list, unit) result" where
  "messages_text alnum app = lines_of (chat_line alnum app) (ca_messages app)"

definition sidebar_text :: "chat_app \<Rightarrow> line list" where
  "sidebar_text app =
     Spans [styled (lit ''users'') users_title_style] #
     (if ca_connected_users app = [] then [Spans [styled (lit ''  nobody connected'') muted_style]]
      else map (\<lambda>user. Spans [styled (lit ''  '') style_new, styled user online_user_style])
             (ca_connected_users app))"

definition shutdown_text :: "ustr \<Rightarrow> line list" where
  "shutdown_text reason =
     [Spans [styled (lit ''Server connection lost'') disconnected_title_style],
      Plain [],
      Plain reason,
      Plain [],
      Spans [styled (lit ''[ OK ]'') mention_selected_style],
      Plain [],
      Spans [styled (lit ''Press Enter to close'') muted_style]]"

subsection \<open>Geometry\<close>

definition sat_sub :: "u16 \<Rightarrow> u16 \<Rightarrow> u16" where
  "sat_sub a b = (if b \<le> a then a - b else 0)"

definition sat_add :: "u16 \<Rightarrow> u16 \<Rightarrow> u16" where
  "sat_add a b = (if unat a + unat b \<le> 65535 then a + b else 65535)"

text \<open>Addition that panics on overflow.\<close>

definition checked_add :: "u16 \<Rightarrow> u16 \<Rightarrow> (u16, unit) result" where
  "checked_add a b = (if unat a + unat b \<le> 65535 then Ok (a + b) else Panic)"

record rect =
  rect_x :: u16
  rect_y :: u16
  rect_width :: u16
  rect_height :: u16

definition message_scroll_offset :: "line list \<Rightarrow> rect \<Rightarrow> u16" where
  "message_scroll_offset content area =
     (let visible_height = unat (sat_sub (rect_height area) 1) in of_nat (length content - visible_height))"

text \<open>\<open>inner\<close> is the area inside the border.\<close>

definition input_cursor :: "(rect \<Rightarrow> rect) \<Rightarrow> chat_app \<Rightarrow> rect \<Rightarrow> u16 \<times> u16" where
  "input_cursor inner app area =
     (let input_area = inner area;
          cursor_x = sat_add (rect_x input_area) (of_nat (length (ca_input app)));
          max_cursor_x = sat_add (rect_x input_area) (sat_sub (rect_width input_area) 1)
      in (min cursor_x max_cursor_x, rect_y input_area))"

fun popup_widths :: "ustr list \<Rightarrow> (u16 list, unit) result" where
  "popup_widths [] = Ok []"
| "popup_widths (candidate # cs) =
     (case checked_add (of_nat (str_len candidate)) 3 of
        Ok w \<Rightarrow> (case popup_widths cs of Ok ws \<Rightarrow> Ok (w # ws) | other \<Rightarrow> other)
      | Err e \<Rightarrow> Err e
      | Panic \<Rightarrow> Panic)"

text \<open>\<^verbatim>\<open>.max().unwrap_or(12).max(18)\<close>.\<close>

definition popup_width :: "u16 list \<Rightarrow> u16" where
  "popup_width ws = max (if ws = [] then 12 else fold max (tl ws) (hd ws)) 18"

definition popup_lines :: "nat \<Rightarrow> ustr list \<Rightarrow> line list" where
  "popup_lines selection cs =
     map (\<lambda>(index, candidate).
       Spans [styled (lit ''@'' @ candidate) (if index = selection then mention_selected_style else mention_plain_style)])
       (take 5 (zip [0..<length cs] cs))"

text \<open>\<^verbatim>\<open>render_mention_popup\<close>: nothing without candidates, otherwise where and what.\<close>

definition mention_popup :: "chat_app \<Rightarrow> rect \<Rightarrow> rect \<Rightarrow> ((rect \<times> line list) option, unit) result" where
  "mention_popup app input_area frame_area =
     (case mention_candidates app of
        Panic \<Rightarrow> Panic
      | Err e \<Rightarrow> Err e
      | Ok cs \<Rightarrow>
          if cs = [] then Ok None
          else
            (case checked_add (of_nat (min (length cs) 5)) 2 of
               Panic \<Rightarrow> Panic
             | Err e \<Rightarrow> Err e
             | Ok height \<Rightarrow>
                 (case popup_widths cs of
                    Panic \<Rightarrow> Panic
                  | Err e \<Rightarrow> Err e
                  | Ok ws \<Rightarrow>
                      (case checked_add height 1 of
                         Panic \<Rightarrow> Panic
                       | Err e \<Rightarrow> Err e
                       | Ok gap \<Rightarrow>
                           Ok (Some
                             (\<lparr>rect_x = rect_x input_area,
                               rect_y = sat_sub (rect_y input_area) gap,
                               rect_width = min (popup_width ws) (sat_sub (rect_width frame_area) (rect_x input_area)),
                               rect_height = height\<rparr>,
                              popup_lines (ca_mention_selection app) cs))))))"

subsection \<open>Layout\<close>

datatype constraint = Length u16 | Min u16 | Percentage u16

type_synonym splitter = "constraint list \<Rightarrow> rect \<Rightarrow> rect list"

text \<open>Indexing a list of areas panics out of range.\<close>

definition area_at :: "rect list \<Rightarrow> nat \<Rightarrow> (rect, unit) result" where
  "area_at rs i = (if i < length rs then Ok (rs ! i) else Panic)"

record app_layout =
  al_header :: rect
  al_messages :: rect
  al_sidebar :: rect
  al_input :: rect
  al_footer :: rect

definition app_layout_new :: "splitter \<Rightarrow> splitter \<Rightarrow> rect \<Rightarrow> (app_layout, unit) result" where
  "app_layout_new vertical horizontal area =
     (let rows = vertical [Length 3, Min 8, Length 3, Length 2] area in
      case area_at rows 1 of
        Ok middle \<Rightarrow>
          (let body = horizontal [Percentage 72, Percentage 28] middle in
           case (area_at rows 0, area_at body 0, area_at body 1, area_at rows 2, area_at rows 3) of
             (Ok h, Ok m, Ok s, Ok i, Ok f) \<Rightarrow>
               Ok \<lparr>al_header = h, al_messages = m, al_sidebar = s, al_input = i, al_footer = f\<rparr>
           | _ \<Rightarrow> Panic)
      | _ \<Rightarrow> Panic)"

text \<open>\<^verbatim>\<open>(100 - percent) / 2\<close> on \<^verbatim>\<open>u16\<close> panics above 100.\<close>

definition margin :: "u16 \<Rightarrow> (constraint, unit) result" where
  "margin percent = (if percent \<le> 100 then Ok (Percentage ((100 - percent) div 2)) else Panic)"

definition centered_rect :: "splitter \<Rightarrow> splitter \<Rightarrow> rect \<Rightarrow> u16 \<Rightarrow> u16 \<Rightarrow> (rect, unit) result" where
  "centered_rect vertical horizontal area width_percent height_percent =
     (case margin height_percent of
        Ok mv \<Rightarrow>
          (case area_at (vertical [mv, Percentage height_percent, mv] area) 1 of
             Ok middle \<Rightarrow>
               (case margin width_percent of
                  Ok mh \<Rightarrow> area_at (horizontal [mh, Percentage width_percent, mh] middle) 1
                | _ \<Rightarrow> Panic)
           | _ \<Rightarrow> Panic)
      | _ \<Rightarrow> Panic)"

definition shutdown_popup :: "splitter \<Rightarrow> splitter \<Rightarrow> chat_app \<Rightarrow> rect \<Rightarrow> ((rect \<times> line list) option, unit) result" where
  "shutdown_popup vertical horizontal app frame_area =
     (case ca_exit_notice app of
        None \<Rightarrow> Ok None
      | Some reason \<Rightarrow>
          (case centered_rect vertical horizontal frame_area 50 20 of
             Ok area \<Rightarrow> Ok (Some (area, shutdown_text reason))
           | Err e \<Rightarrow> Err e
           | Panic \<Rightarrow> Panic))"

subsection \<open>Drawing\<close>

text \<open>
  The frame is the sequence of the calls made on it. Blocks and paragraphs are the terms the
  program builds; what they look like on the screen is ratatui's. The solvers, the area inside
  a block and whether painting a call on a frame of some area panics are the parameters \<open>ui\<close>.
\<close>

datatype side = Top | Bottom

datatype tui_block = Bordered | Titled ustr style | With_borders side

datatype content = Of_line line | Of_text "line list" | Of_str ustr

record tui_paragraph =
  pg_content :: content
  pg_block :: tui_block
  pg_style :: "style option"
  pg_centered :: bool
  pg_wrap_trim :: "bool option"
  pg_scroll :: "(u16 \<times> u16) option"

definition paragraph_new :: "content \<Rightarrow> tui_block \<Rightarrow> tui_paragraph" where
  "paragraph_new c b =
     \<lparr>pg_content = c, pg_block = b, pg_style = None, pg_centered = False, pg_wrap_trim = None, pg_scroll = None\<rparr>"

datatype draw_call = Clear rect | Draw tui_paragraph rect | Cursor u16 u16

record ui =
  vertical :: splitter
  horizontal :: splitter
  block_inner :: "tui_block \<Rightarrow> rect \<Rightarrow> rect"
  alphanumeric :: "uchar \<Rightarrow> bool"
  paint_panics :: "rect \<Rightarrow> draw_call \<Rightarrow> bool"

definition render_header :: "rect \<Rightarrow> draw_call list" where
  "render_header area =
     [Draw ((paragraph_new (Of_line header_line) (With_borders Bottom))\<lparr>pg_centered := True\<rparr>) area]"

definition render_messages_panel :: "ui \<Rightarrow> chat_app \<Rightarrow> rect \<Rightarrow> (draw_call list, unit) result" where
  "render_messages_panel ui app area =
     (case messages_text (alphanumeric ui) app of
        Panic \<Rightarrow> Panic
      | Err e \<Rightarrow> Err e
      | Ok shown \<Rightarrow>
          let chat_block = Titled (lit ''Messages'') messages_border_style;
              scroll = message_scroll_offset shown (block_inner ui chat_block area)
          in Ok [Draw ((paragraph_new (Of_text shown) chat_block)
                   \<lparr>pg_wrap_trim := Some False, pg_scroll := Some (scroll, 0)\<rparr>) area])"

definition render_session_panel :: "chat_app \<Rightarrow> rect \<Rightarrow> draw_call list" where
  "render_session_panel app area =
     [Draw ((paragraph_new (Of_text (sidebar_text app)) (Titled (lit ''Session'') session_border_style))
        \<lparr>pg_wrap_trim := Some False\<rparr>) area]"

definition render_input_panel :: "chat_app \<Rightarrow> rect \<Rightarrow> draw_call list" where
  "render_input_panel app area =
     [Draw ((paragraph_new (Of_str (ca_input app)) (Titled (lit ''Input'') input_border_style))
        \<lparr>pg_style := Some input_text_style\<rparr>) area]"

definition render_help_bar :: "rect \<Rightarrow> draw_call list" where
  "render_help_bar area = [Draw (paragraph_new (Of_line help_line) (With_borders Top)) area]"

definition render_mention_popup :: "chat_app \<Rightarrow> rect \<Rightarrow> rect \<Rightarrow> (draw_call list, unit) result" where
  "render_mention_popup app input_area frame_area =
     (case mention_popup app input_area frame_area of
        Panic \<Rightarrow> Panic
      | Err e \<Rightarrow> Err e
      | Ok None \<Rightarrow> Ok []
      | Ok (Some (area, ls)) \<Rightarrow>
          Ok [Clear area,
              Draw ((paragraph_new (Of_text ls) (Titled (lit ''Mention'') input_border_style))
                \<lparr>pg_wrap_trim := Some False\<rparr>) area])"

definition render_shutdown_popup :: "ui \<Rightarrow> chat_app \<Rightarrow> rect \<Rightarrow> (draw_call list, unit) result" where
  "render_shutdown_popup ui app frame_area =
     (case shutdown_popup (vertical ui) (horizontal ui) app frame_area of
        Panic \<Rightarrow> Panic
      | Err e \<Rightarrow> Err e
      | Ok None \<Rightarrow> Ok []
      | Ok (Some (area, ls)) \<Rightarrow>
          Ok [Clear area,
              Draw ((paragraph_new (Of_text ls) (Titled (lit ''Disconnected'') disconnected_border_style))
                \<lparr>pg_centered := True, pg_wrap_trim := Some False\<rparr>) area])"

definition set_input_cursor :: "ui \<Rightarrow> chat_app \<Rightarrow> rect \<Rightarrow> draw_call list" where
  "set_input_cursor ui app area =
     (let (x, y) = input_cursor (block_inner ui Bordered) app area in [Cursor x y])"

text \<open>Drawing calls in order, stopping at a panic of the program or of a call it makes.\<close>

fun in_order :: "(draw_call \<Rightarrow> bool) \<Rightarrow> (draw_call list, unit) result list \<Rightarrow> (draw_call list, unit) result" where
  "in_order panics [] = Ok []"
| "in_order panics (r # rs) =
     (case r of
        Ok cs \<Rightarrow>
          if list_ex panics cs then Panic
          else (case in_order panics rs of Ok ds \<Rightarrow> Ok (cs @ ds) | other \<Rightarrow> other)
      | other \<Rightarrow> other)"

definition render :: "ui \<Rightarrow> chat_app \<Rightarrow> rect \<Rightarrow> (draw_call list, unit) result" where
  "render ui app frame_area =
     (case app_layout_new (vertical ui) (horizontal ui) frame_area of
        Panic \<Rightarrow> Panic
      | Err e \<Rightarrow> Err e
      | Ok lay \<Rightarrow>
          in_order (paint_panics ui frame_area)
            [Ok [Clear frame_area],
             Ok (render_header (al_header lay)),
             render_messages_panel ui app (al_messages lay),
             Ok (render_session_panel app (al_sidebar lay)),
             Ok (render_input_panel app (al_input lay)),
             Ok (render_help_bar (al_footer lay)),
             render_mention_popup app (al_input lay) frame_area,
             render_shutdown_popup ui app frame_area,
             Ok (set_input_cursor ui app (al_input lay))])"

subsection \<open>Lines show their messages\<close>

lemma mentions_current_user_Ok: "\<exists>b. message_mentions_current_user alnum content app = Ok b"
  using mention_loop_correct [of "content" "[]" "content" 0 alnum "ca_username app"]
  by (auto simp: message_mentions_current_user_def message_mentions_user_def)

lemma chat_message_line_text:
  "\<exists>l. chat_message_line alnum m app u t b = Ok l \<and> line_text l = format_chat_message u t b"
proof -
  obtain h where "message_mentions_current_user alnum b app = Ok h" using mentions_current_user_Ok by blast
  then show ?thesis
    by (cases h) (simp_all add: chat_message_line_def Let_def format_chat_message_def lit_Cons lit_Nil)
qed

lemma chat_line_text: "\<exists>l. chat_line alnum app m = Ok l \<and> line_text l = cm_text m"
proof -
  obtain h where h: "message_mentions_current_user alnum (cm_text m) app = Ok h" using mentions_current_user_Ok by blast
  obtain r where r: "parse_chat_message (cm_text m) = Ok r"
    using parse_chat_message_Ok by blast
  show ?thesis
  proof (cases r)
    case None
    with h r show ?thesis by (auto simp: chat_line_def fallback_line_style_def Let_def)
  next
    case (Some p)
    obtain u t b where p: "p = (u, t, b)" by (cases p)
    have "cm_text m = format_chat_message u t b" using parse_chat_message_SomeD r Some p by blast
    then show ?thesis
      using chat_message_line_text [of alnum m app u t b] r Some p by (simp add: chat_line_def)
  qed
qed

lemma lines_of_text:
  "(\<And>m. \<exists>l. f m = Ok l \<and> line_text l = cm_text m) \<Longrightarrow>
     \<exists>ls. lines_of f ms = Ok ls \<and> map line_text ls = map cm_text ms"
proof (induction ms)
  case (Cons m ms)
  from Cons.prems obtain l where l: "f m = Ok l" "line_text l = cm_text m" by blast
  from Cons obtain ls where "lines_of f ms = Ok ls" "map line_text ls = map cm_text ms" by auto
  with l show ?case by simp
qed simp

lemma messages_text_Ok: "\<exists>ls. messages_text alnum app = Ok ls \<and> map line_text ls = map cm_text (ca_messages app)"
  unfolding messages_text_def by (rule lines_of_text) (rule chat_line_text)

subsection \<open>The popup's geometry\<close>

definition names_short :: "chat_app \<Rightarrow> bool" where
  "names_short app \<longleftrightarrow> list_all (\<lambda>u. str_len u \<le> 65532) (ca_connected_users app)"

lemma candidates_short: "names_short app \<Longrightarrow> list_all (\<lambda>u. str_len u \<le> 65532) (candidates app)"
proof (cases "candidates app = []")
  case False
  assume s: "names_short app"
  from candidates_nonempty [OF False] obtain a q where "typed_mention (ca_input app) a q" by blast
  from candidates_typed [OF this] s show ?thesis by (auto simp: names_short_def list_all_iff)
qed simp

lemma popup_widths_Ok:
  "list_all (\<lambda>u. str_len u \<le> 65532) cs \<Longrightarrow> popup_widths cs = Ok (map (\<lambda>c. of_nat (str_len c) + 3) cs)"
  by (induction cs) (simp_all add: checked_add_def unat_of_nat)

lemma unat_sat_sub: "unat (sat_sub a b) = unat a - unat b"
  by (auto simp: sat_sub_def word_le_nat_alt unat_sub_if')

lemma length_popup_lines [simp]: "length (popup_lines i cs) = min (length cs) 5"
  by (simp add: popup_lines_def)

lemma nth_popup_lines:
  "j < min (length cs) 5 \<Longrightarrow>
     popup_lines i cs ! j = Spans [styled (lit ''@'' @ cs ! j) (if j = i then mention_selected_style else mention_plain_style)]"
  by (simp add: popup_lines_def)

lemma popup_height:
  assumes "n \<le> 5"
  shows "unat (of_nat n :: u16) = n" "unat (of_nat n + 2 :: u16) = n + 2" "unat (of_nat n + 2 + 1 :: u16) = n + 3"
proof -
  have u: "unat (of_nat m :: u16) = m" if "m \<le> 8" for m :: nat using that by (simp add: unat_of_nat)
  from assms show "unat (of_nat n :: u16) = n" by (intro u) simp
  have "unat (of_nat n + 2 :: u16) = unat (of_nat (n + 2) :: u16)" by (simp add: ac_simps)
  also have "\<dots> = n + 2" by (rule u) (use assms in simp)
  finally show "unat (of_nat n + 2 :: u16) = n + 2" .
  have "unat (of_nat n + 2 + 1 :: u16) = unat (of_nat (n + 3) :: u16)" by (simp add: ac_simps)
  also have "\<dots> = n + 3" by (rule u) (use assms in simp)
  finally show "unat (of_nat n + 2 + 1 :: u16) = n + 3" .
qed

lemma mention_popup_Ok:
  assumes "names_short app" and "candidates app \<noteq> []"
  defines "h \<equiv> of_nat (min (length (candidates app)) 5) + 2 :: u16"
  shows "mention_popup app ia fa =
    Ok (Some (\<lparr>rect_x = rect_x ia, rect_y = sat_sub (rect_y ia) (h + 1),
      rect_width = min (popup_width (map (\<lambda>c. of_nat (str_len c) + 3) (candidates app))) (sat_sub (rect_width fa) (rect_x ia)),
      rect_height = h\<rparr>, popup_lines (ca_mention_selection app) (candidates app)))"
    and "unat h = min (length (candidates app)) 5 + 2" and "unat (h + 1) = min (length (candidates app)) 5 + 3"
proof -
  let ?n = "min (length (candidates app)) 5"
  have "?n \<le> 5" by simp
  note n = popup_height [OF this]
  show h: "unat h = ?n + 2" and h1: "unat (h + 1) = ?n + 3" using n by (simp_all only: h_def)
  have "checked_add (of_nat ?n) 2 = Ok h" "checked_add h 1 = Ok (h + 1)"
    using n h by (simp_all add: checked_add_def h_def)
  with assms(2) popup_widths_Ok [OF candidates_short [OF assms(1)]]
  show "mention_popup app ia fa =
    Ok (Some (\<lparr>rect_x = rect_x ia, rect_y = sat_sub (rect_y ia) (h + 1),
      rect_width = min (popup_width (map (\<lambda>c. of_nat (str_len c) + 3) (candidates app))) (sat_sub (rect_width fa) (rect_x ia)),
      rect_height = h\<rparr>, popup_lines (ca_mention_selection app) (candidates app)))"
    by (simp add: mention_popup_def mention_candidates_Ok)
qed

subsection \<open>A frame\<close>

text \<open>An area within another, and one whose far corner is still a position.\<close>

definition inside :: "rect \<Rightarrow> rect \<Rightarrow> bool" where
  "inside q r \<longleftrightarrow>
     unat (rect_x r) \<le> unat (rect_x q) \<and> unat (rect_x q) + unat (rect_width q) \<le> unat (rect_x r) + unat (rect_width r) \<and>
     unat (rect_y r) \<le> unat (rect_y q) \<and> unat (rect_y q) + unat (rect_height q) \<le> unat (rect_y r) + unat (rect_height r)"

definition proper :: "rect \<Rightarrow> bool" where
  "proper r \<longleftrightarrow> unat (rect_x r) + unat (rect_width r) \<le> 65535 \<and> unat (rect_y r) + unat (rect_height r) \<le> 65535"

fun call_inside :: "rect \<Rightarrow> draw_call \<Rightarrow> bool" where
  "call_inside fa (Clear r) = inside r fa"
| "call_inside fa (Draw p r) = inside r fa"
| "call_inside fa (Cursor x y) = True"

text \<open>
  What is relied on of ratatui: a layout has one area for each constraint, within the area that is
  split; the inner area of a block is within the block's; painting within the frame does not panic.
\<close>

definition splits_ok :: "splitter \<Rightarrow> bool" where
  "splits_ok sp \<longleftrightarrow> (\<forall>cs r. length (sp cs r) = length cs \<and> (proper r \<longrightarrow> (\<forall>q \<in> set (sp cs r). inside q r)))"

definition ui_ok :: "ui \<Rightarrow> bool" where
  "ui_ok ui \<longleftrightarrow> splits_ok (vertical ui) \<and> splits_ok (horizontal ui) \<and>
     (\<forall>b r. proper r \<longrightarrow> inside (block_inner ui b r) r) \<and> (\<forall>fa c. call_inside fa c \<longrightarrow> \<not> paint_panics ui fa c)"

text \<open>A terminal with room for the mention popup: seven rows. The frame starts at the origin.\<close>

definition roomy :: "rect \<Rightarrow> bool" where
  "roomy fa \<longleftrightarrow> rect_x fa = 0 \<and> rect_y fa = 0 \<and> 7 \<le> unat (rect_height fa)"

lemma unat_less: "unat (w :: u16) < 65536"
  using unsigned_less [of w, where ?'a = nat] by simp

lemma inside_refl [simp]: "inside r r"
  by (simp add: inside_def)

lemma inside_trans: "inside p q \<Longrightarrow> inside q r \<Longrightarrow> inside p r"
  by (simp add: inside_def)

lemma inside_proper: "inside q r \<Longrightarrow> proper r \<Longrightarrow> proper q"
  by (simp add: inside_def proper_def)

lemma roomy_proper: "roomy fa \<Longrightarrow> proper fa"
  using unat_less [of "rect_width fa"] unat_less [of "rect_height fa"] by (simp add: roomy_def proper_def)

lemma splits_inside: "splits_ok sp \<Longrightarrow> proper r \<Longrightarrow> i < length cs \<Longrightarrow> inside (sp cs r ! i) r \<and> proper (sp cs r ! i)"
  by (metis splits_ok_def nth_mem inside_proper)

lemma app_layout_Ok:
  assumes "splits_ok v" and "splits_ok h" and "proper area"
  obtains lay where "app_layout_new v h area = Ok lay"
    "inside (al_header lay) area" "inside (al_messages lay) area" "inside (al_sidebar lay) area"
    "inside (al_input lay) area" "inside (al_footer lay) area"
proof -
  let ?rs = "v [Length 3, Min 8, Length 3, Length 2] area"
  let ?body = "h [Percentage 72, Percentage 28] (?rs ! 1)"
  have r: "inside (?rs ! i) area \<and> proper (?rs ! i)" if "i < 4" for i
    using splits_inside [OF assms(1,3), of i "[Length 3, Min 8, Length 3, Length 2]"] that by simp
  have r1: "inside (?rs ! 1) area" "proper (?rs ! 1)" using r [of 1] by simp_all
  have b: "inside (?body ! i) area" if "i < 2" for i
    using splits_inside [OF assms(2) r1(2), of i "[Percentage 72, Percentage 28]"] that
    by (intro inside_trans [OF _ r1(1)]) simp
  have "length ?rs = 4" "\<And>r. length (h [Percentage 72, Percentage 28] r) = 2"
    using assms(1,2) by (simp_all add: splits_ok_def)
  then have "app_layout_new v h area =
      Ok \<lparr>al_header = ?rs ! 0, al_messages = ?body ! 0, al_sidebar = ?body ! 1, al_input = ?rs ! 2, al_footer = ?rs ! 3\<rparr>"
    by (simp add: app_layout_new_def area_at_def Let_def del: length_greater_0_conv)
  then show ?thesis
    by (rule that) (use r [of 0] r [of 2] r [of 3] b [of 0] b [of 1] in simp_all)
qed

lemma centered_rect_Ok:
  assumes "splits_ok v" and "splits_ok h" and "w \<le> 100" and "p \<le> 100" and "proper area"
  obtains r where "centered_rect v h area w p = Ok r" "inside r area"
proof -
  let ?vs = "v [Percentage ((100 - p) div 2), Percentage p, Percentage ((100 - p) div 2)] area"
  let ?hs = "h [Percentage ((100 - w) div 2), Percentage w, Percentage ((100 - w) div 2)] (?vs ! 1)"
  have "inside (?vs ! 1) area \<and> proper (?vs ! 1)" by (rule splits_inside [OF assms(1,5)]) simp
  moreover from this have "inside (?hs ! 1) (?vs ! 1)" using splits_inside [OF assms(2)] by simp
  ultimately have "inside (?hs ! 1) area" using inside_trans by blast
  moreover have "centered_rect v h area w p = Ok (?hs ! 1)"
    using assms(1-4) by (simp add: centered_rect_def margin_def area_at_def splits_ok_def)
  ultimately show ?thesis by (rule that [rotated])
qed

lemma shutdown_popup_Ok:
  assumes "ui_ok ui" and "proper area"
  obtains r where "inside r area" "shutdown_popup (vertical ui) (horizontal ui) app area =
    Ok (map_option (\<lambda>reason. (r, shutdown_text reason)) (ca_exit_notice app))"
proof -
  obtain r where "centered_rect (vertical ui) (horizontal ui) area 50 20 = Ok r" "inside r area"
    using centered_rect_Ok [of "vertical ui" "horizontal ui" 50 20 area] assms by (auto simp: ui_ok_def)
  then show ?thesis by (intro that [of r]) (auto simp: shutdown_popup_def split: option.split)
qed

text \<open>The mention popup is within a frame of at least its height.\<close>

lemma mention_popup_inside:
  assumes "names_short app" and "candidates app \<noteq> []" and "rect_x fa = 0" "rect_y fa = 0" and "inside ia fa"
    and "mention_popup app ia fa = Ok (Some (area, ls))"
  shows "inside area fa \<longleftrightarrow> length ls + 2 \<le> unat (rect_height fa)"
proof -
  note popup = mention_popup_Ok [OF assms(1,2)]
  let ?w = "min (popup_width (map (\<lambda>c. of_nat (str_len c) + 3) (candidates app))) (sat_sub (rect_width fa) (rect_x ia))"
  have "unat ?w \<le> unat (sat_sub (rect_width fa) (rect_x ia))" by (simp add: min_def word_le_nat_alt)
  then have "unat ?w \<le> unat (rect_width fa) - unat (rect_x ia)" by (simp only: unat_sat_sub)
  moreover have "unat (rect_x ia) \<le> unat (rect_width fa)" using assms(3,5) by (simp add: inside_def)
  ultimately have "unat (rect_x ia) + unat ?w \<le> unat (rect_width fa)" by linarith
  moreover have "unat (rect_y ia) \<le> unat (rect_height fa)" using assms(4,5) by (simp add: inside_def)
  moreover have "area = \<lparr>rect_x = rect_x ia, rect_y = sat_sub (rect_y ia) (of_nat (min (length (candidates app)) 5) + 2 + 1),
      rect_width = ?w, rect_height = of_nat (min (length (candidates app)) 5) + 2\<rparr>"
    and "length ls = min (length (candidates app)) 5"
    using popup(1) [of ia fa] assms(6) by auto
  moreover have "(y - (n + 3)) + (n + 2) \<le> h \<longleftrightarrow> n + 2 \<le> h" if "y \<le> h" for y n h :: nat using that by linarith
  ultimately show ?thesis
    unfolding inside_def using assms(3,4) popup(2,3) by (simp add: unat_sat_sub del: add_2_eq_Suc add_2_eq_Suc' min_less_iff_conj)
qed

text \<open>The calls for each popup.\<close>

definition popup_calls :: "string \<Rightarrow> style \<Rightarrow> bool \<Rightarrow> (rect \<times> line list) option \<Rightarrow> draw_call list" where
  "popup_calls title st centered p =
     (case p of
        None \<Rightarrow> []
      | Some (area, ls) \<Rightarrow>
          [Clear area, Draw ((paragraph_new (Of_text ls) (Titled (lit title) st))
             \<lparr>pg_centered := centered, pg_wrap_trim := Some False\<rparr>) area])"

lemma in_order_Ok: "list_all (\<lambda>c. \<not> panics c) (concat css) \<Longrightarrow> in_order panics (map Ok css) = Ok (concat css)"
proof (induction css)
  case (Cons cs css)
  then have "in_order panics (map Ok css) = Ok (concat css)" "\<not> list_ex panics cs"
    by (auto simp: list_all_iff list_ex_iff)
  then show ?case by simp
qed simp

lemma render_Ok:
  assumes "ui_ok ui" and "names_short app" and "roomy area"
  obtains lay ls mention r where
    "app_layout_new (vertical ui) (horizontal ui) area = Ok lay" "inside (al_input lay) area"
    "map line_text ls = map cm_text (ca_messages app)"
    "mention_popup app (al_input lay) area = Ok mention" "(mention = None) = (candidates app = [])"
    "render ui app area = Ok
       (Clear area # render_header (al_header lay) @
        Draw ((paragraph_new (Of_text ls) (Titled (lit ''Messages'') messages_border_style))
          \<lparr>pg_wrap_trim := Some False,
           pg_scroll := Some (message_scroll_offset ls
             (block_inner ui (Titled (lit ''Messages'') messages_border_style) (al_messages lay)), 0)\<rparr>) (al_messages lay) #
        render_session_panel app (al_sidebar lay) @ render_input_panel app (al_input lay) @ render_help_bar (al_footer lay) @
        popup_calls ''Mention'' input_border_style False mention @
        popup_calls ''Disconnected'' disconnected_border_style True
          (map_option (\<lambda>reason. (r, shutdown_text reason)) (ca_exit_notice app)) @
        set_input_cursor ui app (al_input lay))"
    "\<forall>calls. render ui app area = Ok calls \<longrightarrow> list_all (call_inside area) calls"
proof -
  have area: "rect_x area = 0" "rect_y area = 0" "7 \<le> unat (rect_height area)" using assms(3) by (simp_all add: roomy_def)
  note fits = roomy_proper [OF assms(3)]
  obtain lay where lay: "app_layout_new (vertical ui) (horizontal ui) area = Ok lay"
    and i: "inside (al_header lay) area" "inside (al_messages lay) area" "inside (al_sidebar lay) area"
      "inside (al_input lay) area" "inside (al_footer lay) area"
    using app_layout_Ok fits assms(1) unfolding ui_ok_def by metis
  obtain ls where ls: "messages_text (alphanumeric ui) app = Ok ls" "map line_text ls = map cm_text (ca_messages app)"
    using messages_text_Ok by blast
  obtain mention where mention: "mention_popup app (al_input lay) area = Ok mention" "(mention = None) = (candidates app = [])"
    and im: "\<And>r ls. mention = Some (r, ls) \<Longrightarrow> inside r area"
  proof (cases "candidates app = []")
    case True
    then have "mention_popup app (al_input lay) area = Ok None" by (simp add: mention_popup_def mention_candidates_Ok)
    then show ?thesis using True by (intro that [of None]) simp_all
  next
    case False
    obtain r ls where p: "mention_popup app (al_input lay) area = Ok (Some (r, ls))" "length ls = min (length (candidates app)) 5"
      using mention_popup_Ok(1) [OF assms(2) False, of "al_input lay" area] by simp
    have "inside r area"
      unfolding mention_popup_inside [OF assms(2) False _ _ i(4) p(1), OF area(1,2)] p(2) using area(3) by linarith
    with p(1) False show ?thesis by (intro that [of "Some (r, ls)"]) auto
  qed
  obtain r where r: "inside r area" and sd: "shutdown_popup (vertical ui) (horizontal ui) app area =
    Ok (map_option (\<lambda>reason. (r, shutdown_text reason)) (ca_exit_notice app))"
    using shutdown_popup_Ok [OF assms(1) fits] by blast
  let ?m = "popup_calls ''Mention'' input_border_style False mention"
  let ?d = "popup_calls ''Disconnected'' disconnected_border_style True (map_option (\<lambda>reason. (r, shutdown_text reason)) (ca_exit_notice app))"
  let ?p = "(paragraph_new (Of_text ls) (Titled (lit ''Messages'') messages_border_style))
      \<lparr>pg_wrap_trim := Some False, pg_scroll := Some (message_scroll_offset ls
         (block_inner ui (Titled (lit ''Messages'') messages_border_style) (al_messages lay)), 0)\<rparr>"
  have m: "render_mention_popup app (al_input lay) area = Ok ?m"
    using mention(1) by (auto simp: render_mention_popup_def popup_calls_def paragraph_new_def split: option.split)
  have d: "render_shutdown_popup ui app area = Ok ?d"
    unfolding render_shutdown_popup_def sd by (simp add: popup_calls_def split: option.split)
  let ?css = "[[Clear area], render_header (al_header lay), [Draw ?p (al_messages lay)], render_session_panel app (al_sidebar lay),
      render_input_panel app (al_input lay), render_help_bar (al_footer lay), ?m, ?d, set_input_cursor ui app (al_input lay)]"
  have "list_all (call_inside area) ?m" "list_all (call_inside area) ?d"
    using im r by (auto simp: popup_calls_def split: option.split)
  with i have inside: "list_all (call_inside area) (concat ?css)"
    by (simp add: render_header_def render_session_panel_def render_input_panel_def render_help_bar_def set_input_cursor_def split: prod.split)
  then have "list_all (\<lambda>c. \<not> paint_panics ui area c) (concat ?css)"
    using assms(1) by (auto simp: ui_ok_def list_all_iff)
  from in_order_Ok [OF this] have c: "render ui app area = Ok (concat ?css)"
    by (simp only: render_def lay m d render_messages_panel_def ls(1) Let_def list.map result.case)
  show ?thesis
  proof (rule that [OF lay i(4) ls(2) mention])
    show "\<forall>calls. render ui app area = Ok calls \<longrightarrow> list_all (call_inside area) calls"
      using inside c by simp
    show "render ui app area = Ok (Clear area # render_header (al_header lay) @ Draw ?p (al_messages lay) #
        render_session_panel app (al_sidebar lay) @ render_input_panel app (al_input lay) @ render_help_bar (al_footer lay) @
        ?m @ ?d @ set_input_cursor ui app (al_input lay))"
      unfolding c by simp
  qed
qed

subsection \<open>What a frame shows\<close>

text \<open>The panels with a title, in the order they are drawn, and the characters given to each of their lines.\<close>

definition titled :: "string \<Rightarrow> tui_paragraph \<Rightarrow> bool" where
  "titled title p \<longleftrightarrow> (case pg_block p of Titled t st \<Rightarrow> t = lit title | _ \<Rightarrow> False)"

fun panels :: "string \<Rightarrow> draw_call list \<Rightarrow> (tui_paragraph \<times> rect) list" where
  "panels title [] = []"
| "panels title (Draw p r # cs) = (if titled title p then (p, r) # panels title cs else panels title cs)"
| "panels title (c # cs) = panels title cs"

primrec content_lines :: "content \<Rightarrow> ustr list" where
  "content_lines (Of_line l) = [line_text l]"
| "content_lines (Of_text ls) = map line_text ls"
| "content_lines (Of_str t) = [t]"

definition panel_lines :: "string \<Rightarrow> draw_call list \<Rightarrow> ustr list list" where
  "panel_lines title calls = map (\<lambda>(p, r). content_lines (pg_content p)) (panels title calls)"

lemma panels_append [simp]: "panels t (xs @ ys) = panels t xs @ panels t ys"
  by (induction t xs rule: panels.induct) simp_all

lemma titled_simps [simp]:
  "titled t (paragraph_new c (Titled u st)) \<longleftrightarrow> u = lit t"
  "titled t (paragraph_new c Bordered) = False" "titled t (paragraph_new c (With_borders s)) = False"
  "titled t (p\<lparr>pg_centered := x\<rparr>) = titled t p" "titled t (p\<lparr>pg_wrap_trim := y\<rparr>) = titled t p"
  "titled t (p\<lparr>pg_scroll := z\<rparr>) = titled t p" "titled t (p\<lparr>pg_style := w\<rparr>) = titled t p"
  "pg_content (paragraph_new c b) = c" "pg_block (paragraph_new c b) = b"
  by (simp_all add: titled_def paragraph_new_def)

lemma panels_popup [simp]:
  "panels t (popup_calls u st c p) =
     (if lit u = lit t then case p of None \<Rightarrow> [] | Some (r, ls) \<Rightarrow>
        [((paragraph_new (Of_text ls) (Titled (lit u) st))\<lparr>pg_centered := c, pg_wrap_trim := Some False\<rparr>, r)] else [])"
  by (auto simp: popup_calls_def split: option.split)

lemma titles [simp]:
  "lit ''Messages'' \<noteq> lit ''Session''" "lit ''Messages'' \<noteq> lit ''Input''" "lit ''Messages'' \<noteq> lit ''Mention''" "lit ''Messages'' \<noteq> lit ''Disconnected''"
  "lit ''Session'' \<noteq> lit ''Messages''" "lit ''Session'' \<noteq> lit ''Input''" "lit ''Session'' \<noteq> lit ''Mention''" "lit ''Session'' \<noteq> lit ''Disconnected''"
  "lit ''Input'' \<noteq> lit ''Messages''" "lit ''Input'' \<noteq> lit ''Session''" "lit ''Input'' \<noteq> lit ''Mention''" "lit ''Input'' \<noteq> lit ''Disconnected''"
  "lit ''Mention'' \<noteq> lit ''Messages''" "lit ''Mention'' \<noteq> lit ''Session''" "lit ''Mention'' \<noteq> lit ''Input''" "lit ''Mention'' \<noteq> lit ''Disconnected''"
  "lit ''Disconnected'' \<noteq> lit ''Messages''" "lit ''Disconnected'' \<noteq> lit ''Session''" "lit ''Disconnected'' \<noteq> lit ''Input''" "lit ''Disconnected'' \<noteq> lit ''Mention''"
  by (simp_all add: lit_Cons lit_Nil)

lemma popup_cleared:
  "sublist (popup_calls t st c q) calls \<Longrightarrow> list_all (\<lambda>(p, r). sublist [Clear r, Draw p r] calls) (panels t (popup_calls t st c q))"
  by (simp add: popup_calls_def split: option.splits prod.splits)

text \<open>The lines of the panels, as the app has them.\<close>

definition session_lines :: "chat_app \<Rightarrow> ustr list" where
  "session_lines app =
     lit ''users'' # (if ca_connected_users app = [] then [lit ''  nobody connected''] else map ((@) (lit ''  '')) (ca_connected_users app))"

definition notice_lines :: "ustr \<Rightarrow> ustr list" where
  "notice_lines reason =
     [lit ''Server connection lost'', [], reason, [], lit ''[ OK ]'', [], lit ''Press Enter to close'']"

lemma sidebar_lines: "map line_text (sidebar_text app) = session_lines app"
  by (simp add: sidebar_text_def session_lines_def comp_def)

lemma shutdown_lines: "map line_text (shutdown_text reason) = notice_lines reason"
  by (simp add: shutdown_text_def notice_lines_def)

lemma popup_line_texts: "map line_text (popup_lines i cs) = map ((@) (lit ''@'')) (take 5 cs)"
  by (rule nth_equalityI) (simp_all add: nth_popup_lines)

lemma scroll_exact:
  "length ls \<le> 65535 \<Longrightarrow> unat (message_scroll_offset ls area) = length ls - (unat (rect_height area) - 1)"
  by (simp add: message_scroll_offset_def Let_def unat_sat_sub unat_of_nat)

lemma input_cursor_exact:
  assumes "proper (inner area)" and "length (ca_input app) \<le> 65535"
  shows "input_cursor inner app area = (x, y) \<Longrightarrow> y = rect_y (inner area) \<and>
    unat x = unat (rect_x (inner area)) + min (length (ca_input app)) (unat (rect_width (inner area)) - 1)"
proof -
  have sa: "unat (sat_add a b) = min (unat a + unat b) 65535" for a b
    by (simp add: sat_add_def unat_word_ariths)
  have "unat (min a b) = min (unat a) (unat b)" for a b :: u16 by (simp add: min_def word_le_nat_alt)
  then show "input_cursor inner app area = (x, y) \<Longrightarrow> ?thesis"
    using assms by (auto simp: input_cursor_def Let_def sa unat_sat_sub unat_of_nat proper_def)
qed

text \<open>All of it, for one frame.\<close>

lemma render_frame:
  assumes "ui_ok ui" and "names_short app" and "roomy area" and "length (ca_messages app) \<le> 65535"
  obtains lay calls p off x y where "app_layout_new (vertical ui) (horizontal ui) area = Ok lay"
    "render ui app area = Ok calls" "hd calls = Clear area" "list_all (call_inside area) calls"
    "panels ''Messages'' calls = [(p, al_messages lay)]" "content_lines (pg_content p) = map cm_text (ca_messages app)"
    "pg_scroll p = Some (off, 0)"
    "unat off = length (ca_messages app) - (unat (rect_height (block_inner ui (pg_block p) (al_messages lay))) - 1)"
    "panel_lines ''Session'' calls = [session_lines app]" "panel_lines ''Input'' calls = [[ca_input app]]"
    "panel_lines ''Mention'' calls = (if candidates app = [] then [] else [map ((@) (lit ''@'')) (take 5 (candidates app))])"
    "panel_lines ''Disconnected'' calls = (case ca_exit_notice app of None \<Rightarrow> [] | Some reason \<Rightarrow> [notice_lines reason])"
    "list_all (\<lambda>(p, r). sublist [Clear r, Draw p r] calls) (panels ''Mention'' calls @ panels ''Disconnected'' calls)"
    "last calls = Cursor x y" "proper (block_inner ui Bordered (al_input lay))"
    "input_cursor (block_inner ui Bordered) app (al_input lay) = (x, y)"
proof -
  obtain lay ls mention r where lay: "app_layout_new (vertical ui) (horizontal ui) area = Ok lay"
    and i: "inside (al_input lay) area" and ls: "map line_text ls = map cm_text (ca_messages app)"
    and m: "mention_popup app (al_input lay) area = Ok mention" "(mention = None) = (candidates app = [])"
    and c: "render ui app area = Ok
       (Clear area # render_header (al_header lay) @
        Draw ((paragraph_new (Of_text ls) (Titled (lit ''Messages'') messages_border_style))
          \<lparr>pg_wrap_trim := Some False,
           pg_scroll := Some (message_scroll_offset ls
             (block_inner ui (Titled (lit ''Messages'') messages_border_style) (al_messages lay)), 0)\<rparr>) (al_messages lay) #
        render_session_panel app (al_sidebar lay) @ render_input_panel app (al_input lay) @ render_help_bar (al_footer lay) @
        popup_calls ''Mention'' input_border_style False mention @
        popup_calls ''Disconnected'' disconnected_border_style True
          (map_option (\<lambda>reason. (r, shutdown_text reason)) (ca_exit_notice app)) @
        set_input_cursor ui app (al_input lay))" (is "_ = Ok ?calls")
    and ci: "\<forall>calls. render ui app area = Ok calls \<longrightarrow> list_all (call_inside area) calls"
    by (rule render_Ok [OF assms(1-3)])
  obtain x y where xy: "input_cursor (block_inner ui Bordered) app (al_input lay) = (x, y)" by fastforce
  note plain = render_header_def render_session_panel_def render_input_panel_def render_help_bar_def set_input_cursor_def xy
  have mc: "panel_lines ''Mention'' ?calls = (if candidates app = [] then [] else [map ((@) (lit ''@'')) (take 5 (candidates app))])"
  proof (cases "candidates app = []")
    case False
    then have "mention_popup app (al_input lay) area \<noteq> Ok None" using m by simp
    with False m mention_popup_Ok(1) [OF assms(2) False, of "al_input lay" area] show ?thesis
      by (auto simp: panel_lines_def plain popup_line_texts split_def)
  qed (use m in \<open>simp add: panel_lines_def plain\<close>)
  have dc: "panel_lines ''Disconnected'' ?calls = (case ca_exit_notice app of None \<Rightarrow> [] | Some reason \<Rightarrow> [notice_lines reason])"
    by (cases "ca_exit_notice app") (simp_all add: panel_lines_def plain shutdown_lines)
  have len: "length ls = length (ca_messages app)" using ls by (metis length_map)
  have sub: "list_all (\<lambda>(p, r). sublist [Clear r, Draw p r] ?calls) (panels ''Mention'' ?calls @ panels ''Disconnected'' ?calls)"
  proof -
    have "panels ''Mention'' ?calls = panels ''Mention'' (popup_calls ''Mention'' input_border_style False mention)"
      "panels ''Disconnected'' ?calls = panels ''Disconnected'' (popup_calls ''Disconnected'' disconnected_border_style True
          (map_option (\<lambda>reason. (r, shutdown_text reason)) (ca_exit_notice app)))"
      by (simp_all add: plain)
    moreover have "sublist xs (c # a @ d # b @ e @ f @ xs @ g @ h)" "sublist xs (c # a @ d # b @ e @ f @ g @ xs @ h)"
      for xs a b e f g h :: "draw_call list" and c d
      using sublist_appendI [of xs "c # a @ d # b @ e @ f" "g @ h"] sublist_appendI [of xs "c # a @ d # b @ e @ f @ g" h] by simp_all
    then have "sublist (popup_calls ''Mention'' input_border_style False mention) ?calls"
      "sublist (popup_calls ''Disconnected'' disconnected_border_style True
          (map_option (\<lambda>reason. (r, shutdown_text reason)) (ca_exit_notice app))) ?calls"
      by blast+
    ultimately show ?thesis using popup_cleared by (simp only: list_all_append)
  qed
  show ?thesis
  proof (rule that [OF lay c _ ci [rule_format, OF c] _ _ _ _ _ _ mc dc sub _ _ xy])
    show "panels ''Messages'' ?calls = [((paragraph_new (Of_text ls) (Titled (lit ''Messages'') messages_border_style))
          \<lparr>pg_wrap_trim := Some False,
           pg_scroll := Some (message_scroll_offset ls
             (block_inner ui (Titled (lit ''Messages'') messages_border_style) (al_messages lay)), 0)\<rparr>, al_messages lay)]"
      by (simp add: plain)
    show "proper (block_inner ui Bordered (al_input lay))"
      using assms(1) i inside_proper roomy_proper [OF assms(3)] unfolding ui_ok_def by blast
    show "panel_lines ''Session'' ?calls = [session_lines app]" "panel_lines ''Input'' ?calls = [[ca_input app]]"
      by (simp_all add: panel_lines_def plain sidebar_lines)
  qed (use ls len assms(4) scroll_exact [of ls] in \<open>simp_all add: plain\<close>)
qed

subsection \<open>Properties\<close>

text \<open>
  C28. Drawing a frame of at least seven rows never panics, as long as painting inside the frame
  does not: every call is inside, the popups included. The frame is cleared first. The messages
  panel has one line for each message, with exactly its characters and in order, scrolled to the
  lines at the end; the session panel lists the users; the input panel is the input. The mention
  popup is drawn exactly when there are candidates and lists the first five; the shutdown popup is
  drawn exactly when there is an exit notice and gives its reason; each is drawn right after its
  area is cleared. The cursor is set last: after the input, or at the last column of its panel.
\<close>

theorem render_shows:
  assumes "ui_ok ui" and "app_inv app" and "names_short app" and "roomy area"
  shows "\<exists>lay calls p off x y. app_layout_new (vertical ui) (horizontal ui) area = Ok lay \<and>
    render ui app area = Ok calls \<and> hd calls = Clear area \<and> list_all (call_inside area) calls \<and>
    panels ''Messages'' calls = [(p, al_messages lay)] \<and> content_lines (pg_content p) = map cm_text (ca_messages app) \<and>
    pg_scroll p = Some (off, 0) \<and>
    unat off = length (ca_messages app) - (unat (rect_height (block_inner ui (pg_block p) (al_messages lay))) - 1) \<and>
    panel_lines ''Session'' calls = [session_lines app] \<and> panel_lines ''Input'' calls = [[ca_input app]] \<and>
    panel_lines ''Mention'' calls = (if candidates app = [] then [] else [map ((@) (lit ''@'')) (take 5 (candidates app))]) \<and>
    panel_lines ''Disconnected'' calls = (case ca_exit_notice app of None \<Rightarrow> [] | Some reason \<Rightarrow> [notice_lines reason]) \<and>
    list_all (\<lambda>(p, r). sublist [Clear r, Draw p r] calls) (panels ''Mention'' calls @ panels ''Disconnected'' calls) \<and>
    last calls = Cursor x y \<and> y = rect_y (block_inner ui Bordered (al_input lay)) \<and>
    (length (ca_input app) \<le> 65535 \<longrightarrow> unat x = unat (rect_x (block_inner ui Bordered (al_input lay))) +
       min (length (ca_input app)) (unat (rect_width (block_inner ui Bordered (al_input lay))) - 1))"
proof -
  have len: "length (ca_messages app) \<le> 65535" using assms(2) by (simp add: app_inv_def limits)
  obtain lay calls p off x y where
    frame: "app_layout_new (vertical ui) (horizontal ui) area = Ok lay"
    "render ui app area = Ok calls" "hd calls = Clear area" "list_all (call_inside area) calls"
    "panels ''Messages'' calls = [(p, al_messages lay)]" "content_lines (pg_content p) = map cm_text (ca_messages app)"
    "pg_scroll p = Some (off, 0)"
    "unat off = length (ca_messages app) - (unat (rect_height (block_inner ui (pg_block p) (al_messages lay))) - 1)"
    "panel_lines ''Session'' calls = [session_lines app]" "panel_lines ''Input'' calls = [[ca_input app]]"
    "panel_lines ''Mention'' calls = (if candidates app = [] then [] else [map ((@) (lit ''@'')) (take 5 (candidates app))])"
    "panel_lines ''Disconnected'' calls = (case ca_exit_notice app of None \<Rightarrow> [] | Some reason \<Rightarrow> [notice_lines reason])"
    "list_all (\<lambda>(p, r). sublist [Clear r, Draw p r] calls) (panels ''Mention'' calls @ panels ''Disconnected'' calls)"
    "last calls = Cursor x y"
    and pr: "proper (block_inner ui Bordered (al_input lay))"
    and xy: "input_cursor (block_inner ui Bordered) app (al_input lay) = (x, y)"
    by (rule render_frame [OF assms(1,3,4) len])
  have "y = rect_y (block_inner ui Bordered (al_input lay))" using xy by (simp add: input_cursor_def Let_def)
  moreover note input_cursor_exact [OF pr _ xy]
  ultimately show ?thesis
    using frame by (intro exI [of _ lay] exI [of _ calls] exI [of _ p] exI [of _ off] exI [of _ x] exI [of _ y]) simp
qed

text \<open>Solvers that leave an area whole, and a terminal that panics on every call outside the frame.\<close>

definition same_ui :: ui where
  "same_ui = \<lparr>vertical = (\<lambda>cs r. map (\<lambda>_. r) cs), horizontal = (\<lambda>cs r. map (\<lambda>_. r) cs),
     block_inner = (\<lambda>b r. r), alphanumeric = (\<lambda>c. 97 \<le> c \<and> c \<le> 122), paint_panics = (\<lambda>fa c. \<not> call_inside fa c)\<rparr>"

definition screen :: rect where
  "screen = \<lparr>rect_x = 0, rect_y = 0, rect_width = 80, rect_height = 24\<rparr>"

lemma same_ui_ok: "ui_ok same_ui"
  by (auto simp: ui_ok_def splits_ok_def same_ui_def)

lemma screen_roomy: "roomy screen" "rect_x screen = 0" "rect_y screen = 0" "rect_width screen = 80" "rect_height screen = 24"
  by (simp_all add: roomy_def screen_def)

theorem render_shows_witness:
  "\<exists>calls. render same_ui (push_message (lit ''[a](1): b'') Confirmed (chat_app_new [0x61] [])) screen = Ok calls \<and>
     panel_lines ''Mention'' calls = [] \<and> panel_lines ''Session'' calls = [[lit ''users'', lit ''  a'']]"
proof -
  let ?app = "push_message (lit ''[a](1): b'') Confirmed (chat_app_new [0x61] [])"
  have "app_inv ?app" by (intro push_message_inv chat_app_new_inv)
  moreover have "names_short ?app" by (simp add: names_short_def chat_app_new_def)
  moreover have "candidates ?app = []" by (rule candidates_no_at) (simp add: chat_app_new_def)
  moreover have "session_lines ?app = [lit ''users'', lit ''  a'']" by (simp add: session_lines_def chat_app_new_def lit_Cons lit_Nil)
  ultimately obtain calls where "render same_ui ?app screen = Ok calls"
      "panel_lines ''Session'' calls = [[lit ''users'', lit ''  a'']]" "panel_lines ''Mention'' calls = []"
    using render_shows [OF same_ui_ok _ _ screen_roomy(1), of ?app] by auto
  then show ?thesis by blast
qed

text \<open>
  C31. The mention popup is computed without overflow: it lists the first five candidates with
  the selected one highlighted, is as high as its lines and border, and sits directly above the
  input with one row between when there is room. It does not reach past the right edge of the
  frame. Nothing clips its height: it is within the frame exactly when the frame has as many rows
  as it, at most seven; in a lower terminal its area, and the \<^verbatim>\<open>Clear\<close> drawn there, leave the frame.
\<close>

theorem mention_popup_fits:
  assumes "names_short app" and "candidates app \<noteq> []"
  shows "\<exists>area ls. mention_popup app ia fa = Ok (Some (area, ls)) \<and> length ls = min (length (candidates app)) 5 \<and>
    rect_x area = rect_x ia \<and> unat (rect_height area) = length ls + 2 \<and>
    (length ls + 3 \<le> unat (rect_y ia) \<longrightarrow> unat (rect_y area) + unat (rect_height area) + 1 = unat (rect_y ia)) \<and>
    (unat (rect_x ia) \<le> unat (rect_width fa) \<longrightarrow> unat (rect_x area) + unat (rect_width area) \<le> unat (rect_width fa)) \<and>
    (rect_x fa = 0 \<and> rect_y fa = 0 \<and> inside ia fa \<longrightarrow> (inside area fa \<longleftrightarrow> length ls + 2 \<le> unat (rect_height fa))) \<and>
    (\<forall>i<length ls. ls ! i = Spans [styled (lit ''@'' @ candidates app ! i)
       (if i = ca_mention_selection app then mention_selected_style else mention_plain_style)])"
proof -
  note popup = mention_popup_Ok [OF assms]
  have "unat (min w v :: u16) \<le> unat v" for w v by (simp add: min_def word_le_nat_alt)
  then have w: "unat (min w (sat_sub (rect_width fa) (rect_x ia))) \<le> unat (rect_width fa) - unat (rect_x ia)" for w
    by (metis unat_sat_sub)
  then have right: "unat (rect_x ia) + unat (min w (sat_sub (rect_width fa) (rect_x ia))) \<le> unat (rect_width fa)"
    if "unat (rect_x ia) \<le> unat (rect_width fa)" for w using that by (metis add.commute le_diff_conv2)
  obtain area ls where p: "mention_popup app ia fa = Ok (Some (area, ls))" and a: "rect_x area = rect_x ia"
      "unat (rect_height area) = length ls + 2" "rect_y area = sat_sub (rect_y ia) (rect_height area + 1)"
      "unat (rect_height area + 1) = length ls + 3"
      "rect_width area = min (popup_width (map (\<lambda>c. of_nat (str_len c) + 3) (candidates app))) (sat_sub (rect_width fa) (rect_x ia))"
    and l: "ls = popup_lines (ca_mention_selection app) (candidates app)"
    using popup by simp
  have "unat (rect_y area) = unat (rect_y ia) - (length ls + 3)" by (simp only: a unat_sat_sub)
  then have "length ls + 3 \<le> unat (rect_y ia) \<longrightarrow> unat (rect_y area) + unat (rect_height area) + 1 = unat (rect_y ia)"
    unfolding a(2) by linarith
  moreover have "unat (rect_x ia) \<le> unat (rect_width fa) \<longrightarrow> unat (rect_x area) + unat (rect_width area) \<le> unat (rect_width fa)"
    unfolding a(1,5) using right by blast
  moreover have "rect_x fa = 0 \<and> rect_y fa = 0 \<and> inside ia fa \<longrightarrow> (inside area fa \<longleftrightarrow> length ls + 2 \<le> unat (rect_height fa))"
    using mention_popup_inside [OF assms _ _ _ p] by blast
  ultimately show ?thesis
    using p a(1,2) by (intro exI [of _ area] exI [of _ ls]) (simp add: l nth_popup_lines)
qed

theorem mention_popup_fits_witness:
  "\<exists>area ls. mention_popup ((chat_app_new [] [])\<lparr>ca_input := [0x40], ca_connected_users := [[0x61], [0x62]]\<rparr>)
     \<lparr>rect_x = 0, rect_y = 19, rect_width = 80, rect_height = 3\<rparr> screen = Ok (Some (area, ls)) \<and> inside area screen \<and>
     unat (rect_y area) + unat (rect_height area) + 1 = 19 \<and> length ls = 2"
proof -
  let ?app = "(chat_app_new [] [])\<lparr>ca_input := [0x40], ca_connected_users := [[0x61], [0x62]]\<rparr>"
  have "typed_mention (ca_input ?app) [] []" by (simp add: typed_mention_def)
  from candidates_typed [OF this] have "candidates ?app = [[0x61], [0x62]]"
    by (simp add: starts_with_ignoring_case_def to_ascii_lowercase_def)
  moreover have "names_short ?app" by (simp add: names_short_def len_utf8_def)
  ultimately show ?thesis
    using mention_popup_fits [of ?app "\<lparr>rect_x = 0, rect_y = 19, rect_width = 80, rect_height = 3\<rparr>" "screen"]
    by (auto simp: screen_roomy inside_def)
qed

text \<open>
  C39. The popup does not follow the selection: once the selection is past the fifth candidate,
  which the arrow keys allow, no line of the popup is highlighted, although Tab would insert the
  selected name.
\<close>

theorem popup_hides_selection:
  assumes "names_short app" and "selection_ok app" and "5 \<le> ca_mention_selection app" and "candidates app \<noteq> []"
  shows "\<exists>area ls. mention_popup app ia fa = Ok (Some (area, ls)) \<and>
    list_all (\<lambda>l. \<forall>t. l \<noteq> Spans [styled t mention_selected_style]) ls \<and>
    (\<exists>app' a. apply_selected_mention app = (Ok (), app') \<and>
       ca_input app' = a @ [0x40] @ candidates app ! ca_mention_selection app @ [0x20])"
proof -
  have ne: "mention_plain_style \<noteq> mention_selected_style" by (simp add: mention_plain_style_def mention_selected_style_def)
  have "l \<in> set (popup_lines (ca_mention_selection app) (candidates app)) \<Longrightarrow> l \<noteq> Spans [styled t mention_selected_style]" for l t
    using assms(3) ne by (auto simp: in_set_conv_nth nth_popup_lines)
  moreover from assms(4) obtain a q where t: "typed_mention (ca_input app) a q" using candidates_nonempty by blast
  then have at: "ca_input app = a @ 0x40 # q" "0x40 \<notin> set q" by (auto simp: typed_mention_def)
  moreover have "ca_mention_selection app < length (candidates app)" using assms(2,4) by (simp add: selection_ok_def)
  then have "apply_selected_mention app =
      (Ok (), app\<lparr>ca_input := a @ [0x40] @ candidates app ! ca_mention_selection app @ [0x20], ca_mention_selection := 0\<rparr>)"
    using assms(4) active_mention_query_at [OF at] by (simp add: apply_selected_mention_def Let_def)
  ultimately show ?thesis
    unfolding mention_popup_Ok(1) [OF assms(1,4)] by (auto simp: list_all_iff)
qed

definition six_users :: chat_app where
  "six_users = (chat_app_new [] [])\<lparr>ca_input := [0x40], ca_connected_users := [[0x61], [0x62], [0x63], [0x64], [0x65], [0x66]]\<rparr>"

theorem popup_hides_selection_witness:
  "\<exists>app. (\<lambda>app. snd (select_next_mention app)) (snd (select_next_mention (snd (select_next_mention (snd (select_next_mention
       (snd (select_next_mention six_users)))))))) = app \<and>
     (\<exists>area ls. mention_popup app \<lparr>rect_x = 0, rect_y = 19, rect_width = 80, rect_height = 3\<rparr> screen = Ok (Some (area, ls)) \<and>
       list_all (\<lambda>l. \<forall>t. l \<noteq> Spans [styled t mention_selected_style]) ls)"
proof -
  have c: "candidates (six_users\<lparr>ca_mention_selection := i\<rparr>) = [[0x61], [0x62], [0x63], [0x64], [0x65], [0x66]]" for i
  proof -
    have "typed_mention (ca_input (six_users\<lparr>ca_mention_selection := i\<rparr>)) [] []" by (simp add: typed_mention_def six_users_def)
    from candidates_typed [OF this] show ?thesis
      by (simp add: starts_with_ignoring_case_def to_ascii_lowercase_def six_users_def)
  qed
  have n: "snd (select_next_mention (six_users\<lparr>ca_mention_selection := i\<rparr>)) = six_users\<lparr>ca_mention_selection := (i + 1) mod 6\<rparr>" for i
    by (simp add: select_next_mention_def c)
  have z: "six_users = six_users\<lparr>ca_mention_selection := 0\<rparr>" by (simp add: six_users_def chat_app_new_def)
  let ?app = "six_users\<lparr>ca_mention_selection := 5\<rparr>"
  have "names_short ?app" "selection_ok ?app" by (simp_all add: names_short_def len_utf8_def selection_ok_def c) (simp add: six_users_def len_utf8_def)
  from popup_hides_selection [OF this] have "\<exists>area ls. mention_popup ?app \<lparr>rect_x = 0, rect_y = 19, rect_width = 80, rect_height = 3\<rparr>
      screen = Ok (Some (area, ls)) \<and>
      list_all (\<lambda>l. \<forall>t. l \<noteq> Spans [styled t mention_selected_style]) ls"
    by (fastforce simp: c)
  then show ?thesis by (subst (1) z) (simp add: n)
qed

end
