(* ===== verification/Client_Network.thy ===== *)
theory Client_Network
  imports Protocol_Text
begin

section \<open>The client's connection\<close>

text \<open>
  Model of \<^verbatim>\<open>crates/client/src/network.rs\<close>: connecting and sending the handshake, sending a chat
  message, and the reader thread that turns frames into events for the user interface. The
  socket is a parameter (\<open>sock_ops\<close>), and so is the \<^verbatim>\<open>Debug\<close> text of a frame error. The reader
  thread's \<^verbatim>\<open>tx.send\<close> blocks when the channel is full and its result is ignored, so the thread
  is the list of the events it sends; it runs for as many frames as the fuel says.
\<close>

datatype network_event = Message ustr | UserList "ustr list" | Disconnected ustr

record ('s, 'r) sock_ops =
  tcp_connect :: "ustr \<Rightarrow> ('s, error_kind) result"
  try_clone :: "'s \<Rightarrow> ('r, error_kind) result"
  write_all :: "'s \<Rightarrow> bytes \<Rightarrow> (unit, error_kind) result \<times> 's"

record 's client_connection =
  cc_stream :: 's
  cc_server_addr :: ustr
  cc_username :: ustr

text \<open>\<^verbatim>\<open>connect\<close>; the reader handed to the reader thread is the second component.\<close>

definition connect :: "('s, 'r) sock_ops \<Rightarrow> ustr \<Rightarrow> ustr \<Rightarrow> ('s client_connection \<times> 'r, error_kind) result" where
  "connect so username connect_addr =
     (case tcp_connect so connect_addr of
        Panic \<Rightarrow> Panic
      | Err e \<Rightarrow> Err e
      | Ok stream \<Rightarrow>
          (case try_clone so stream of
             Panic \<Rightarrow> Panic
           | Err e \<Rightarrow> Err e
           | Ok reader_stream \<Rightarrow>
               (case encode_frame Handshake (as_bytes username) of
                  Panic \<Rightarrow> Panic
                | Err _ \<Rightarrow> Err InvalidInput
                | Ok handshake \<Rightarrow>
                    (case write_all so stream handshake of
                       (Panic, _) \<Rightarrow> Panic
                     | (Err e, _) \<Rightarrow> Err e
                     | (Ok _, stream) \<Rightarrow>
                         Ok (\<lparr>cc_stream = stream, cc_server_addr = connect_addr, cc_username = username\<rparr>,
                             reader_stream)))))"

definition encode_chat_frame :: "ustr \<Rightarrow> (bytes, error_kind) result" where
  "encode_chat_frame content =
     (if str_len content > MAX_CHAT_MESSAGE_BYTES then Err InvalidInput
      else
        (case encode_frame Chat (as_bytes content) of
           Ok bs \<Rightarrow> Ok bs
         | Err _ \<Rightarrow> Err InvalidInput
         | Panic \<Rightarrow> Panic))"

definition send_message ::
  "('s, 'r) sock_ops \<Rightarrow> 's client_connection \<Rightarrow> ustr \<Rightarrow> (unit, error_kind) result \<times> 's client_connection"
where
  "send_message so conn content =
     (case encode_chat_frame content of
        Err e \<Rightarrow> (Err e, conn)
      | Panic \<Rightarrow> (Panic, conn)
      | Ok frame \<Rightarrow>
          (case write_all so (cc_stream conn) frame of (r, stream) \<Rightarrow> (r, conn\<lparr>cc_stream := stream\<rparr>)))"

definition is_disconnect_error :: "error_kind \<Rightarrow> bool" where
  "is_disconnect_error k \<longleftrightarrow> k = BrokenPipe \<or> k = ConnectionAborted \<or> k = ConnectionReset"

subsection \<open>The reader thread\<close>

definition process_frame :: "frame \<Rightarrow> bool \<times> network_event list" where
  "process_frame f =
     (case kind f of
        Chat \<Rightarrow>
          (case from_utf8 (payload f) of
             None \<Rightarrow> (False, [Disconnected (lit ''server sent invalid UTF-8 chat payload'')])
           | Some content \<Rightarrow> (True, if trim content \<noteq> [] then [Message content] else []))
      | Presence \<Rightarrow>
          (case parse_presence (payload f) of
             None \<Rightarrow> (False, [Disconnected (lit ''server sent an invalid presence payload'')])
           | Some users \<Rightarrow> (True, [UserList users]))
      | Handshake \<Rightarrow> (False, [Disconnected (lit ''server sent an unexpected handshake frame'')]))"

datatype thread_status = Running | Finished | Panicked

fun reader_loop ::
  "(frame_error \<Rightarrow> ustr) \<Rightarrow> 'r read_ops \<Rightarrow> nat \<Rightarrow> 'r \<Rightarrow> network_event list \<times> thread_status"
where
  "reader_loop debug rd 0 r = ([], Running)"
| "reader_loop debug rd (Suc n) r =
     (case read_frame rd r of
        (Panic, r) \<Rightarrow> ([], Panicked)
      | (Ok None, r) \<Rightarrow> ([Disconnected (lit ''server disconnected'')], Finished)
      | (Err e, r) \<Rightarrow> ([Disconnected (lit ''connection error: '' @ debug e)], Finished)
      | (Ok (Some f), r) \<Rightarrow>
          (case process_frame f of
             (True, events) \<Rightarrow> (case reader_loop debug rd n r of (events', status) \<Rightarrow> (events @ events', status))
           | (False, events) \<Rightarrow> (events, Finished)))"

fun is_disconnected :: "network_event \<Rightarrow> bool" where
  "is_disconnected (Disconnected _) = True"
| "is_disconnected _ = False"

lemma process_frame_cases:
  "(\<exists>es. process_frame f = (True, es) \<and> list_all (\<lambda>e. \<not> is_disconnected e) es \<and> length es \<le> 1) \<or>
   (\<exists>reason. process_frame f = (False, [Disconnected reason]))"
  by (auto simp: process_frame_def split: frame_type.splits option.splits)

text \<open>The events of a list of frames, up to and including the first bad one.\<close>

fun frame_events :: "frame list \<Rightarrow> network_event list \<times> bool" where
  "frame_events [] = ([], True)"
| "frame_events (f # fs) =
     (case process_frame f of
        (True, es) \<Rightarrow> (case frame_events fs of (es', ok) \<Rightarrow> (es @ es', ok))
      | (False, es) \<Rightarrow> (es, False))"

text \<open>The frame the server sends for a line or for a list of names.\<close>

definition shown_as :: "frame \<Rightarrow> network_event \<Rightarrow> bool" where
  "shown_as f e \<longleftrightarrow> wf_frame f \<and>
     (case e of
        Message l \<Rightarrow> f = \<lparr>version = CURRENT_PROTOCOL_VERSION, kind = Chat, payload = as_bytes l\<rparr> \<and> valid_str l \<and> trim l \<noteq> []
      | UserList us \<Rightarrow> f = \<lparr>version = CURRENT_PROTOCOL_VERSION, kind = Presence, payload = presence_payload us\<rparr> \<and>
          length us \<le> 65535 \<and> list_all presence_user us
      | Disconnected _ \<Rightarrow> False)"

context byte_reader
begin

lemma reader_loop_ends:
  "live r \<Longrightarrow> length (avail r) < n \<Longrightarrow>
   \<exists>es reason. reader_loop debug ops n r = (es @ [Disconnected reason], Finished) \<and>
     list_all (\<lambda>e. \<not> is_disconnected e) es"
proof (induction n arbitrary: r)
  case (Suc n)
  from read_frame_refines [OF Suc.prems(1)] obtain r1 where r1: "live r1"
    "case decode_frame (avail r) of
       Ok (fo, rest) \<Rightarrow> read_frame ops r = (Ok fo, r1) \<and> avail r1 = rest
     | Err e \<Rightarrow> read_frame ops r = (Err e, r1)
     | Panic \<Rightarrow> False" by blast
  show ?case
  proof (cases "decode_frame (avail r)")
    case (Ok p)
    obtain fo rest where p: "p = (fo, rest)" by (cases p)
    show ?thesis
    proof (cases fo)
      case None
      with Ok p r1(2) show ?thesis by auto
    next
      case (Some f)
      with Ok p r1(2) have rd: "read_frame ops r = (Ok (Some f), r1)" "avail r1 = rest" by auto
      have "wf_frame f" "avail r = frame_bytes f @ rest" using decode_frame_canonical Ok p Some by auto
      then have "length rest < length (avail r)" using frame_bytes_nonempty by auto
      with rd(2) Suc.prems(2) have "length (avail r1) < n" by simp
      from Suc.IH [OF r1(1) this] obtain es reason where
        "reader_loop debug ops n r1 = (es @ [Disconnected reason], Finished)" "list_all (\<lambda>e. \<not> is_disconnected e) es" by blast
      with rd(1) process_frame_cases [of f] show ?thesis by (auto intro: exI [of _ "[]"])
    qed
  qed (use r1 in \<open>auto intro: exI [of _ "[]"]\<close>)
qed simp

lemma reader_loop_stream:
  "live r \<Longrightarrow> list_all wf_frame fs \<Longrightarrow> avail r = concat (map frame_bytes fs) \<Longrightarrow> length fs < n \<Longrightarrow>
   reader_loop debug ops n r =
     (fst (frame_events fs) @ (if snd (frame_events fs) then [Disconnected (lit ''server disconnected'')] else []), Finished)"
proof (induction fs arbitrary: r n)
  case Nil
  then obtain m where "n = Suc m" by (cases n) auto
  with Nil sync.dec_eof [of r] show ?case by auto
next
  case (Cons f fs)
  then obtain m where n: "n = Suc m" "length fs < m" by (cases n) auto
  from Cons.prems have "avail r = frame_bytes f @ concat (map frame_bytes fs)" by simp
  from sync.dec_frame [OF Cons.prems(1) _ this] Cons.prems(2) obtain r' where
    r': "read_frame ops r = (Ok (Some f), r')" "live r'" "avail r' = concat (map frame_bytes fs)" by auto
  with Cons.IH [OF r'(2) _ r'(3) n(2)] Cons.prems(2) show ?case
    by (auto simp: n split: prod.splits bool.splits)
qed

end

subsection \<open>Properties\<close>

text \<open>
  The reader thread always ends by telling the user interface why: on any bytes the server
  may send it sends messages and user lists and then, as its last event and only once, that the
  connection is over. It does not panic.
\<close>

lemma reader_reports_end:
  assumes "byte_reader rd avail live" and "live r" and "length (avail r) < n"
  shows "\<exists>es reason. reader_loop debug rd n r = (es @ [Disconnected reason], Finished) \<and>
    list_all (\<lambda>e. \<not> is_disconnected e) es"
  using assms by (rule byte_reader.reader_loop_ends)

text \<open>
  Every chat line and presence list that the server encodes reaches the user interface: on a
  stream of such frames the events are the lines and the name lists, in order, followed by the
  end of the connection.
\<close>

lemma reader_delivers:
  assumes "byte_reader rd avail live" and "live r"
    and "avail r = concat (map frame_bytes fs)" and "length fs < n"
    and "list_all2 shown_as fs es"
  shows "reader_loop debug rd n r = (es @ [Disconnected (lit ''server disconnected'')], Finished)"
proof -
  have "list_all wf_frame fs \<and> frame_events fs = (es, True)"
    using assms(5)
  proof (induction fs es rule: list_all2_induct)
    case (Cons f fs e es)
    then have "process_frame f = (True, [e])" "wf_frame f"
      by (auto simp: shown_as_def process_frame_def from_utf8_as_bytes parse_presence_payload split: network_event.splits)
    with Cons show ?case by auto
  qed simp
  then show ?thesis using byte_reader.reader_loop_stream [OF assms(1,2) _ assms(3,4)] by simp
qed

end
