(* ===== verification/Client_Tui.thy ===== *)
theory Client_Tui
  imports Client_View Client_Network
begin

section \<open>The client's event loop\<close>

text \<open>
  Model of \<^verbatim>\<open>crates/tui/src/lib.rs\<close>: the main loop drains the events of the reader thread, draws,
  polls the terminal and handles a key. One pass of the loop is a \<open>frame_turn\<close>: the events that
  were waiting, the results of drawing and polling. The \<^verbatim>\<open>Display\<close> text of an I/O error is a
  parameter. An error returned by a key handler leaves the loop, as the \<^verbatim>\<open>?\<close> does.
\<close>

datatype key_code = KeyChar uchar | KeyEsc | KeyUp | KeyDown | KeyTab | KeyEnter | KeyBackspace | KeyOther nat

record key_event =
  code :: key_code
  ctrl :: bool

datatype terminal_event = KeyPress key_event | KeyNotPress key_event | Resize | OtherEvent

definition drain_event :: "network_event \<Rightarrow> chat_app \<Rightarrow> (unit, unit) result \<times> chat_app" where
  "drain_event e app =
     (case e of
        Message message \<Rightarrow> (Ok (), receive_message message app)
      | UserList users \<Rightarrow> update_connected_users users app
      | Disconnected reason \<Rightarrow> (Ok (), begin_shutdown reason app))"

fun drain_network_events :: "network_event list \<Rightarrow> chat_app \<Rightarrow> (unit, unit) result \<times> chat_app" where
  "drain_network_events [] app = (Ok (), app)"
| "drain_network_events (e # es) app = seq (drain_event e app) (\<lambda>_ app. drain_network_events es app)"

type_synonym 's client_state = "chat_app \<times> 's client_connection"

definition submit_input ::
  "('s, 'r) sock_ops \<Rightarrow> (error_kind \<Rightarrow> ustr) \<Rightarrow> 's client_state \<Rightarrow> (unit, error_kind) result \<times> 's client_state"
where
  "submit_input so show_io st =
     (let (app, conn) = st; (content, app) = take_input app in
      if content = [] then (Ok (), app, conn)
      else if \<not> ca_connected app then
        (Ok (), push_message (lit ''[system] message not sent because the client is offline'') Confirmed app, conn)
      else
        (case send_message so conn content of
           (Ok _, conn) \<Rightarrow> (Ok (), app, conn)
         | (Panic, conn) \<Rightarrow> (Panic, app, conn)
         | (Err error, conn) \<Rightarrow>
             if is_disconnect_error error then
               (Ok (), begin_shutdown (lit ''server unavailable: '' @ show_io error) app, conn)
             else (Err error, mark_offline (lit ''failed to send message: '' @ show_io error) app, conn)))"

text \<open>An operation of the app, inside the handler.\<close>

fun on_app :: "(unit, unit) result \<times> chat_app \<Rightarrow> 's client_connection \<Rightarrow> (unit, error_kind) result \<times> 's client_state" where
  "on_app (Ok _, app) conn = (Ok (), app, conn)"
| "on_app (Err _, app) conn = (Ok (), app, conn)"
| "on_app (Panic, app) conn = (Panic, app, conn)"

definition handle_key_event ::
  "('s, 'r) sock_ops \<Rightarrow> (error_kind \<Rightarrow> ustr) \<Rightarrow> key_event \<Rightarrow> 's client_state \<Rightarrow> (unit, error_kind) result \<times> 's client_state"
where
  "handle_key_event so show_io key st =
     (let (app, conn) = st in
      if has_exit_notice app then
        (Ok (), (if code key = KeyEnter then app\<lparr>ca_should_quit := True\<rparr> else app), conn)
      else
        (case code key of
           KeyChar c \<Rightarrow>
             if c = 0x71 \<and> ctrl key then (Ok (), app\<lparr>ca_should_quit := True\<rparr>, conn)
             else if \<not> ctrl key then (Ok (), append_input c app, conn)
             else (Ok (), app, conn)
         | KeyEsc \<Rightarrow> (Ok (), app\<lparr>ca_should_quit := True\<rparr>, conn)
         | KeyUp \<Rightarrow> on_app (select_previous_mention app) conn
         | KeyDown \<Rightarrow> on_app (select_next_mention app) conn
         | KeyTab \<Rightarrow> on_app (apply_selected_mention app) conn
         | KeyEnter \<Rightarrow> submit_input so show_io (app, conn)
         | KeyBackspace \<Rightarrow> (Ok (), pop_input app, conn)
         | KeyOther _ \<Rightarrow> (Ok (), app, conn)))"

text \<open>
  What the terminal does in one pass: \<^verbatim>\<open>draw\<close> prepares the frame, calls \<^verbatim>\<open>render\<close> on its area and
  flushes it, \<^verbatim>\<open>poll\<close> answers whether there is an event and \<^verbatim>\<open>read\<close> which.
\<close>

record frame_turn =
  waiting :: "network_event list"
  frame_area :: rect
  prepared :: "(unit, error_kind) result"
  flushed :: "(unit, error_kind) result"
  polled :: "(bool, error_kind) result"
  event_read :: "(terminal_event, error_kind) result"

definition handle_terminal_event ::
  "('s, 'r) sock_ops \<Rightarrow> (error_kind \<Rightarrow> ustr) \<Rightarrow> frame_turn \<Rightarrow> 's client_state \<Rightarrow> (unit, error_kind) result \<times> 's client_state"
where
  "handle_terminal_event so show_io t st =
     seq (polled t, st) (\<lambda>ready st.
       if \<not> ready then (Ok (), st)
       else seq (event_read t, st) (\<lambda>e st.
         case e of
           KeyPress key \<Rightarrow> handle_key_event so show_io key st
         | Resize \<Rightarrow> (Ok (), st)
         | _ \<Rightarrow> (Ok (), st)))"

definition draw_frame :: "ui \<Rightarrow> frame_turn \<Rightarrow> chat_app \<Rightarrow> (draw_call list, error_kind) result" where
  "draw_frame ui t app =
     (case prepared t of
        Panic \<Rightarrow> Panic
      | Err e \<Rightarrow> Err e
      | Ok _ \<Rightarrow>
          (case render ui app (frame_area t) of
             Ok calls \<Rightarrow> (case flushed t of Ok _ \<Rightarrow> Ok calls | Err e \<Rightarrow> Err e | Panic \<Rightarrow> Panic)
           | _ \<Rightarrow> Panic))"

text \<open>
  The \<^verbatim>\<open>while !app.should_quit\<close> loop; \<open>None\<close> when it is still running after the given turns. The
  second component is the frames the user has seen.
\<close>

fun client_run ::
  "ui \<Rightarrow> ('s, 'r) sock_ops \<Rightarrow> (error_kind \<Rightarrow> ustr) \<Rightarrow> frame_turn list \<Rightarrow> 's client_state \<Rightarrow>
   ((unit, error_kind) result option \<times> 's client_state) \<times> draw_call list list"
where
  "client_run ui so show_io [] st = ((if ca_should_quit (fst st) then Some (Ok ()) else None, st), [])"
| "client_run ui so show_io (t # ts) st =
     (if ca_should_quit (fst st) then ((Some (Ok ()), st), [])
      else
        (case drain_network_events (waiting t) (fst st) of
           (Panic, app) \<Rightarrow> ((Some Panic, app, snd st), [])
         | (_, app) \<Rightarrow>
             (case draw_frame ui t app of
                Panic \<Rightarrow> ((Some Panic, app, snd st), [])
              | Err e \<Rightarrow> ((Some (Err e), app, snd st), [])
              | Ok calls \<Rightarrow>
                  (case handle_terminal_event so show_io t (app, snd st) of
                     (Ok _, st) \<Rightarrow> (case client_run ui so show_io ts st of (outcome, frames) \<Rightarrow> (outcome, calls # frames))
                   | (r, st) \<Rightarrow> ((Some r, st), [calls])))))"

definition client_loop ::
  "ui \<Rightarrow> ('s, 'r) sock_ops \<Rightarrow> (error_kind \<Rightarrow> ustr) \<Rightarrow> frame_turn list \<Rightarrow> 's client_state \<Rightarrow> (unit, error_kind) result option \<times> 's client_state"
where
  "client_loop ui so show_io ts st = fst (client_run ui so show_io ts st)"

lemma client_loop_simps [simp]:
  "client_loop ui so show_io [] st = (if ca_should_quit (fst st) then (Some (Ok ()), st) else (None, st))"
  "client_loop ui so show_io (t # ts) st =
     (if ca_should_quit (fst st) then (Some (Ok ()), st)
      else
        (case drain_network_events (waiting t) (fst st) of
           (Panic, app) \<Rightarrow> (Some Panic, app, snd st)
         | (_, app) \<Rightarrow>
             (case draw_frame ui t app of
                Panic \<Rightarrow> (Some Panic, app, snd st)
              | Err e \<Rightarrow> (Some (Err e), app, snd st)
              | Ok _ \<Rightarrow>
                  (case handle_terminal_event so show_io t (app, snd st) of
                     (Ok _, st) \<Rightarrow> client_loop ui so show_io ts st
                   | (r, st) \<Rightarrow> (Some r, st)))))"
  by (simp_all add: client_loop_def split: prod.split result.split)

definition run_client ::
  "ui \<Rightarrow> ('s, 'r) sock_ops \<Rightarrow> (error_kind \<Rightarrow> ustr) \<Rightarrow> frame_turn list \<Rightarrow> ustr \<Rightarrow> ustr \<Rightarrow> (unit, error_kind) result option"
where
  "run_client ui so show_io ts username connect_addr =
     (if trim username = [] then Some (Err InvalidInput)
      else
        (case connect so username connect_addr of
           Panic \<Rightarrow> Some Panic
         | Err e \<Rightarrow> Some (Err e)
         | Ok (connection, rx) \<Rightarrow>
             fst (client_loop ui so show_io ts (chat_app_new username connect_addr, connection))))"

subsection \<open>The invariant along the loop\<close>

definition no_write_panic :: "('s, 'r) sock_ops \<Rightarrow> bool" where
  "no_write_panic so \<longleftrightarrow> (\<forall>s bs. fst (write_all so s bs) \<noteq> Panic)"

lemma encode_chat_frame_no_panic: "encode_chat_frame c \<noteq> Panic"
  by (auto simp: encode_chat_frame_def split: result.splits)

lemma send_message_no_panic: "no_write_panic so \<Longrightarrow> fst (send_message so conn c) \<noteq> Panic"
  using encode_chat_frame_no_panic [of c]
  by (auto simp: send_message_def no_write_panic_def split: result.splits prod.splits) (metis fst_conv)

lemma drain_event_inv:
  assumes "app_inv app"
  shows "\<exists>app'. drain_event e app = (Ok (), app') \<and> app_inv app'"
  using app_steps_inv [OF assms] app_mention_steps_inv(1) [OF assms]
  by (auto simp: drain_event_def split: network_event.splits)

lemma drain_network_events_inv: "app_inv app \<Longrightarrow> \<exists>app'. drain_network_events es app = (Ok (), app') \<and> app_inv app'"
proof (induction es arbitrary: app)
  case (Cons e es)
  from drain_event_inv [OF Cons.prems, of e] obtain app1 where "drain_event e app = (Ok (), app1)" "app_inv app1" by blast
  with Cons.IH [of app1] show ?case by simp
qed simp

lemma submit_input_inv:
  assumes "app_inv app" "no_write_panic so"
  shows "fst (submit_input so show_io (app, conn)) \<noteq> Panic \<and> app_inv (fst (snd (submit_input so show_io (app, conn))))"
proof -
  obtain c app1 where t: "take_input app = (c, app1)" by (cases "take_input app")
  have i: "app_inv app1" using app_steps_inv(6) [OF assms(1)] t by simp
  obtain r conn1 where s: "send_message so conn c = (r, conn1)" by fastforce
  have "r \<noteq> Panic" using send_message_no_panic [OF assms(2), of conn c] s by simp
  with i t s push_message_inv [OF i] app_steps_inv(2,3) [OF i] show ?thesis
    by (cases r) (auto simp: submit_input_def)
qed

lemma on_app_inv: "(\<exists>app'. r = (Ok (), app') \<and> app_inv app') \<Longrightarrow> fst (on_app r conn) \<noteq> Panic \<and> app_inv (fst (snd (on_app r conn)))"
  by auto

lemma handle_key_event_inv:
  assumes "app_inv app" "no_write_panic so"
  shows "fst (handle_key_event so show_io key (app, conn)) \<noteq> Panic \<and>
    app_inv (fst (snd (handle_key_event so show_io key (app, conn))))"
proof -
  note m = app_mention_steps_inv [OF assms(1)]
  note on_app = on_app_inv [OF m(2), of conn] on_app_inv [OF m(3), of conn] on_app_inv [OF m(4), of conn]
  show ?thesis
    using assms(1) app_steps_inv(4,5) [OF assms(1)] on_app submit_input_inv [OF assms, of show_io conn]
    by (cases "code key") (simp_all add: handle_key_event_def app_inv_update)
qed

lemma handle_terminal_event_inv:
  assumes "app_inv app" "no_write_panic so" "polled t \<noteq> Panic" "event_read t \<noteq> Panic"
  shows "fst (handle_terminal_event so show_io t (app, conn)) \<noteq> Panic \<and>
    app_inv (fst (snd (handle_terminal_event so show_io t (app, conn))))"
proof -
  have key: "fst (handle_key_event so show_io key (app, conn)) \<noteq> Panic \<and>
    app_inv (fst (snd (handle_key_event so show_io key (app, conn))))" for key
    using assms(1,2) by (rule handle_key_event_inv)
  show ?thesis
    using assms key by (cases "polled t"; cases "event_read t") (auto simp: handle_terminal_event_def split: terminal_event.splits)
qed

text \<open>The terminal does not panic and has the seven rows of the popup, and the name lists are short
  enough for the popup's arithmetic; the reader thread sends no others.\<close>

definition event_ok :: "network_event \<Rightarrow> bool" where
  "event_ok e = (case e of UserList us \<Rightarrow> list_all (\<lambda>u. str_len u \<le> 65532) us | _ \<Rightarrow> True)"

definition frame_turn_ok :: "frame_turn \<Rightarrow> bool" where
  "frame_turn_ok t \<longleftrightarrow> prepared t \<noteq> Panic \<and> flushed t \<noteq> Panic \<and> polled t \<noteq> Panic \<and> event_read t \<noteq> Panic \<and>
     roomy (frame_area t) \<and> list_all event_ok (waiting t)"

lemma names_short_cong: "ca_connected_users app' = ca_connected_users app \<Longrightarrow> names_short app' = names_short app"
  by (simp add: names_short_def)

lemma app_users [simp]:
  "ca_connected_users (begin_shutdown m app) = ca_connected_users app"
  "ca_connected_users (mark_offline m app) = ca_connected_users app"
  "ca_connected_users (append_input c app) = ca_connected_users app"
  "ca_connected_users (pop_input app) = ca_connected_users app"
  "ca_connected_users (snd (take_input app)) = ca_connected_users app"
  "ca_connected_users (snd (select_previous_mention app)) = ca_connected_users app"
  "ca_connected_users (snd (select_next_mention app)) = ca_connected_users app"
  "ca_connected_users (snd (apply_selected_mention app)) = ca_connected_users app"
  by (auto simp: begin_shutdown_def mark_offline_def append_input_def pop_input_def reset_mention_selection_def
      take_input_def select_previous_mention_def select_next_mention_def apply_selected_mention_def Let_def
      split: option.splits result.splits)

lemma update_users: "update_connected_users us app = (r, app') \<Longrightarrow> ca_connected_users app' = us"
  by (auto simp: update_connected_users_def Let_def split: if_splits)

lemma drain_names:
  "list_all event_ok es \<Longrightarrow> app_inv app \<Longrightarrow> names_short app \<Longrightarrow> names_short (snd (drain_network_events es app))"
proof (induction es arbitrary: app)
  case (Cons e es)
  obtain app1 where d: "drain_event e app = (Ok (), app1)" "app_inv app1" using drain_event_inv [OF Cons.prems(2)] by blast
  have "names_short app1"
    using d(1) Cons.prems receive_message_confirmed [OF Cons.prems(2)] update_users [of _ app "Ok ()" app1]
    by (auto simp: drain_event_def names_short_def event_ok_def split: network_event.splits)
  with Cons d show ?case by simp
qed simp

lemma on_app_users: "ca_connected_users (fst (snd (on_app r conn))) = ca_connected_users (snd r)"
  by (cases "(r, conn)" rule: on_app.cases) auto

lemma handle_key_event_users:
  "ca_connected_users (fst (snd (handle_key_event so show_io key (app, conn)))) = ca_connected_users app"
proof -
  have "ca_connected_users (fst (snd (submit_input so show_io (app, conn)))) = ca_connected_users app"
  proof -
    obtain c app1 where t: "take_input app = (c, app1)" by (cases "take_input app")
    then have "ca_connected_users app1 = ca_connected_users app" using app_users(5) [of app] by simp
    then show ?thesis by (auto simp: submit_input_def t split: prod.splits result.splits)
  qed
  then show ?thesis by (cases "code key") (simp_all add: handle_key_event_def on_app_users)
qed

lemma handle_terminal_event_users:
  "ca_connected_users (fst (snd (handle_terminal_event so show_io t (app, conn)))) = ca_connected_users app"
  by (cases "polled t"; cases "event_read t")
    (auto simp: handle_terminal_event_def handle_key_event_users split: terminal_event.splits)

lemma draw_frame_no_panic:
  assumes "ui_ok ui" and "frame_turn_ok t" and "names_short app"
  shows "draw_frame ui t app \<noteq> Panic"
proof -
  have "roomy (frame_area t)" using assms(2) by (simp add: frame_turn_ok_def)
  then obtain calls where "render ui app (frame_area t) = Ok calls" by (rule render_Ok [OF assms(1,3)])
  with assms(2) show ?thesis by (cases "prepared t"; cases "flushed t") (simp_all add: draw_frame_def frame_turn_ok_def)
qed

text \<open>A frame that was drawn shows the exit notice.\<close>

lemma draw_frame_notice:
  assumes "ui_ok ui" and "frame_turn_ok t" and "app_inv app" and "names_short app" and "draw_frame ui t app = Ok calls"
  shows "panel_lines ''Disconnected'' calls = (case ca_exit_notice app of None \<Rightarrow> [] | Some reason \<Rightarrow> [notice_lines reason])"
proof -
  have "roomy (frame_area t)" "length (ca_messages app) \<le> 65535"
    using assms(2,3) by (simp_all add: frame_turn_ok_def app_inv_def limits)
  then obtain calls' where c: "render ui app (frame_area t) = Ok calls'"
      "panel_lines ''Disconnected'' calls' = (case ca_exit_notice app of None \<Rightarrow> [] | Some reason \<Rightarrow> [notice_lines reason])"
    by (rule render_frame [OF assms(1,4)])
  then have "calls' = calls" using assms(5) by (simp add: draw_frame_def split: result.splits)
  with c(2) show ?thesis by simp
qed

lemma client_loop_inv:
  "ui_ok ui \<Longrightarrow> no_write_panic so \<Longrightarrow> list_all frame_turn_ok ts \<Longrightarrow> app_inv (fst st) \<Longrightarrow> names_short (fst st) \<Longrightarrow>
   fst (client_loop ui so show_io ts st) \<noteq> Some Panic \<and> app_inv (fst (snd (client_loop ui so show_io ts st)))"
proof (induction ts arbitrary: st)
  case (Cons t ts)
  note ok = Cons.prems
  obtain app1 where d: "drain_network_events (waiting t) (fst st) = (Ok (), app1)" "app_inv app1"
    using drain_network_events_inv [OF ok(4)] by blast
  have t: "frame_turn_ok t" "polled t \<noteq> Panic" "event_read t \<noteq> Panic" "list_all event_ok (waiting t)"
    using ok(3) by (simp_all add: frame_turn_ok_def)
  have n: "names_short app1" using drain_names [OF t(4) ok(4,5)] d(1) by simp
  note draw = draw_frame_no_panic [OF ok(1) t(1) n]
  obtain r st2 where h: "handle_terminal_event so show_io t (app1, snd st) = (r, st2)"
    by (cases "handle_terminal_event so show_io t (app1, snd st)")
  with handle_terminal_event_inv [OF d(2) ok(2) t(2,3), of show_io "snd st"] handle_terminal_event_users [of so show_io t app1 "snd st"]
  have r: "r \<noteq> Panic" "app_inv (fst st2)" "names_short (fst st2)" using n by (auto simp: names_short_def)
  show ?case
    using Cons.IH [OF ok(1,2) _ r(2,3)] ok draw d h r
    by (cases "draw_frame ui t app1"; cases r) auto
qed simp

subsection \<open>Properties\<close>

definition null_sock :: "(unit, unit) sock_ops" where
  "null_sock = \<lparr>tcp_connect = (\<lambda>_. Ok ()), try_clone = (\<lambda>_. Ok ()), write_all = (\<lambda>s bs. (Ok (), s))\<rparr>"

definition null_conn :: "unit client_connection" where
  "null_conn = \<lparr>cc_stream = (), cc_server_addr = [], cc_username = []\<rparr>"

definition key_turn :: "key_code \<Rightarrow> frame_turn" where
  "key_turn k = \<lparr>waiting = [UserList [[0x62]]], frame_area = screen,
     prepared = Ok (), flushed = Ok (), polled = Ok True, event_read = Ok (KeyPress \<lparr>code = k, ctrl = False\<rparr>)\<rparr>"

text \<open>
  Once the connection is lost the client only waits for Enter: with an exit notice no key
  changes anything or sends anything, except that Enter quits, and the loop then ends.
\<close>

lemma exit_notice_waits:
  assumes "has_exit_notice app"
  shows "handle_key_event so show_io key (app, conn) =
      (Ok (), (if code key = KeyEnter then app\<lparr>ca_should_quit := True\<rparr> else app), conn) \<and>
    client_loop ui so show_io ts (app\<lparr>ca_should_quit := True\<rparr>, conn) = (Some (Ok ()), app\<lparr>ca_should_quit := True\<rparr>, conn)"
  using assms by (cases ts) (simp_all add: handle_key_event_def)

text \<open>The messages after one more is shown: the last 300.\<close>

definition shown_after :: "chat_app \<Rightarrow> string \<Rightarrow> ustr \<Rightarrow> chat_message list" where
  "shown_after app notice reason =
     (let ms = ca_messages app @ [\<lparr>cm_text = lit notice @ reason, cm_state = Confirmed\<rparr>] in drop (length ms - 300) ms)"

lemma push_shown_after: "ca_messages (push_message (lit n @ reason) Confirmed app) = shown_after app n reason"
  by (simp add: push_message_messages shown_after_def limits)

lemma lit_append: "lit s @ lit t = lit (s @ t)"
  by (induction s) (simp_all add: lit_Cons lit_Nil)

lemma send_message_short:
  assumes "str_len c \<le> MAX_CHAT_MESSAGE_BYTES"
  shows "send_message so conn c =
    (case write_all so (cc_stream conn) (frame_bytes \<lparr>version = CURRENT_PROTOCOL_VERSION, kind = Chat, payload = as_bytes c\<rparr>) of
       (r, stream) \<Rightarrow> (r, conn\<lparr>cc_stream := stream\<rparr>))"
proof -
  obtain bs where "encode_frame Chat (as_bytes c) = Ok bs"
    using encode_frame_Ok_iff [of Chat "as_bytes c"] assms by (auto simp: limits)
  then show ?thesis using assms by (simp add: send_message_def encode_chat_frame_def frame_bytes_def)
qed

text \<open>
  C30. What Enter does. With an exit notice it only quits. Otherwise the input line is taken and
  is empty afterwards: blank input is dropped; an offline client is told that nothing was sent;
  over 4096 bytes nothing is sent, the client goes offline and the error is returned; otherwise
  one chat frame of exactly the trimmed input is written. If the write says that the connection is
  lost the shutdown starts with its reason, and every other error marks the client offline, is
  shown, and is returned.
\<close>

theorem submit_input_result:
  assumes "app_inv app" and "code key = KeyEnter"
  shows "\<exists>r app' conn'. handle_key_event so show_io key (app, conn) = (r, app', conn') \<and>
    (if has_exit_notice app then r = Ok () \<and> conn' = conn \<and> app' = app\<lparr>ca_should_quit := True\<rparr>
     else ca_input app' = [] \<and> ca_should_quit app' = ca_should_quit app \<and> app_inv app' \<and>
       (if trim (ca_input app) = [] then r = Ok () \<and> conn' = conn \<and> app' = app\<lparr>ca_input := []\<rparr>
        else if \<not> ca_connected app then
          r = Ok () \<and> conn' = conn \<and> \<not> ca_connected app' \<and> \<not> has_exit_notice app' \<and>
          ca_messages app' = shown_after app ''[system] message not sent because the client is offline'' []
        else if str_len (trim (ca_input app)) > MAX_CHAT_MESSAGE_BYTES then
          r = Err InvalidInput \<and> conn' = conn \<and> \<not> ca_connected app' \<and> \<not> has_exit_notice app' \<and>
          ca_messages app' = shown_after app ''[system] failed to send message: '' (show_io InvalidInput)
        else
          (case write_all so (cc_stream conn) (frame_bytes
               \<lparr>version = CURRENT_PROTOCOL_VERSION, kind = Chat, payload = as_bytes (trim (ca_input app))\<rparr>) of
             (Ok _, stream) \<Rightarrow> r = Ok () \<and> conn' = conn\<lparr>cc_stream := stream\<rparr> \<and> app' = app\<lparr>ca_input := []\<rparr>
           | (Err e, stream) \<Rightarrow> conn' = conn\<lparr>cc_stream := stream\<rparr> \<and> \<not> ca_connected app' \<and>
               (if e = BrokenPipe \<or> e = ConnectionAborted \<or> e = ConnectionReset then
                  r = Ok () \<and> ca_exit_notice app' = Some (lit ''server unavailable: '' @ show_io e) \<and>
                  ca_messages app' = shown_after app ''[system] server unavailable: '' (show_io e)
                else r = Err e \<and> \<not> has_exit_notice app' \<and>
                  ca_messages app' = shown_after app ''[system] failed to send message: '' (show_io e))
           | (Panic, stream) \<Rightarrow> r = Panic)))"
proof -
  let ?c = "trim (ca_input app)" and ?app = "app\<lparr>ca_input := []\<rparr>"
  let ?sent = "write_all so (cc_stream conn) (frame_bytes \<lparr>version = CURRENT_PROTOCOL_VERSION, kind = Chat, payload = as_bytes ?c\<rparr>)"
  have i: "app_inv ?app" using app_steps_inv(6) [OF assms(1)] by (simp add: take_input_def)
  have sh: "ca_messages (push_message (lit n @ reason) Confirmed (?app\<lparr>ca_connected := b\<rparr>)) = shown_after app n reason"
    "ca_messages (push_message (lit n) Confirmed ?app) = shown_after app n []" for n reason b
    by (simp_all add: shown_after_def push_message_messages limits)
  have sys: "lit ''[system] '' @ lit t @ x = lit (''[system] '' @ t) @ x" for t x
    by (simp only: lit_append append_assoc [symmetric])
  have "app_inv (?app\<lparr>ca_connected := False\<rparr>)" using i by (simp add: app_inv_update)
  note inv = push_message_inv [OF i] push_message_inv [OF this]
  show ?thesis
  proof (cases "has_exit_notice app \<or> ?c = [] \<or> \<not> ca_connected app \<or> str_len ?c > MAX_CHAT_MESSAGE_BYTES")
    case True
    then show ?thesis
      using inv i assms(2)
      by (auto simp: handle_key_event_def submit_input_def take_input_def send_message_def encode_chat_frame_def sh sys
          mark_offline_def is_disconnect_error_def has_exit_notice_def)
  next
    case False
    obtain r s where w: "?sent = (r, s)" by (cases ?sent)
    show ?thesis
      using False inv i assms(2) send_message_short [of ?c so conn] w
      by (cases r) (auto simp: handle_key_event_def submit_input_def take_input_def sh sys begin_shutdown_def
          mark_offline_def is_disconnect_error_def has_exit_notice_def app_inv_update)
  qed
qed

theorem submit_input_result_witness:
  "\<exists>app'. handle_key_event null_sock (\<lambda>_. []) \<lparr>code = KeyEnter, ctrl = False\<rparr>
     ((chat_app_new [] [])\<lparr>ca_input := [0x61], ca_connected := False\<rparr>, null_conn) = (Ok (), app', null_conn) \<and>
     map cm_text (ca_messages app') = [lit ''[system] Connected to '', lit ''[system] Type a message and press Enter.'',
       lit ''[system] message not sent because the client is offline'']"
proof -
  let ?app = "(chat_app_new [] [])\<lparr>ca_input := [0x61], ca_connected := False\<rparr>"
  have "app_inv ?app"
    by (rule app_inv_cong [OF chat_app_new_inv]) (simp_all add: selection_ok_0 chat_app_new_def)
  from submit_input_result [OF this, of "\<lparr>code = KeyEnter, ctrl = False\<rparr>" null_sock "\<lambda>_. []" null_conn] show ?thesis
    by (auto simp: trim_def trim_start_def trim_end_def is_whitespace_def chat_app_new_def has_exit_notice_def shown_after_def)
qed

text \<open>
  C38. A message over 4096 bytes ends the client: it is refused before anything is sent, and the
  error it returns leaves the main loop instead of being shown.
\<close>

theorem oversized_message_ends_client:
  assumes "str_len (trim (ca_input app)) > MAX_CHAT_MESSAGE_BYTES" and "ca_connected app" and "\<not> has_exit_notice app"
    and "\<not> ca_should_quit app"
    and "draw_frame ui t app = Ok calls" and "waiting t = []" "polled t = Ok True" "event_read t = Ok (KeyPress key)" "code key = KeyEnter"
  shows "\<exists>app'. client_loop ui so show_io (t # ts) (app, conn) = (Some (Err InvalidInput), app', conn) \<and> \<not> ca_connected app'"
proof -
  have "trim (ca_input app) \<noteq> []" using assms(1) by auto
  then show ?thesis
    using assms by (simp add: handle_terminal_event_def handle_key_event_def submit_input_def take_input_def send_message_def
        encode_chat_frame_def is_disconnect_error_def mark_offline_def)
qed

theorem oversized_message_ends_client_witness:
  "\<exists>app'. client_loop same_ui null_sock (\<lambda>_. []) [(key_turn KeyEnter)\<lparr>waiting := []\<rparr>]
     ((chat_app_new [] [])\<lparr>ca_input := replicate 4097 0x61\<rparr>, null_conn) = (Some (Err InvalidInput), app', null_conn) \<and>
     \<not> ca_connected app'"
proof -
  let ?app = "(chat_app_new [] [])\<lparr>ca_input := replicate 4097 0x61\<rparr>" and ?t = "(key_turn KeyEnter)\<lparr>waiting := []\<rparr>"
  have "names_short ?app" by (simp add: names_short_def chat_app_new_def)
  then obtain calls where "render same_ui ?app screen = Ok calls"
    by (rule render_Ok [OF same_ui_ok _ screen_roomy(1)])
  then have draw: "draw_frame same_ui ?t ?app = Ok calls" by (simp add: draw_frame_def key_turn_def)
  have "trim (replicate 4097 0x61) = replicate 4097 (0x61 :: uchar)"
  proof -
    have "dropWhile is_whitespace (replicate n 0x61) = replicate n 0x61" for n :: nat
      by (cases n) (simp_all add: is_whitespace_def)
    then show ?thesis by (simp add: trim_def trim_start_def trim_end_def)
  qed
  moreover have "str_len (replicate n 0x61) = n" for n :: nat by (induction n) (simp_all add: len_utf8_def)
  ultimately have "str_len (trim (ca_input ?app)) > MAX_CHAT_MESSAGE_BYTES" by (simp add: limits)
  from oversized_message_ends_client [OF this _ _ _ draw, where key = "\<lparr>code = KeyEnter, ctrl = False\<rparr>"] show ?thesis
    by (simp add: chat_app_new_def has_exit_notice_def key_turn_def del: client_loop_simps)
qed

end
