(* ===== verification/Cli.thy ===== *)
theory Cli
  imports Protocol_Text
begin

section \<open>Configuration, command line and main\<close>

text \<open>
  Model of \<^verbatim>\<open>crates/config/src/lib.rs\<close>, \<^verbatim>\<open>crates/cli/src/lib.rs\<close> and \<^verbatim>\<open>apps/drocsid/src/main.rs\<close>.
  clap's parser is a parameter that is given the value parser of the username; what is relied on
  is that a username it returns is a result of that value parser (\<open>clap_ok\<close>). Starting the
  logger, the server and the client are parameters of \<open>main\<close>.
\<close>

subsection \<open>Configuration\<close>

definition DEFAULT_SERVER_BIND_ADDR :: ustr where
  "DEFAULT_SERVER_BIND_ADDR = lit ''127.0.0.1:7878''"

definition DEFAULT_SERVER_CONNECT_ADDR :: ustr where
  "DEFAULT_SERVER_CONNECT_ADDR = lit ''127.0.0.1:7878''"

definition DEFAULT_SERVER_SIMULATED_LATENCY_MS :: "64 word" where
  "DEFAULT_SERVER_SIMULATED_LATENCY_MS = 0"

text \<open>The latency is in milliseconds.\<close>

record server_config =
  bind_addr :: ustr
  connect_addr :: ustr
  simulated_latency :: "64 word"

primrec unwrap_or :: "'a \<Rightarrow> 'a option \<Rightarrow> 'a" where
  "unwrap_or d None = d"
| "unwrap_or d (Some x) = x"

definition for_server :: "ustr option \<Rightarrow> 64 word option \<Rightarrow> server_config" where
  "for_server listen_addr latency_ms =
     \<lparr>bind_addr = unwrap_or DEFAULT_SERVER_BIND_ADDR listen_addr,
      connect_addr = DEFAULT_SERVER_CONNECT_ADDR,
      simulated_latency = unwrap_or DEFAULT_SERVER_SIMULATED_LATENCY_MS latency_ms\<rparr>"

definition for_client :: "ustr option \<Rightarrow> server_config" where
  "for_client addr =
     \<lparr>bind_addr = DEFAULT_SERVER_BIND_ADDR,
      connect_addr = unwrap_or DEFAULT_SERVER_CONNECT_ADDR addr,
      simulated_latency = DEFAULT_SERVER_SIMULATED_LATENCY_MS\<rparr>"

subsection \<open>Command line\<close>

definition non_empty_username :: "ustr \<Rightarrow> (ustr, ustr) result" where
  "non_empty_username v =
     (if trim v = [] then Err (lit ''username cannot be empty'')
      else if \<not> is_valid_username v then Err (lit ''username cannot contain control characters'')
      else Ok v)"

datatype cli_command = CliServer "ustr option" "64 word option" | CliClient ustr "ustr option"

datatype command = Server_command "ustr option" "64 word option" | Client_command ustr "ustr option"

type_synonym 'e clap = "(ustr \<Rightarrow> (ustr, ustr) result) \<Rightarrow> ustr list \<Rightarrow> (cli_command, 'e) result"

definition parse_command :: "'e clap \<Rightarrow> ustr list \<Rightarrow> (command, 'e) result" where
  "parse_command try_parse args =
     (case try_parse non_empty_username args of
        Ok (CliServer listen latency_ms) \<Rightarrow> Ok (Server_command listen latency_ms)
      | Ok (CliClient username addr) \<Rightarrow> Ok (Client_command username addr)
      | Err e \<Rightarrow> Err e
      | Panic \<Rightarrow> Panic)"

subsection \<open>Main\<close>

datatype ('e, 'f) run_result = Returned "(unit, 'f) result" | Exited int

text \<open>\<^verbatim>\<open>run\<close>; an error of clap's is printed, and a failure to print it is returned.\<close>

definition run ::
  "'e clap \<Rightarrow> ('e \<Rightarrow> int) \<Rightarrow> ('e \<Rightarrow> (unit, 'f) result) \<Rightarrow> (server_config \<Rightarrow> (unit, 'f) result) \<Rightarrow>
     (ustr \<Rightarrow> server_config \<Rightarrow> (unit, 'f) result) \<Rightarrow> ustr list \<Rightarrow> ('e, 'f) run_result"
where
  "run try_parse exit_code print start_server start_client args =
     (case parse_command try_parse args of
        Err e \<Rightarrow>
          (case print e of
             Ok _ \<Rightarrow> Exited (exit_code e)
           | Err f \<Rightarrow> Returned (Err f)
           | Panic \<Rightarrow> Returned Panic)
      | Panic \<Rightarrow> Returned Panic
      | Ok (Server_command listen latency_ms) \<Rightarrow> Returned (start_server (for_server listen latency_ms))
      | Ok (Client_command username addr) \<Rightarrow> Returned (start_client username (for_client addr)))"

text \<open>Whether the log is JSON, from the environment variable \<^verbatim>\<open>DROCSID_LOG_FORMAT\<close>.\<close>

definition json_log :: "ustr option \<Rightarrow> bool" where
  "json_log var = (case var of None \<Rightarrow> False | Some v \<Rightarrow> to_ascii_lowercase v = to_ascii_lowercase (lit ''json''))"

datatype exit_code = SUCCESS | FAILURE | Code int

definition main :: "(bool \<Rightarrow> (unit, 'g) result) \<Rightarrow> ustr option \<Rightarrow> ('e, 'f) run_result \<Rightarrow> (exit_code, unit) result" where
  "main try_init log_format result =
     (case try_init (json_log log_format) of
        Panic \<Rightarrow> Panic
      | Err _ \<Rightarrow> Ok FAILURE
      | Ok _ \<Rightarrow>
          (case result of
             Exited n \<Rightarrow> Ok (Code n)
           | Returned (Ok _) \<Rightarrow> Ok SUCCESS
           | Returned (Err _) \<Rightarrow> Ok FAILURE
           | Returned Panic \<Rightarrow> Panic))"

subsection \<open>Names\<close>

definition clap_ok :: "'e clap \<Rightarrow> bool" where
  "clap_ok try_parse \<longleftrightarrow>
     (\<forall>vp args u c. try_parse vp args = Ok (CliClient u c) \<longrightarrow> (\<exists>v. vp v = Ok u))"

lemma non_empty_username_Ok: "non_empty_username v = Ok u \<longleftrightarrow> u = v \<and> is_valid_username v"
  by (auto simp: non_empty_username_def is_valid_username_def)

lemma parse_command_client:
  assumes "clap_ok try_parse" and "parse_command try_parse args = Ok (Client_command u c)"
  shows "is_valid_username u"
proof -
  have "try_parse non_empty_username args = Ok (CliClient u c)"
    using assms(2) by (auto simp: parse_command_def split: result.splits cli_command.splits)
  then obtain v where "non_empty_username v = Ok u" using assms(1) unfolding clap_ok_def by blast
  then show ?thesis by (simp add: non_empty_username_Ok)
qed

text \<open>A parser of \<^verbatim>\<open>client --username u\<close>, to evaluate with.\<close>

definition tiny_clap :: "unit clap" where
  "tiny_clap vp args =
     (case args of
        [_, mode, opt, u] \<Rightarrow>
          if mode = lit ''client'' \<and> opt = lit ''--username'' then
            (case vp u of Ok v \<Rightarrow> Ok (CliClient v None) | _ \<Rightarrow> Err ())
          else Err ()
      | _ \<Rightarrow> Err ())"

lemma tiny_clap_ok: "clap_ok tiny_clap"
  by (auto simp: clap_ok_def tiny_clap_def split: list.splits if_splits result.splits)

end
