(* ===== verification/End_To_End.thy ===== *)
theory End_To_End
  imports Server_Facts Client_Tui Cli
begin

section \<open>Client and server together\<close>

text \<open>
  What holds across the parts: the client survives whatever the server sends and shows when the
  connection is over; a name the command line accepts is the name the server registers, trimmed;
  and what a name can do to the lines and mentions of others.
\<close>

subsection \<open>The events of the reader thread\<close>

lemma process_frame_ok:
  assumes "wf_frame f"
  shows "list_all event_ok (snd (process_frame f))"
proof (cases "kind f")
  case Presence
  show ?thesis
  proof (cases "parse_presence (payload f)")
    case (Some us)
    have "length (payload f) = 2 + sum_list (map (\<lambda>u. 2 + str_len u) us)"
      using parse_presence_SomeD(3) [OF Some] by (simp add: length_presence_payload)
    moreover have "length (payload f) \<le> MAX_FRAME_PAYLOAD_BYTES" using assms by (simp add: wf_frame_def)
    moreover have "2 + str_len u \<le> sum_list (map (\<lambda>u. 2 + str_len u) us)" if "u \<in> set us" for u
      using that member_le_sum_list [of "2 + str_len u" "map (\<lambda>u. 2 + str_len u) us"] by simp
    ultimately have "list_all (\<lambda>u. str_len u \<le> 65532) us" by (fastforce simp: list_all_iff limits)
    with Presence Some show ?thesis by (simp add: process_frame_def event_ok_def)
  qed (use Presence in \<open>simp add: process_frame_def event_ok_def\<close>)
qed (auto simp: process_frame_def event_ok_def split: option.split)

context byte_reader
begin

lemma reader_events_ok: "live r \<Longrightarrow> list_all event_ok (fst (reader_loop debug ops n r))"
proof (induction n arbitrary: r)
  case (Suc n)
  from read_frame_refines [OF Suc.prems] obtain r1 where r1: "live r1"
    "case decode_frame (avail r) of
       Ok (fo, rest) \<Rightarrow> read_frame ops r = (Ok fo, r1) \<and> avail r1 = rest
     | Err e \<Rightarrow> read_frame ops r = (Err e, r1)
     | Panic \<Rightarrow> False" by blast
  show ?case
  proof (cases "decode_frame (avail r)")
    case (Ok p)
    obtain fo rest where p: "p = (fo, rest)" by (cases p)
    show ?thesis
    proof (cases fo)
      case None
      with Ok p r1(2) show ?thesis by (simp add: event_ok_def)
    next
      case (Some f)
      then have "wf_frame f" using decode_frame_canonical Ok p by auto
      from process_frame_ok [OF this] Suc.IH [OF r1(1)] Ok p Some r1(2) show ?thesis
        by (auto split: prod.split bool.split)
    qed
  qed (use r1 in \<open>auto simp: event_ok_def\<close>)
qed simp

end

subsection \<open>The shutdown notice stays\<close>

lemma notice_kept [simp]:
  "ca_exit_notice (append_input c app) = ca_exit_notice app"
  "ca_exit_notice (pop_input app) = ca_exit_notice app"
  "ca_exit_notice (snd (take_input app)) = ca_exit_notice app"
  "ca_exit_notice (mark_offline m app) = ca_exit_notice app"
  "ca_exit_notice (snd (select_previous_mention app)) = ca_exit_notice app"
  "ca_exit_notice (snd (select_next_mention app)) = ca_exit_notice app"
  "ca_exit_notice (snd (apply_selected_mention app)) = ca_exit_notice app"
  "ca_exit_notice (snd (update_connected_users us app)) = ca_exit_notice app"
  by (auto simp: mark_offline_def append_input_def pop_input_def reset_mention_selection_def
      take_input_def select_previous_mention_def select_next_mention_def apply_selected_mention_def
      update_connected_users_def Let_def split: option.splits result.splits)

lemma drain_notice:
  "app_inv app \<Longrightarrow> es = xs @ [Disconnected reason] \<Longrightarrow>
   ca_exit_notice (snd (drain_network_events es app)) = Some reason"
proof (induction xs arbitrary: es app)
  case Nil
  then show ?case by (simp add: drain_event_def begin_shutdown_def)
next
  case (Cons e xs)
  obtain app1 where "drain_event e app = (Ok (), app1)" "app_inv app1" using drain_event_inv [OF Cons.prems(1)] by blast
  with Cons.IH [of app1 "xs @ [Disconnected reason]"] Cons.prems(2) show ?case by simp
qed

lemma handle_terminal_event_notice:
  assumes "ca_exit_notice app = Some reason"
  shows "ca_exit_notice (fst (snd (handle_terminal_event so show_io t (app, conn)))) = Some reason"
  using assms
  by (cases "polled t"; cases "event_read t")
    (auto simp: handle_terminal_event_def handle_key_event_def has_exit_notice_def split: terminal_event.splits)

text \<open>One turn of a loop that goes on.\<close>

lemma turn_goes_on:
  assumes "ui_ok ui" "no_write_panic so" "frame_turn_ok t" "app_inv (fst st)" "names_short (fst st)"
    and "fst (fst (client_run ui so show_io (t # ts) st)) = None"
  obtains app1 calls st2 where "drain_network_events (waiting t) (fst st) = (Ok (), app1)"
    "handle_terminal_event so show_io t (app1, snd st) = (Ok (), st2)" "app_inv (fst st2)" "names_short (fst st2)"
    "panel_lines ''Disconnected'' calls = (case ca_exit_notice app1 of None \<Rightarrow> [] | Some reason \<Rightarrow> [notice_lines reason])"
    "client_run ui so show_io (t # ts) st = (fst (client_run ui so show_io ts st2), calls # snd (client_run ui so show_io ts st2))"
proof -
  obtain app1 where d: "drain_network_events (waiting t) (fst st) = (Ok (), app1)" "app_inv app1"
    using drain_network_events_inv [OF assms(4)] by blast
  have t: "polled t \<noteq> Panic" "event_read t \<noteq> Panic" "list_all event_ok (waiting t)" using assms(3) by (simp_all add: frame_turn_ok_def)
  have n: "names_short app1" using drain_names [OF t(3) assms(4,5)] d(1) by simp
  have q: "\<not> ca_should_quit (fst st)" using assms(6) by (auto split: if_splits)
  obtain calls where dr: "draw_frame ui t app1 = Ok calls"
    using assms(6) d q by (cases "draw_frame ui t app1") auto
  obtain r st2 where h: "handle_terminal_event so show_io t (app1, snd st) = (r, st2)"
    by (cases "handle_terminal_event so show_io t (app1, snd st)")
  have r: "r = Ok ()" using assms(6) d dr h q by (cases r) auto
  have "app_inv (fst st2)" using handle_terminal_event_inv [OF d(2) assms(2) t(1,2), of show_io "snd st"] h by simp
  moreover have "names_short (fst st2)"
    using handle_terminal_event_users [of so show_io t app1 "snd st"] h n by (auto simp: names_short_def)
  moreover note draw_frame_notice [OF assms(1,3) d(2) n dr]
  ultimately show ?thesis
    using that d h r dr q by (simp add: split_def)
qed

lemma client_run_keeps_notice:
  "ui_ok ui \<Longrightarrow> no_write_panic so \<Longrightarrow> list_all frame_turn_ok ts \<Longrightarrow> app_inv (fst st) \<Longrightarrow> names_short (fst st) \<Longrightarrow>
   fst (fst (client_run ui so show_io ts st)) = None \<Longrightarrow> concat (map waiting ts) = [] \<Longrightarrow> ca_exit_notice (fst st) = Some reason \<Longrightarrow>
   ca_exit_notice (fst (snd (fst (client_run ui so show_io ts st)))) = Some reason \<and>
   list_all (\<lambda>calls. panel_lines ''Disconnected'' calls = [notice_lines reason]) (snd (client_run ui so show_io ts st))"
proof (induction ts arbitrary: st)
  case (Cons t ts)
  have ok: "frame_turn_ok t" using Cons.prems(3) by simp
  obtain app1 calls st2 where t: "drain_network_events (waiting t) (fst st) = (Ok (), app1)"
    "handle_terminal_event so show_io t (app1, snd st) = (Ok (), st2)" "app_inv (fst st2)" "names_short (fst st2)"
    "panel_lines ''Disconnected'' calls = (case ca_exit_notice app1 of None \<Rightarrow> [] | Some reason \<Rightarrow> [notice_lines reason])"
    "client_run ui so show_io (t # ts) st = (fst (client_run ui so show_io ts st2), calls # snd (client_run ui so show_io ts st2))"
    by (rule turn_goes_on [OF Cons.prems(1,2) ok Cons.prems(4-6)])
  have n: "ca_exit_notice app1 = Some reason" using t(1) Cons.prems(7,8) by simp
  have "ca_exit_notice (fst st2) = Some reason" using handle_terminal_event_notice [OF n, of so show_io t "snd st"] t(2) by simp
  from Cons.IH [OF Cons.prems(1,2) _ t(3,4) _ _ this] show ?case
    using Cons.prems(3,6,7) t(5,6) n by (simp del: client_run.simps)
qed simp

lemma client_run_shows_end:
  "ui_ok ui \<Longrightarrow> no_write_panic so \<Longrightarrow> list_all frame_turn_ok ts \<Longrightarrow> app_inv (fst st) \<Longrightarrow> names_short (fst st) \<Longrightarrow>
   fst (fst (client_run ui so show_io ts st)) = None \<Longrightarrow> concat (map waiting ts) = es @ [Disconnected reason] \<Longrightarrow>
   ca_exit_notice (fst (snd (fst (client_run ui so show_io ts st)))) = Some reason \<and>
   snd (client_run ui so show_io ts st) \<noteq> [] \<and>
   panel_lines ''Disconnected'' (last (snd (client_run ui so show_io ts st))) = [notice_lines reason]"
proof (induction ts arbitrary: st es)
  case (Cons t ts)
  have ok: "frame_turn_ok t" using Cons.prems(3) by simp
  obtain app1 calls st2 where t: "drain_network_events (waiting t) (fst st) = (Ok (), app1)"
    "handle_terminal_event so show_io t (app1, snd st) = (Ok (), st2)" "app_inv (fst st2)" "names_short (fst st2)"
    "panel_lines ''Disconnected'' calls = (case ca_exit_notice app1 of None \<Rightarrow> [] | Some reason \<Rightarrow> [notice_lines reason])"
    "client_run ui so show_io (t # ts) st = (fst (client_run ui so show_io ts st2), calls # snd (client_run ui so show_io ts st2))"
    by (rule turn_goes_on [OF Cons.prems(1,2) ok Cons.prems(4-6)])
  have ts: "list_all frame_turn_ok ts" "fst (fst (client_run ui so show_io ts st2)) = None"
    using Cons.prems(3,6) t(6) by (simp_all del: client_run.simps)
  show ?case
  proof (cases "concat (map waiting ts) = []")
    case True
    have "waiting t @ concat (map waiting ts) = es @ [Disconnected reason]" using Cons.prems(7) by simp
    then have "waiting t = es @ [Disconnected reason]" by (simp only: True append_Nil2)
    from drain_notice [OF Cons.prems(4) this] have "ca_exit_notice app1 = Some reason" using t(1) by simp
    moreover from this have "ca_exit_notice (fst st2) = Some reason"
      using handle_terminal_event_notice [of app1 reason so show_io t "snd st"] t(2) by simp
    note kept = client_run_keeps_notice [OF Cons.prems(1,2) ts(1) t(3,4) ts(2) True this]
    ultimately show ?thesis
      using kept t(5,6) by (auto simp: list_all_iff simp del: client_run.simps)
  next
    case False
    then obtain xs where "concat (map waiting ts) = xs @ [Disconnected reason]"
      using Cons.prems(7) by (metis (no_types, lifting) append_butlast_last_id concat.simps(2) last_appendR last_snoc list.simps(9))
    from Cons.IH [OF Cons.prems(1,2) ts(1) t(3,4) ts(2) this] show ?thesis
      using t(6) by (simp del: client_run.simps)
  qed
qed simp

subsection \<open>Names and messages across the wire\<close>

definition handshake_bytes :: "ustr \<Rightarrow> bytes" where
  "handshake_bytes u = frame_bytes \<lparr>version = CURRENT_PROTOCOL_VERSION, kind = Handshake, payload = as_bytes u\<rparr>"

lemma connect_sends:
  assumes "connect so u a = Ok (conn, reader)"
  obtains stream where "tcp_connect so a = Ok stream" "write_all so stream (handshake_bytes u) = (Ok (), cc_stream conn)"
    "str_len u \<le> MAX_FRAME_PAYLOAD_BYTES"
proof -
  obtain stream r hs s' where s: "tcp_connect so a = Ok stream" "try_clone so stream = Ok r"
    "encode_frame Handshake (as_bytes u) = Ok hs" "write_all so stream hs = (Ok (), s')" "cc_stream conn = s'"
    using assms by (auto simp: connect_def split: result.splits prod.splits)
  then have "hs = handshake_bytes u" by (simp add: handshake_bytes_def frame_bytes_def)
  moreover have "str_len u \<le> MAX_FRAME_PAYLOAD_BYTES" using encode_frame_Ok_iff [of Handshake "as_bytes u"] s(3) by auto
  ultimately show ?thesis using that s by blast
qed

lemma handshake_verdict_name:
  assumes "valid_str u" "is_valid_username u"
  shows "handshake_verdict \<lparr>version = CURRENT_PROTOCOL_VERSION, kind = Handshake, payload = as_bytes u\<rparr> =
    (if str_len u \<le> MAX_USERNAME_BYTES then Ok (trim u) else Err UsernameTooLong)"
  using assms by (simp add: handshake_verdict_def from_utf8_as_bytes is_valid_username_def)

lemma format_not_blank: "trim (format_chat_message u t c) \<noteq> []"
proof -
  have "\<not> is_whitespace 0x5B" by (simp add: is_whitespace_def)
  moreover have "0x5B \<in> set (format_chat_message u t c)" by (simp add: format_chat_message_def lit_codes)
  ultimately show ?thesis unfolding trim_eq_Nil by (auto simp: list_all_iff)
qed

lemma encode_chat_frame_Ok:
  assumes "str_len c \<le> MAX_CHAT_MESSAGE_BYTES"
  shows "encode_chat_frame c = Ok (chat_bytes c)"
  using assms encode_short [of c] by (simp add: encode_chat_frame_def short_line_def limits)

lemma chat_bytes_decode:
  assumes "short_line l"
  shows "decode_frame (chat_bytes l) = Ok (Some \<lparr>version = CURRENT_PROTOCOL_VERSION, kind = Chat, payload = as_bytes l\<rparr>, [])"
  using assms decode_frame_wf [of "\<lparr>version = CURRENT_PROTOCOL_VERSION, kind = Chat, payload = as_bytes l\<rparr>" "[]"]
  by (simp add: chat_bytes_def wf_frame_def short_line_def)

text \<open>The server's end of the handshake, and the registration that follows.\<close>

lemma handshake_received:
  assumes "valid_str u" and "is_valid_username u" and "str_len u \<le> MAX_FRAME_PAYLOAD_BYTES"
    and "byte_reader rd avail live" and "live r" and "avail r = handshake_bytes u @ rest"
  shows "\<exists>r'. read_handshake_username rd r =
        (if str_len u \<le> MAX_USERNAME_BYTES then Ok (trim u) else Err UsernameTooLong, r') \<and> avail r' = rest"
proof -
  let ?f = "\<lparr>version = CURRENT_PROTOCOL_VERSION, kind = Handshake, payload = as_bytes u\<rparr>"
  have "wf_frame ?f" using assms(3) by (simp add: wf_frame_def)
  then have "decode_frame (avail r) = Ok (Some ?f, rest)"
    using decode_frame_wf [of ?f rest] by (simp add: assms(6) handshake_bytes_def)
  then obtain r' where "read_async_frame rd r = (Ok (Some ?f), r')" "avail r' = rest"
    using byte_reader.read_async_frame_refines [OF assms(4,5)] by auto
  with read_handshake_username_frame [of rd r ?f r'] handshake_verdict_name [OF assms(1,2)] show ?thesis by auto
qed


subsection \<open>Properties\<close>

text \<open>
  C5. The client survives the server: fed with any events of its reader thread, on any bytes the
  server may send, it does not panic and keeps its invariant; and if it is still running after
  the last of them, which is the end of the connection with a reason, the last frame the user has
  seen shows the shutdown popup with that reason. Painting inside the frame is relied on not to
  panic, and the terminal to have at least seven rows.
\<close>

theorem client_survives_server:
  assumes "byte_reader rd avail live" and "live r" and "length (avail r) < n"
    and "ui_ok ui" and "no_write_panic so" and "connect so u a = Ok (conn, reader)"
    and "concat (map waiting ts) = take k (fst (reader_loop debug rd n r))"
    and "list_all (\<lambda>t. roomy (frame_area t) \<and> prepared t \<noteq> Panic \<and> flushed t \<noteq> Panic \<and> polled t \<noteq> Panic \<and> event_read t \<noteq> Panic) ts"
  shows "\<exists>res app conn' frames. client_run ui so show_io ts (chat_app_new u a, conn) = ((res, app, conn'), frames) \<and>
    res \<noteq> Some Panic \<and> app_inv app \<and>
    (res = None \<and> length (fst (reader_loop debug rd n r)) \<le> k \<longrightarrow>
      (\<exists>es reason. fst (reader_loop debug rd n r) = es @ [Disconnected reason] \<and> ca_exit_notice app = Some reason \<and>
         frames \<noteq> [] \<and> panel_lines ''Disconnected'' (last frames) = [notice_lines reason]))"
proof -
  let ?es = "fst (reader_loop debug rd n r)"
  obtain res app conn' frames where l: "client_run ui so show_io ts (chat_app_new u a, conn) = ((res, app, conn'), frames)"
    by (metis prod.exhaust)
  have "list_all event_ok (take k ?es)"
    using byte_reader.reader_events_ok [OF assms(1,2)] by (auto simp: list_all_iff dest: in_set_takeD)
  then have "list_all event_ok (concat (map waiting ts))" by (simp only: assms(7))
  then have ts: "list_all frame_turn_ok ts"
    using assms(8) by (auto simp: list_all_iff frame_turn_ok_def)
  have "str_len u \<le> 65532" by (rule connect_sends [OF assms(6)]) (simp add: limits)
  then have start: "app_inv (fst (chat_app_new u a, conn))" "names_short (fst (chat_app_new u a, conn))"
    by (simp_all add: chat_app_new_inv names_short_def) (simp add: chat_app_new_def)
  have safe: "res \<noteq> Some Panic" "app_inv app"
    using client_loop_inv [OF assms(4,5) ts start, of show_io] l by (simp_all add: client_loop_def)
  moreover have "\<exists>es reason. ?es = es @ [Disconnected reason] \<and> ca_exit_notice app = Some reason \<and>
      frames \<noteq> [] \<and> panel_lines ''Disconnected'' (last frames) = [notice_lines reason]" if "res = None" "length ?es \<le> k"
  proof -
    obtain es reason where es: "?es = es @ [Disconnected reason]"
      using byte_reader.reader_loop_ends [OF assms(1-3), of debug] by auto
    then have "concat (map waiting ts) = es @ [Disconnected reason]" using that(2) assms(7) by simp
    from client_run_shows_end [OF assms(4,5) ts start _ this, of show_io] show ?thesis
      using that(1) l es by simp
  qed
  ultimately show ?thesis using l by auto
qed

theorem client_survives_server_witness:
  "\<exists>app conn' frames. client_run same_ui null_sock (\<lambda>_. [])
     [(key_turn KeyUp)\<lparr>waiting := [Message [65], Disconnected (lit ''server disconnected'')]\<rparr>]
     (chat_app_new [0x61] [], null_conn\<lparr>cc_username := [0x61]\<rparr>) = ((None, app, conn'), frames) \<and> app_inv app \<and>
     panel_lines ''Disconnected'' (last frames) = [notice_lines (lit ''server disconnected'')]"
proof -
  let ?r = "[Data [1, 2, 0, 0], Data [0, 1, 65]]"
  let ?f = "\<lparr>version = CURRENT_PROTOCOL_VERSION, kind = Chat, payload = as_bytes [65]\<rparr>"
  let ?ts = "[(key_turn KeyUp)\<lparr>waiting := [Message [65], Disconnected (lit ''server disconnected'')]\<rparr>]"
  have w: "wf_frame ?f" by (simp add: wf_frame_def limits len_utf8_def)
  have fb: "frame_bytes ?f = [1, 2, 0, 0, 0, 1, 65]"
    by (simp add: frame_bytes_def encode_frame_def limits Let_def as_bytes_def encode_utf8_def utf8_nat_def)
  have "from_utf8 (encode_utf8 65) = Some [65]" using from_utf8_as_bytes [of "[65]"] by (simp add: is_scalar_def)
  then have fe: "frame_events [?f] = ([Message [65]], True)"
    by (simp add: process_frame_def trim_def trim_start_def trim_end_def is_whitespace_def)
  have rl: "reader_loop (\<lambda>_. []) script_ops 9 ?r = ([Message [65], Disconnected (lit ''server disconnected'')], Finished)"
    using script.reader_loop_stream [of ?r "[?f]" 9 "\<lambda>_. []"] w fb fe by simp
  have c: "connect null_sock [0x61] [] = Ok (null_conn\<lparr>cc_username := [0x61]\<rparr>, ())"
    by (simp add: connect_def null_sock_def null_conn_def encode_frame_def limits Let_def len_utf8_def)
  have events: "concat (map waiting ?ts) = take 2 (fst (reader_loop (\<lambda>_. []) script_ops 9 ?r))" by (simp add: rl)
  have "no_write_panic null_sock" by (simp add: no_write_panic_def null_sock_def)
  moreover have "list_all (\<lambda>t. roomy (frame_area t) \<and> prepared t \<noteq> Panic \<and> flushed t \<noteq> Panic \<and> polled t \<noteq> Panic \<and> event_read t \<noteq> Panic) ?ts"
    by (simp add: key_turn_def screen_roomy)
  ultimately obtain res app conn' frames where
    run: "client_run same_ui null_sock (\<lambda>_. []) ?ts (chat_app_new [0x61] [], null_conn\<lparr>cc_username := [0x61]\<rparr>) = ((res, app, conn'), frames)"
    and inv: "res \<noteq> Some Panic" "app_inv app"
    and shown: "res = None \<longrightarrow> panel_lines ''Disconnected'' (last frames) = [notice_lines (lit ''server disconnected'')]"
    using client_survives_server [OF script.byte_reader_axioms _ _ same_ui_ok _ c events, of "\<lambda>_. []"] rl by auto
  have "res = None"
  proof -
    let ?t = "hd ?ts" and ?app = "chat_app_new [0x61] []"
    obtain app1 where d: "drain_network_events (waiting ?t) ?app = (Ok (), app1)" "app_inv app1"
      using drain_network_events_inv [OF chat_app_new_inv] by blast
    have "app1 = begin_shutdown (lit ''server disconnected'') (push_message [65] Confirmed ?app)"
      using d(1) by (simp add: drain_event_def receive_message_confirmed chat_app_new_inv)
    then have q: "has_exit_notice app1" "\<not> ca_should_quit app1" "names_short app1"
      by (simp_all add: begin_shutdown_def has_exit_notice_def chat_app_new_def names_short_def len_utf8_def)
    obtain calls where "render same_ui app1 screen = Ok calls" by (rule render_Ok [OF same_ui_ok q(3) screen_roomy(1)])
    then have "draw_frame same_ui ?t app1 = Ok calls" by (simp add: draw_frame_def key_turn_def)
    with d(1) q run show ?thesis
      by (simp add: handle_terminal_event_def handle_key_event_def key_turn_def chat_app_new_def)
  qed
  with run inv(2) shown show ?thesis by blast
qed

text \<open>
  C27. From the command line to the registry: a username the command line accepts is sent as one
  handshake frame, and the server's answer is decided by its length alone; up to 32 bytes it is
  accepted and registered as the trimmed name, above that it is refused as too long.
\<close>

theorem cli_name_at_server:
  assumes "clap_ok try_parse" and "parse_command try_parse args = Ok (Client_command u c)" and "valid_str u"
    and "connect so u a = Ok (conn, reader)"
    and "byte_reader rd avail live" and "live r" and "avail r = handshake_bytes u @ rest"
  shows "(\<exists>stream. tcp_connect so a = Ok stream \<and> write_all so stream (handshake_bytes u) = (Ok (), cc_stream conn)) \<and>
    (\<exists>r'. read_handshake_username rd r =
        (if str_len u \<le> MAX_USERNAME_BYTES then Ok (trim u) else Err UsernameTooLong, r') \<and> avail r' = rest)"
proof
  have name: "is_valid_username u" by (rule parse_command_client [OF assms(1,2)])
  show "\<exists>stream. tcp_connect so a = Ok stream \<and> write_all so stream (handshake_bytes u) = (Ok (), cc_stream conn)"
    by (rule connect_sends [OF assms(4)]) blast
  have "str_len u \<le> MAX_FRAME_PAYLOAD_BYTES" by (rule connect_sends [OF assms(4)])
  from handshake_received [OF assms(3) name this assms(5-7)]
  show "\<exists>r'. read_handshake_username rd r =
        (if str_len u \<le> MAX_USERNAME_BYTES then Ok (trim u) else Err UsernameTooLong, r') \<and> avail r' = rest" .
qed

theorem cli_name_at_server_witness:
  "\<exists>r'. read_handshake_username script_ops [Data (handshake_bytes (lit ''ann''))] = (Ok (lit ''ann''), r')"
proof -
  have ann: "is_valid_username (lit ''ann'')" "valid_str (lit ''ann'')" "trim (lit ''ann'') = lit ''ann''" "str_len (lit ''ann'') = 3"
    using registered_ann by (simp_all add: registered_name_def lit_Cons lit_Nil trim_def trim_start_def trim_end_def is_whitespace_def len_utf8_def)
  have p: "parse_command tiny_clap [[], lit ''client'', lit ''--username'', lit ''ann''] = Ok (Client_command (lit ''ann'') None)"
    using ann(1) by (simp add: parse_command_def tiny_clap_def non_empty_username_Ok [THEN iffD2])
  have c: "connect null_sock (lit ''ann'') [] = Ok (null_conn\<lparr>cc_username := lit ''ann''\<rparr>, ())"
    using ann(4) by (simp add: connect_def null_sock_def null_conn_def encode_frame_def limits Let_def)
  have "handshake_bytes (lit ''ann'') \<noteq> []"
    using ann(4) frame_bytes_nonempty [of "\<lparr>version = CURRENT_PROTOCOL_VERSION, kind = Handshake, payload = as_bytes (lit ''ann'')\<rparr>"]
    by (simp add: handshake_bytes_def wf_frame_def limits)
  then show ?thesis
    using cli_name_at_server [OF tiny_clap_ok p ann(2) c script.byte_reader_axioms, of "[Data (handshake_bytes (lit ''ann''))]" "[]"] ann
    by (auto simp: limits)
qed

text \<open>
  C36. A limit of the line format: a name can put words into another user's mouth. A name made of
  a victim's name, the separator after a name, a time, the separator after a time and a beginning
  of a text is accepted by the command line and by the server's handshake if it is not too long,
  and everything its owner says is then parsed as said by the victim, at the forged time.
\<close>

theorem chat_author_spoof:
  assumes "u = v @ lit '']('' @ t @ lit ''): '' @ x" and "\<not> sublist (lit '']('') v" and "\<not> sublist (lit ''): '') t"
    and "valid_str u" and "is_valid_username u" and "str_len u \<le> MAX_USERNAME_BYTES" and "trim u = u"
    and "byte_reader rd avail live" and "live r" and "avail r = handshake_bytes u @ rest"
  shows "non_empty_username u = Ok u \<and> (\<exists>r'. read_handshake_username rd r = (Ok u, r')) \<and>
    (\<forall>now content. parse_chat_message (format_chat_message u now content) =
       Ok (Some (v, t, x @ lit '']('' @ now @ lit ''): '' @ content)))"
proof (intro conjI allI)
  show "non_empty_username u = Ok u" using assms(5) by (simp add: non_empty_username_Ok)
  show "\<exists>r'. read_handshake_username rd r = (Ok u, r')"
    using handshake_received [OF assms(4,5) _ assms(8-10)] assms(6,7) by (auto simp: limits)
  show "parse_chat_message (format_chat_message u now content) = Ok (Some (v, t, x @ lit '']('' @ now @ lit ''): '' @ content))" for now content
  proof -
    have "format_chat_message u now content = format_chat_message v t (x @ lit '']('' @ now @ lit ''): '' @ content)"
      by (simp add: format_chat_message_def assms(1))
    then show ?thesis by (simp only: parse_format [OF assms(2,3)])
  qed
qed

theorem chat_author_spoof_witness:
  "\<exists>r'. read_handshake_username script_ops [Data (handshake_bytes (lit ''eve](12:00): x''))] = (Ok (lit ''eve](12:00): x''), r') \<and>
   parse_chat_message (format_chat_message (lit ''eve](12:00): x'') (lit ''12:30'') (lit ''y'')) =
     Ok (Some (lit ''eve'', lit ''12:00'', lit ''x](12:30): y''))"
proof -
  let ?u = "lit ''eve](12:00): x''"
  have n: "?u = lit ''eve'' @ lit '']('' @ lit ''12:00'' @ lit ''): '' @ lit ''x''"
    "\<not> sublist (lit '']('') (lit ''eve'')" "\<not> sublist (lit ''): '') (lit ''12:00'')"
    by (simp_all add: lit_Cons lit_Nil sublist_code)
  have u: "is_valid_username ?u" "str_len ?u \<le> MAX_USERNAME_BYTES" "trim ?u = ?u"
    by (simp_all add: is_valid_username_def lit_Cons lit_Nil trim_def trim_start_def trim_end_def is_whitespace_def
        is_control_def limits len_utf8_def)
  have "handshake_bytes ?u \<noteq> []"
    using u(2) frame_bytes_nonempty [of "\<lparr>version = CURRENT_PROTOCOL_VERSION, kind = Handshake, payload = as_bytes ?u\<rparr>"]
    by (simp add: handshake_bytes_def wf_frame_def limits)
  moreover have "lit ''x'' @ lit '']('' @ lit ''12:30'' @ lit ''): '' @ lit ''y'' = lit ''x](12:30): y''"
    by (simp add: lit_Cons lit_Nil)
  ultimately show ?thesis
    using chat_author_spoof [OF n valid_str_lit u script.byte_reader_axioms, of "[Data (handshake_bytes ?u)]" "[]"] by auto
qed



end
