(* ===== verification/Sections.thy ===== *)
theory Sections
  imports Server_Facts
begin

section \<open>Critical sections\<close>

text \<open>
  The server once more, now one critical section at a time. A function of \<^verbatim>\<open>state.rs\<close> is not atomic:
  \<^verbatim>\<open>broadcast\<close> releases the delivery registry before it removes the clients it could not serve,
  each removal locks on its own, \<^verbatim>\<open>broadcast_presence\<close> collects the names and sends them under two
  different locks, and the history replay sends with only \<^verbatim>\<open>replay_barrier\<close> held. A task is now at a
  phase of \<open>Server\<close> and at a \<open>stage\<close> of the call it makes there; a step is one locked section (with
  the taking of the barrier, when the section is the first one under it). \<^verbatim>\<open>record_and_broadcast\<close> and
  \<^verbatim>\<open>with_history_replay\<close> hold the barrier across their sections, so their first section waits until
  it is free. The lines recorded so far are kept beside the state, for the specification only.
\<close>

subsection \<open>The sections of a call\<close>

type_synonym victims = "(socket_addr \<times> token) list"

datatype presence_stage = Pruning victims | Spreading bytes | Dropping victims
datatype line_stage = Recorded ustr bytes | Evicting victims bool
datatype replay_stage = Copying chan_id | Sending chan_id "ustr list"

datatype stage =
    Start
  | Updating presence_stage
  | Recording line_stage
  | Replaying replay_stage

text \<open>A section ends with the next stage of the call, or with its result.\<close>

type_synonym ('a, 'w) section_result = "(stage + ('a, server_error) result) \<times> 'w server_state"

fun in_section :: "('a, server_error) result \<times> 'w server_state \<Rightarrow> ('a \<Rightarrow> stage) \<Rightarrow> ('b, 'w) section_result" where
  "in_section (Ok x, st) next = (Inl (next x), st)"
| "in_section (Err e, st) next = (Inr (Err e), st)"
| "in_section (Panic, st) next = (Inr Panic, st)"

text \<open>The two sections that walk the delivery registry.\<close>

definition broadcast_section ::
  "'w chan_ops \<Rightarrow> map_orders \<Rightarrow> 'w server_state \<Rightarrow> bytes \<Rightarrow> socket_addr option \<Rightarrow>
     (victims, server_error) result \<times> 'w server_state"
where
  "broadcast_section ops it st msg exclude =
     (if poisoned (deliveries st) then (Err ClientStatePoisoned, st)
      else
        let (dl, chans, doomed) =
              broadcast_keys ops msg exclude (deliveries_order it (hm_keys (outboxes st))) (outboxes st) (channels st)
        in (Ok (map (\<lambda>(a, t, _). (a, t)) doomed), st\<lparr>deliveries := mutex_set dl (deliveries st), channels := chans\<rparr>))"

definition prune_section ::
  "'w chan_ops \<Rightarrow> map_orders \<Rightarrow> 'w server_state \<Rightarrow> (victims, server_error) result \<times> 'w server_state"
where
  "prune_section ops it st =
     (if poisoned (deliveries st) then (Err ClientStatePoisoned, st)
      else
        (Ok (map (\<lambda>d. (cd_addr d, cd_token d))
           (filter (is_overloaded ops (channels st)) (concat (hm_values (deliveries_order it) (outboxes st))))), st))"

text \<open>\<^verbatim>\<open>broadcast_presence\<close>: look for overloaded clients, remove each, collect the names, broadcast
  them, remove each client that could not take them.\<close>

fun presence_section ::
  "'w chan_ops \<Rightarrow> map_orders \<Rightarrow> stage \<Rightarrow> 'w server_state \<Rightarrow> (unit, 'w) section_result"
where
  "presence_section ops it Start st = in_section (prune_section ops it st) (\<lambda>ds. Updating (Pruning ds))"
| "presence_section ops it (Updating (Pruning ((a, tok) # ds))) st =
     in_section (remove_client_if_current st a tok) (\<lambda>_. Updating (Pruning ds))"
| "presence_section ops it (Updating (Pruning [])) st =
     in_section
       (seq (usernames (clients_order it) st) (\<lambda>users st.
          case encode_presence users of
            Ok frame \<Rightarrow> (Ok frame, st)
          | Err _ \<Rightarrow> (Err PresenceEncodingFailed, st)
          | Panic \<Rightarrow> (Panic, st)))
       (\<lambda>frame. Updating (Spreading frame))"
| "presence_section ops it (Updating (Spreading frame)) st =
     in_section (broadcast_section ops it st frame None) (\<lambda>ds. Updating (Dropping ds))"
| "presence_section ops it (Updating (Dropping ((a, tok) # ds))) st =
     in_section (remove_client_if_current st a tok) (\<lambda>_. Updating (Dropping ds))"
| "presence_section ops it (Updating (Dropping [])) st = (Inr (Ok ()), st)"
| "presence_section ops it g st = (Inl g, st)"

text \<open>Encoding a line and \<^verbatim>\<open>record_and_broadcast\<close>: record it, broadcast it, remove each client that
  could not take it; all under the barrier.\<close>

fun line_section ::
  "'w chan_ops \<Rightarrow> map_orders \<Rightarrow> ustr \<Rightarrow> ustr \<Rightarrow> stage \<Rightarrow> 'w server_state \<Rightarrow> (bool, 'w) section_result"
where
  "line_section ops it line content Start st =
     (case encode_frame Chat (as_bytes content) of
        Err _ \<Rightarrow> (Inr (Err MessageTooLong), st)
      | Panic \<Rightarrow> (Inr Panic, st)
      | Ok frame \<Rightarrow>
          if poisoned (replay_barrier st) then (Inr (Err ClientStatePoisoned), st)
          else if poisoned (history st) then (Inr (Err ClientStatePoisoned), st)
          else (Inl (Recording (Recorded line frame)),
                st\<lparr>history := mutex_set (history_record line (guarded (history st))) (history st)\<rparr>))"
| "line_section ops it line content (Recording (Recorded msg frame)) st =
     in_section (under_barrier (broadcast_section ops it st frame None)) (\<lambda>ds. Recording (Evicting ds (ds \<noteq> [])))"
| "line_section ops it line content (Recording (Evicting ((a, tok) # ds) dropped)) st =
     in_section (under_barrier (remove_client_if_current st a tok)) (\<lambda>_. Recording (Evicting ds dropped))"
| "line_section ops it line content (Recording (Evicting [] dropped)) st = (Inr (Ok dropped), st)"
| "line_section ops it line content g st = (Inl g, st)"

text \<open>\<^verbatim>\<open>send_message_history\<close>: find the writer, copy the history, send its lines one by one, and
  become ready; all under the barrier, the sending with no other lock.\<close>

fun replay_section ::
  "'w chan_ops \<Rightarrow> socket_addr \<Rightarrow> token \<Rightarrow> stage \<Rightarrow> 'w server_state \<Rightarrow> (unit, 'w) section_result"
where
  "replay_section ops a tok Start st =
     (if poisoned (replay_barrier st) then (Inr (Err ClientStatePoisoned), st)
      else if poisoned (deliveries st) then (Inr (Err ClientStatePoisoned), st)
      else
        (case find_client a tok (outboxes st) of
           None \<Rightarrow> (Inr (Err UnknownClient), st)
         | Some client \<Rightarrow> (Inl (Replaying (Copying (cd_writer client))), st)))"
| "replay_section ops a tok (Replaying (Copying writer)) st =
     (if poisoned (history st) then (Inr (Err ClientStatePoisoned), st)
      else (Inl (Replaying (Sending writer (snapshot (guarded (history st))))), st))"
| "replay_section ops a tok (Replaying (Sending writer (l # ls))) st =
     (case encode_frame Chat (as_bytes l) of
        Err _ \<Rightarrow> (Inr (Err MessageTooLong), st)
      | Panic \<Rightarrow> (Inr Panic, st\<lparr>replay_barrier := poison (replay_barrier st)\<rparr>)
      | Ok frame \<Rightarrow>
          (case try_send ops (channels st writer) frame of
             (Sent, w) \<Rightarrow> (Inl (Replaying (Sending writer ls)), st\<lparr>channels := (channels st)(writer := w)\<rparr>)
           | (Full, w) \<Rightarrow> (Inr (Err OutboundQueueFull), st\<lparr>channels := (channels st)(writer := w)\<rparr>)
           | (Closed, w) \<Rightarrow> (Inr (Err OutboundWriterGone), st\<lparr>channels := (channels st)(writer := w)\<rparr>)))"
| "replay_section ops a tok (Replaying (Sending writer [])) st =
     (case under_barrier (mark_client_ready ops st a tok) of (r, st) \<Rightarrow> (Inr r, st))"
| "replay_section ops a tok g st = (Inl g, st)"

subsection \<open>The sections of a task\<close>

text \<open>With the result of its call a task goes on to its next phase, as in \<open>task_call\<close>. The calls of
  the other phases are a single section each.\<close>

fun resume ::
  "('a, 'w) section_result \<Rightarrow> ('a \<Rightarrow> phase option) \<Rightarrow> phase option \<Rightarrow>
     (stage + (phase option, unit) result) \<times> 'w server_state"
where
  "resume (Inl g, st) next failed = (Inl g, st)"
| "resume (Inr r, st) next failed = (case after_call (r, st) next failed of (x, st) \<Rightarrow> (Inr x, st))"

fun task_section ::
  "'w chan_ops \<Rightarrow> map_orders \<Rightarrow> (rat \<Rightarrow> rat) \<Rightarrow> 'w inputs \<Rightarrow> socket_addr \<Rightarrow> phase \<Rightarrow> stage \<Rightarrow> 'w server_state \<Rightarrow>
     (stage + (phase option, unit) result) \<times> 'w server_state"
where
  "task_section ops it rnd i a (Replay u tok) g st =
     resume (replay_section ops a tok g st) (\<lambda>_. Some (ShowUsers u tok)) (Some (Finish u tok False True))"
| "task_section ops it rnd i a (ShowUsers u tok) g st =
     resume (presence_section ops it g st) (\<lambda>_. Some (RecordJoin u tok)) (Some (Finish u tok False True))"
| "task_section ops it rnd i a (RecordJoin u tok) g st =
     resume (line_section ops it (join_line u) (trim_end (join_line u)) g st)
       (\<lambda>dropped. Some (if dropped then JoinUsers u tok else Talk u tok)) (Some (Finish u tok False True))"
| "task_section ops it rnd i a (JoinUsers u tok) g st =
     resume (presence_section ops it g st) (\<lambda>_. Some (Talk u tok)) (Some (Finish u tok False True))"
| "task_section ops it rnd i a (Compose u tok content) g st =
     (let line = format_chat_message u (time_of_day i) content in
      resume (line_section ops it line line g st)
        (\<lambda>dropped. Some (if dropped then LineUsers u tok else Talk u tok)) (Some (Finish u tok True True)))"
| "task_section ops it rnd i a (LineUsers u tok) g st =
     resume (presence_section ops it g st) (\<lambda>_. Some (Talk u tok)) (Some (Finish u tok True True))"
| "task_section ops it rnd i a (RecordLeave u tok failed) g st =
     resume (line_section ops it (leave_line u) (trim_end (leave_line u)) g st)
       (\<lambda>_. Some (LeaveUsers u tok failed)) (if failed then None else Some (Finish u tok True True))"
| "task_section ops it rnd i a (LeaveUsers u tok failed) g st =
     resume (presence_section ops it g st) (\<lambda>_. None) (if failed then None else Some (Finish u tok True True))"
| "task_section ops it rnd i a (WriterLeave u tok) g st =
     resume (line_section ops it (leave_line u) (trim_end (leave_line u)) g st) (\<lambda>_. Some WriterUsers) (Some WriterUsers)"
| "task_section ops it rnd i a WriterUsers g st =
     resume (presence_section ops it g st) (\<lambda>_. None) None"
| "task_section ops it rnd i a p g st = (case task_call ops it rnd i a p st of (x, st) \<Rightarrow> (Inr x, st))"

text \<open>A call that is not interrupted: its sections one after the other.\<close>

fun run_sections ::
  "'w chan_ops \<Rightarrow> map_orders \<Rightarrow> (rat \<Rightarrow> rat) \<Rightarrow> 'w inputs \<Rightarrow> socket_addr \<Rightarrow> phase \<Rightarrow> nat \<Rightarrow> stage \<Rightarrow> 'w server_state \<Rightarrow>
     (stage + (phase option, unit) result) \<times> 'w server_state"
where
  "run_sections ops it rnd i a p 0 g st = (Inl g, st)"
| "run_sections ops it rnd i a p (Suc n) g st =
     (case task_section ops it rnd i a p g st of
        (Inl g', st') \<Rightarrow> run_sections ops it rnd i a p n g' st'
      | (Inr x, st') \<Rightarrow> (Inr x, st'))"

subsection \<open>The system\<close>

text \<open>The barrier is taken by the first section of a replay or of a recording and given back when
  the call returns.\<close>

fun takes_barrier :: "phase \<Rightarrow> bool" where
  "takes_barrier p = (kind_of_call p = Line \<or> (\<exists>u tok. p = Replay u tok))"

fun holds_barrier :: "stage \<Rightarrow> bool" where
  "holds_barrier (Recording r) = True"
| "holds_barrier (Replaying r) = True"
| "holds_barrier g = False"

text \<open>What a section adds to the recorded lines: the line as the history keeps it, and its frame.\<close>

fun recorded_by :: "stage \<Rightarrow> stage \<Rightarrow> (ustr \<times> bytes) list" where
  "recorded_by Start (Recording (Recorded line frame)) = [(trim_end_matches 0x0A line, frame)]"
| "recorded_by g g' = []"

record ('s, 'w) fine_system =
  admits :: "'s admission"
  common :: "'w server_state"
  running :: "(task \<times> stage) list"
  locked :: bool
  record_log :: "(ustr \<times> bytes) list"

definition fine_new :: "'s \<Rightarrow> (chan_id \<Rightarrow> 'w) \<Rightarrow> ('s, 'w) fine_system" where
  "fine_new permits chans =
     \<lparr>admits = admission_new permits, common = new_shared_state chans, running = [], locked = False, record_log = []\<rparr>"

text \<open>The system as \<open>Server\<close> sees it.\<close>

definition coarse :: "('s, 'w) fine_system \<Rightarrow> ('s, 'w) system" where
  "coarse s = \<lparr>admitting = admits s, shared = common s, tasks = map fst (running s)\<rparr>"

definition fine_accept ::
  "'s sem_ops \<Rightarrow> (socket_addr, error_kind) result \<Rightarrow> ('s, 'w) fine_system \<Rightarrow> ('s, 'w) fine_system"
where
  "fine_accept sem accepted s =
     (case accepted of
        Ok peer_addr \<Rightarrow>
          (case try_acquire sem (admits s) peer_addr of
             (None, adm) \<Rightarrow> s\<lparr>admits := adm\<rparr>
           | (Some p, adm) \<Rightarrow>
               s\<lparr>admits := adm,
                 running := running s @ [(\<lparr>peer = peer_addr, holds = Some p, phase = Handshaking\<rparr>, Start)]\<rparr>)
      | _ \<Rightarrow> s)"

definition section_turn ::
  "'s sem_ops \<Rightarrow> 'w chan_ops \<Rightarrow> map_orders \<Rightarrow> (rat \<Rightarrow> rat) \<Rightarrow> 'w inputs \<Rightarrow> (task \<times> stage) list \<Rightarrow> task \<Rightarrow> stage \<Rightarrow>
     (task \<times> stage) list \<Rightarrow> ('s, 'w) fine_system \<Rightarrow> ('s, 'w) fine_system"
where
  "section_turn sem ops it rnd i earlier t g later s =
     (case task_section ops it rnd i (peer t) (phase t) g (common s) of
        (Inl g', st) \<Rightarrow>
          s\<lparr>common := st, running := earlier @ (t, g') # later, locked := locked s \<or> holds_barrier g',
            record_log := record_log s @ recorded_by g g'\<rparr>
      | (Inr (Ok (Some p)), st) \<Rightarrow>
          s\<lparr>common := st,
            running := earlier @ (t\<lparr>phase := p\<rparr>, Start) # later @
              map (\<lambda>t. (t, Start)) (spawned (peer t) (phase t) (Some p)),
            locked := locked s \<and> \<not> holds_barrier g\<rparr>
      | (Inr _, st) \<Rightarrow>
          s\<lparr>common := st, admits := drop_held sem (holds t) (admits s), running := earlier @ later,
            locked := locked s \<and> \<not> holds_barrier g\<rparr>)"

text \<open>What tokio does with a channel besides sending on it: \<open>recv\<close> relates a channel to what it is
  after its receiver took a message or was dropped; \<open>newly\<close> holds of the channels it creates.\<close>

record 'w chan_env =
  recv :: "'w \<Rightarrow> 'w \<Rightarrow> bool"
  newly :: "'w \<Rightarrow> bool"

text \<open>A created channel is new and is none of those a replay is sending on.\<close>

definition replay_channels :: "(task \<times> stage) list \<Rightarrow> chan_id set" where
  "replay_channels ts =
     {w. \<exists>(t, g) \<in> set ts. g = Replaying (Copying w) \<or> (\<exists>ls. g = Replaying (Sending w ls))}"

definition fine_inputs_ok :: "'w chan_env \<Rightarrow> 'w inputs \<Rightarrow> ('s, 'w) fine_system \<Rightarrow> bool" where
  "fine_inputs_ok env i s \<longleftrightarrow>
     inputs_ok i (common s) \<and> newly env (fresh i) \<and> channel i \<notin> replay_channels (running s)"

text \<open>\<^verbatim>\<open>replay_barrier.lock()\<close> waits while another task holds it.\<close>

definition may_run :: "task \<Rightarrow> stage \<Rightarrow> ('s, 'w) fine_system \<Rightarrow> bool" where
  "may_run t g s \<longleftrightarrow> \<not> (g = Start \<and> takes_barrier (phase t) \<and> locked s)"

inductive fine_step ::
  "'s sem_ops \<Rightarrow> 'w chan_ops \<Rightarrow> 'w chan_env \<Rightarrow> map_orders \<Rightarrow> (rat \<Rightarrow> rat) \<Rightarrow>
     ('s, 'w) fine_system \<Rightarrow> ('s, 'w) fine_system \<Rightarrow> bool"
  for sem ops env it rnd
where
  accept: "fine_step sem ops env it rnd s (fine_accept sem accepted s)"
| cleanup: "fine_step sem ops env it rnd s (s\<lparr>common := snd (cleanup_rate_limits time (common s))\<rparr>)"
| turn: "running s = before @ (t, g) # after \<Longrightarrow> fine_inputs_ok env i s \<Longrightarrow> may_run t g s \<Longrightarrow>
    fine_step sem ops env it rnd s (section_turn sem ops it rnd i before t g after s)"
| received: "recv env (channels (common s) c) w \<Longrightarrow>
    fine_step sem ops env it rnd s (s\<lparr>common := (common s)\<lparr>channels := (channels (common s))(c := w)\<rparr>\<rparr>)"
| writer_done: "running s = before @ (t, Start) # after \<Longrightarrow> phase t = Writing u tok \<Longrightarrow>
    fine_step sem ops env it rnd s (s\<lparr>running := before @ after\<rparr>)"

inductive fine_reachable ::
  "'s sem_ops \<Rightarrow> 'w chan_ops \<Rightarrow> 'w chan_env \<Rightarrow> map_orders \<Rightarrow> (rat \<Rightarrow> rat) \<Rightarrow> 's \<Rightarrow> (chan_id \<Rightarrow> 'w) \<Rightarrow>
     ('s, 'w) fine_system \<Rightarrow> bool"
  for sem ops env it rnd permits chans
where
  start: "fine_reachable sem ops env it rnd permits chans (fine_new permits chans)"
| step: "fine_reachable sem ops env it rnd permits chans s \<Longrightarrow> fine_step sem ops env it rnd s s' \<Longrightarrow>
    fine_reachable sem ops env it rnd permits chans s'"

end
