(* ===== verification/Sections_Facts.thy ===== *)
theory Sections_Facts
  imports Sections
begin

section \<open>Facts about the critical sections\<close>

text \<open>
  The calls of \<open>Server\<close> are the iteration of their sections, shown for each kind of call and then
  for a task; and what the two sections that walk the delivery registry do to a sound state.
\<close>

subsection \<open>The sections of a call, run without interruption, are the call\<close>

lemma broadcast_sections:
  "broadcast ops it st m ex =
     seq (broadcast_section ops it st m ex) (\<lambda>ds st. seq (drop_doomed st ds) (\<lambda>_ st. (Ok (ds \<noteq> []), st)))"
  by (simp add: broadcast_def broadcast_section_def Let_def split: prod.split)

lemma prune_sections: "prune_overloaded_clients ops it st = seq (prune_section ops it st) (\<lambda>ds st. drop_doomed st ds)"
  by (simp add: prune_overloaded_clients_def prune_section_def)

text \<open>\<open>comes_to f g st out\<close>: repeating the sections \<open>f\<close> from stage \<open>g\<close> ends with the result \<open>out\<close>.\<close>

inductive comes_to ::
  "(stage \<Rightarrow> 'w server_state \<Rightarrow> ('a, 'w) section_result) \<Rightarrow> stage \<Rightarrow> 'w server_state \<Rightarrow>
     ('a, server_error) result \<times> 'w server_state \<Rightarrow> bool"
  for f
where
  returns: "f g st = (Inr r, st') \<Longrightarrow> comes_to f g st (r, st')"
| goes_on: "f g st = (Inl g', st') \<Longrightarrow> comes_to f g' st' out \<Longrightarrow> comes_to f g st out"

lemma comes_to_section:
  assumes "f g st = in_section out nxt"
    and "\<And>x st'. out = (Ok x, st') \<Longrightarrow> comes_to f (nxt x) st' (rest x st')"
  shows "comes_to f g st (seq out rest)"
proof (cases out)
  case (Pair r st')
  with assms show ?thesis by (cases r) (auto intro: returns goes_on)
qed

lemma dropping_sections:
  assumes "\<And>a tok ds st. f (nxt ((a, tok) # ds)) st = in_section (one (remove_client_if_current st a tok)) (\<lambda>_. nxt ds)"
    and "\<And>st. comes_to f (nxt []) st (rest st)"
    and "\<And>out g. many (seq out g) = seq (one out) (\<lambda>x st. many (g x st))" "\<And>st. many (Ok (), st) = (Ok (), st)"
  shows "comes_to f (nxt ds) st (seq (many (drop_doomed st ds)) (\<lambda>_ st. rest st))"
proof (induction ds arbitrary: st)
  case Nil
  then show ?case using assms(2,4) by simp
next
  case (Cons d ds)
  obtain a tok where d: "d = (a, tok)" by (cases d)
  have "comes_to f (nxt (d # ds)) st
      (seq (one (remove_client_if_current st a tok)) (\<lambda>_ st. seq (many (drop_doomed st ds)) (\<lambda>_ st. rest st)))"
    unfolding d by (rule comes_to_section, rule assms(1), rule Cons.IH)
  then show ?case by (simp add: d assms(3) seq_assoc)
qed

lemma presence_sections: "comes_to (presence_section ops it) Start st (broadcast_presence ops it st)"
proof -
  let ?f = "presence_section ops it"
  let ?names = "\<lambda>st. seq (usernames (clients_order it) st) (\<lambda>users st.
     case encode_presence users of Ok frame \<Rightarrow> (Ok frame, st) | Err _ \<Rightarrow> (Err PresenceEncodingFailed, st) | Panic \<Rightarrow> (Panic, st))"
  have drop: "comes_to ?f (Updating (Dropping ds)) st (seq (drop_doomed st ds) (\<lambda>_ st. (Ok (), st)))" for ds st
    by (rule dropping_sections [where nxt = "\<lambda>ds. Updating (Dropping ds)" and one = "\<lambda>x. x" and many = "\<lambda>x. x"])
       (simp_all add: comes_to.returns)
  have spread: "comes_to ?f (Updating (Spreading frame)) st (seq (broadcast ops it st frame None) (\<lambda>_ st. (Ok (), st)))" for frame st
    unfolding broadcast_sections seq_assoc seq.simps
    by (rule comes_to_section, rule presence_section.simps(4), rule drop)
  have list: "comes_to ?f (Updating (Pruning [])) st (seq (?names st) (\<lambda>frame st. seq (broadcast ops it st frame None) (\<lambda>_ st. (Ok (), st))))" for st
    by (rule comes_to_section, rule presence_section.simps(3), rule spread)
  have prune: "comes_to ?f (Updating (Pruning ds)) st
      (seq (drop_doomed st ds) (\<lambda>_ st. seq (?names st) (\<lambda>frame st. seq (broadcast ops it st frame None) (\<lambda>_ st. (Ok (), st)))))" for ds st
    by (rule dropping_sections [where nxt = "\<lambda>ds. Updating (Pruning ds)" and one = "\<lambda>x. x" and many = "\<lambda>x. x"]) (simp_all add: list)
  have "broadcast_presence ops it st = seq (prune_section ops it st) (\<lambda>ds st. seq (drop_doomed st ds) (\<lambda>_ st.
      seq (?names st) (\<lambda>frame st. seq (broadcast ops it st frame None) (\<lambda>_ st. (Ok (), st)))))"
  proof -
    have "seq (case r of Ok frame \<Rightarrow> (Ok frame, st) | Err _ \<Rightarrow> (Err PresenceEncodingFailed, st) | Panic \<Rightarrow> (Panic, st)) k =
        (case r of Ok frame \<Rightarrow> k frame st | Err _ \<Rightarrow> (Err PresenceEncodingFailed, st) | Panic \<Rightarrow> (Panic, st))"
      for r :: "(bytes, frame_error) result" and k :: "bytes \<Rightarrow> 'a server_state \<Rightarrow> (unit, server_error) result \<times> 'a server_state" and st
      by (cases r) simp_all
    then show ?thesis by (simp add: broadcast_presence_def prune_sections seq_assoc)
  qed
  then show ?thesis by (simp only:) (rule comes_to_section, rule presence_section.simps(1), rule prune)
qed

lemma under_barrier_seq: "under_barrier (seq out f) = seq (under_barrier out) (\<lambda>x st. under_barrier (f x st))"
  by (cases out; cases "fst out") auto

lemma line_sections: "comes_to (line_section ops it line content) Start st (record_line ops it st line content)"
proof -
  let ?f = "line_section ops it line content"
  have evict: "comes_to ?f (Recording (Evicting ds b)) st (seq (under_barrier (drop_doomed st ds)) (\<lambda>_ st. (Ok b, st)))" for ds b st
    by (rule dropping_sections [where nxt = "\<lambda>ds. Recording (Evicting ds b)" and one = under_barrier and many = under_barrier])
       (simp_all add: comes_to.returns under_barrier_seq)
  have spread: "comes_to ?f (Recording (Recorded l frame)) st (under_barrier (broadcast ops it st frame None))" for l frame st
    unfolding broadcast_sections under_barrier_seq
    by (rule comes_to_section, rule line_section.simps(2), simp add: evict)
  show ?thesis
  proof (cases "encode_frame Chat (as_bytes content)")
    case (Ok f)
    then show ?thesis
      by (auto simp: record_line_def record_and_broadcast_def intro: comes_to.returns comes_to.goes_on [OF _ spread])
  qed (simp_all add: record_line_def comes_to.returns)
qed

lemma send_lines_sections:
  "comes_to (replay_section ops a tok) (Replaying (Sending w ls)) st
     (under_barrier (let (r, c) = send_lines ops ls (channels st w) in
       seq (r, st\<lparr>channels := (channels st)(w := c)\<rparr>) (\<lambda>_ st. mark_client_ready ops st a tok)))"
proof (induction ls arbitrary: st)
  case Nil
  have "st\<lparr>channels := (channels st)(w := channels st w)\<rparr> = st" by simp
  then show ?case
    by (cases "under_barrier (mark_client_ready ops st a tok)") (simp add: comes_to.returns del: fun_upd_apply)
next
  case (Cons l ls)
  show ?case
  proof (cases "encode_frame Chat (as_bytes l)")
    case (Ok f)
    show ?thesis
    proof (cases "try_send ops (channels st w) f")
      case (Pair status c)
      show ?thesis
      proof (cases status)
        case Sent
        let ?st = "st\<lparr>channels := (channels st)(w := c)\<rparr>"
        from Cons.IH [of ?st] have "comes_to (replay_section ops a tok) (Replaying (Sending w ls)) ?st
            (under_barrier (let (r, c') = send_lines ops ls c in
              seq (r, st\<lparr>channels := (channels st)(w := c')\<rparr>) (\<lambda>_ st. mark_client_ready ops st a tok)))"
          by (simp del: fun_upd_apply add: fun_upd_same)
        with Ok Pair Sent show ?thesis by - (rule comes_to.goes_on [where st' = ?st], simp_all del: fun_upd_apply)
      qed (use Ok Pair in \<open>simp_all add: comes_to.returns del: fun_upd_apply\<close>)
    qed
  qed (simp_all add: comes_to.returns del: fun_upd_apply)
qed

lemma replay_sections: "comes_to (replay_section ops a tok) Start st (send_message_history ops st a tok)"
proof (cases "poisoned (replay_barrier st) \<or> poisoned (deliveries st) \<or> find_client a tok (outboxes st) = None")
  case True
  then show ?thesis
    by (auto simp: send_message_history_def with_history_replay_def history_snapshot_unlocked_def intro!: comes_to.returns)
next
  case False
  then obtain d where d: "find_client a tok (outboxes st) = Some d" by auto
  have "comes_to (replay_section ops a tok) (Replaying (Copying (cd_writer d))) st (send_message_history ops st a tok)"
  proof (cases "poisoned (history st)")
    case True
    with False d show ?thesis
      by (auto simp: send_message_history_def with_history_replay_def history_snapshot_unlocked_def intro!: comes_to.returns)
  next
    case h: False
    with False d send_lines_sections [of ops a tok "cd_writer d" "snapshot (guarded (history st))" st] show ?thesis
      by - (rule comes_to.goes_on [where g' = "Replaying (Sending (cd_writer d) (snapshot (guarded (history st))))" and st' = st],
        simp_all add: send_message_history_def with_history_replay_def history_snapshot_unlocked_def)
  qed
  with False d show ?thesis
    by - (rule comes_to.goes_on [where g' = "Replaying (Copying (cd_writer d))" and st' = st], simp_all)
qed

lemma run_resume:
  assumes "comes_to f g st out"
    and "\<And>g st. task_section ops it rnd i a p g st = resume (f g st) next failed"
  shows "\<exists>n. run_sections ops it rnd i a p n g st = (case after_call out next failed of (x, st') \<Rightarrow> (Inr x, st'))"
  using assms(1)
proof (induction rule: comes_to.induct)
  case (returns g st r st')
  then show ?case by (intro exI [of _ 1]) (simp add: assms(2) split: prod.split)
next
  case (goes_on g st g' st' out)
  then obtain n where "run_sections ops it rnd i a p n g' st' = (case after_call out next failed of (x, st') \<Rightarrow> (Inr x, st'))"
    by blast
  with goes_on.hyps(1) show ?case by (intro exI [of _ "Suc n"]) (simp add: assms(2))
qed

text \<open>
  C10. The critical sections of a call implement it: whatever the phase of the task and whatever
  the shared state, its sections run one after the other end, and end with exactly the result
  and the state of the call.
\<close>

theorem sections_implement_call:
  "\<exists>n. run_sections ops it rnd i a p n Start st =
     (case task_call ops it rnd i a p st of (x, st') \<Rightarrow> (Inr x, st'))"
proof -
  note run = run_resume [OF presence_sections] run_resume [OF replay_sections] run_resume [OF line_sections]
  show ?thesis
  proof (cases p)
    case (Replay u tok)
    then show ?thesis unfolding Replay task_call.simps by (intro run) simp
  next
    case (ShowUsers u tok)
    then show ?thesis unfolding ShowUsers task_call.simps by (intro run) simp
  next
    case (RecordJoin u tok)
    then show ?thesis unfolding RecordJoin task_call.simps by (intro run) simp
  next
    case (JoinUsers u tok)
    then show ?thesis unfolding JoinUsers task_call.simps by (intro run) simp
  next
    case (Compose u tok content)
    then show ?thesis unfolding Compose task_call.simps Let_def by (intro run) (simp add: Let_def)
  next
    case (LineUsers u tok)
    then show ?thesis unfolding LineUsers task_call.simps by (intro run) simp
  next
    case (RecordLeave u tok failed)
    then show ?thesis unfolding RecordLeave task_call.simps by (intro run) simp
  next
    case (LeaveUsers u tok failed)
    then show ?thesis unfolding LeaveUsers task_call.simps by (intro run) simp
  next
    case (WriterLeave u tok)
    then show ?thesis unfolding WriterLeave task_call.simps by (intro run) simp
  next
    case WriterUsers
    then show ?thesis unfolding WriterUsers task_call.simps by (intro run) simp
  qed (rule exI [of _ 1], simp del: task_call.simps split: prod.split)+
qed

subsection \<open>A section keeps the shared state sound\<close>

lemma flat_outboxes_length:
  assumes "settled st"
  shows "length (concat (map snd (outboxes st))) \<le> MAX_CONNECTIONS"
proof -
  note inv = settledD(1) [OF assms]
  have dinv: "delivery_inv (outboxes st)" and wf: "hm_wf (outboxes st)"
    and r: "registry_inv (next_token st) (guarded (clients st))"
    using inv by (simp_all add: server_inv_def delivery_inv_def)
  let ?ds = "concat (map snd (outboxes st))" and ?id = "\<lambda>d. (cd_addr d, cd_token d)"
  have in_ds: "d \<in> set ?ds \<longleftrightarrow> (\<exists>a. d \<in> set (hm_or [] a (outboxes st)))" for d using set_flatten [OF wf] by auto
  have addr: "d \<in> set (hm_or [] a (outboxes st)) \<Longrightarrow> cd_addr d = a" for a d
    using delivery_inv_or [OF dinv] by (simp add: delivery_ok_def)
  have "distinct ?ds" using own_channels_flat [OF wf settledD(2) [OF assms]] by (simp only: distinct_map)
  then have "length ?ds = card (set ?ds)" by (rule distinct_card [symmetric])
  also have "\<dots> = card (?id ` set ?ds)"
  proof (rule card_image [symmetric], rule inj_onI)
    fix d e assume "d \<in> set ?ds" "e \<in> set ?ds" "?id d = ?id e"
    then show "d = e" unfolding in_ds using addr outbox_tokens_distinct [OF inv] by (metis prod.inject)
  qed
  also have "\<dots> \<le> card (members st)"
  proof (rule card_mono [OF members_card(1) [OF inv]], rule image_subsetI)
    fix d assume "d \<in> set ?ds"
    then obtain a where d: "d \<in> set (hm_or [] a (outboxes st))" unfolding in_ds by blast
    then have "find_client a (cd_token d) (outboxes st) = Some d" using find_client_iff [OF inv] by blast
    then show "?id d \<in> members st" using find_client_None [OF inv, of a "cd_token d"] addr [OF d] by auto
  qed
  also have "\<dots> = total (guarded (clients st))" by (rule members_card(2) [OF inv])
  also have "\<dots> \<le> MAX_CONNECTIONS" using registry_invD(6) [OF r] .
  finally show ?thesis .
qed

lemma broadcast_section_spec:
  assumes "settled st" "orders_ok it"
  obtains ds st' where
    "broadcast_section ops it st m ex = (Ok ds, st')" "settled st'" "clients st' = clients st" "history st' = history st"
    "next_token st' = next_token st" "members st' = members st"
    "channels st' = sent_channels ops m ex (concat (map snd (outboxes st))) (channels st)"
    "\<And>a. hm_or [] a (outboxes st') = map (after_broadcast m ex) (hm_or [] a (outboxes st))"
    "\<And>a tok. (a, tok) \<in> set ds \<longleftrightarrow>
       (\<exists>d \<in> set (hm_or [] a (outboxes st)). cd_token d = tok \<and> cannot_serve ops (channels st) m ex d)"
    "length ds \<le> MAX_CONNECTIONS"
proof -
  note inv = settledD(1) [OF assms(1)]
  have wf: "hm_wf (outboxes st)" and dinv: "delivery_inv (outboxes st)" and h: "\<not> poisoned (deliveries st)"
    using inv by (simp_all add: server_inv_def delivery_inv_def healthy_def)
  have iter: "iteration (deliveries_order it)" using assms(2) by (simp add: orders_ok_def)
  obtain dl dm where
    k: "broadcast_keys ops m ex (deliveries_order it (hm_keys (outboxes st))) (outboxes st) (channels st) =
      (dl, sent_channels ops m ex (concat (map snd (outboxes st))) (channels st), dm)" "hm_wf dl"
      "\<And>a. hm_get a dl = map_option (map (after_broadcast m ex)) (hm_get a (outboxes st))"
    and dm: "set (map (\<lambda>(a, t, _). (a, t)) dm) =
      {(cd_addr d, cd_token d) | d. d \<in> (\<Union>a. set (hm_or [] a (outboxes st))) \<and> cannot_serve ops (channels st) m ex d}"
      "length dm \<le> length (concat (map snd (outboxes st)))"
    by (rule broadcast_keys_spec [OF wf iter settledD(2) [OF assms(1)], of ops m ex "channels st"], rule that)
  let ?st' = "st\<lparr>deliveries := mutex_set dl (deliveries st),
    channels := sent_channels ops m ex (concat (map snd (outboxes st))) (channels st)\<rparr>"
  let ?ds = "map (\<lambda>(a, t, _). (a, t)) dm"
  have o: "hm_or [] a (outboxes ?st') = map (after_broadcast m ex) (hm_or [] a (outboxes st))" for a
    by (simp add: hm_or_def k(3) split: option.split)
  have inv': "server_inv ?st'" using inv k(2,3) by (rule server_inv_after_sends)
  have "\<exists>P f. (\<forall>d. cd_writer (f d) = cd_writer d) \<and> hm_or [] a (outboxes ?st') = map f (filter P (hm_or [] a (outboxes st)))" for a
    unfolding o by (intro exI [of _ "\<lambda>_. True"] exI [of _ "after_broadcast m ex"]) simp
  with settledD(2) [OF assms(1)] have own: "own_channels (outboxes ?st')" by (rule own_channels_less)
  show ?thesis
  proof (rule that [of ?ds ?st'])
    show "broadcast_section ops it st m ex = (Ok ?ds, ?st')" using h k(1) by (simp add: broadcast_section_def)
    show "settled ?st'" using inv' own settledD(3) [OF assms(1)] by (simp add: settled_def names_ok_def)
    show "(a, tok) \<in> set ?ds \<longleftrightarrow>
       (\<exists>d \<in> set (hm_or [] a (outboxes st)). cd_token d = tok \<and> cannot_serve ops (channels st) m ex d)" for a tok
      unfolding dm(1) using delivery_inv_or [OF dinv] by (auto simp: delivery_ok_def)
    show "length ?ds \<le> MAX_CONNECTIONS" using dm(2) flat_outboxes_length [OF assms(1)] by simp
  qed (use o in \<open>simp_all add: members_def\<close>)
qed

end
