(* ===== verification/Sections_Inv.thy ===== *)
theory Sections_Inv
  imports Sections_Facts
begin

section \<open>What the server keeps between any two critical sections\<close>

text \<open>
  The invariant of \<open>Server_Facts\<close> holds between any two critical sections as well, the replay
  barrier is held by exactly one task when it is held, and its holder is never blocked and has
  only a bounded number of sections left.
\<close>

subsection \<open>Stages that fit the phase\<close>

fun fits :: "phase \<Rightarrow> stage \<Rightarrow> bool" where
  "fits p Start = True"
| "fits p (Updating r) = (kind_of_call p = Presence_update)"
| "fits p (Recording r) = (kind_of_call p = Line)"
| "fits p (Replaying r) = (\<exists>u tok. p = Replay u tok)"

lemma fits_holds: "fits p g \<Longrightarrow> g \<noteq> Start \<Longrightarrow> holds_barrier g \<longleftrightarrow> takes_barrier p"
  by (cases g) auto

subsection \<open>A section keeps the shared state sound\<close>

definition calm :: "'w server_state \<Rightarrow> 'w server_state \<Rightarrow> bool" where
  "calm st st' \<longleftrightarrow> sound st' \<and> next_token st' = next_token st \<and> members st' \<subseteq> members st"

lemma calm_refl: "sound st \<Longrightarrow> calm st st"
  by (simp add: calm_def)

lemma remove_calm:
  assumes "sound st"
  obtains b st' where "remove_client_if_current st a tok = (Ok b, st')" "calm st st'"
proof -
  obtain st' where "remove_client_if_current st a tok = (Ok ((a, tok) \<in> members st), st')" "sound st'" "shrinks st st'"
    by (rule remove_sound [OF assms], rule that)
  with shrinks_frame that show ?thesis by (auto simp: calm_def)
qed

lemma broadcast_section_calm:
  assumes "sound st" "orders_ok it"
  obtains ds st' where "broadcast_section ops it st m ex = (Ok ds, st')" "calm st st'" "length ds \<le> MAX_CONNECTIONS"
proof -
  obtain ds st' where b: "broadcast_section ops it st m ex = (Ok ds, st')" "settled st'" "clients st' = clients st"
    "history st' = history st" "next_token st' = next_token st" "members st' = members st" "length ds \<le> MAX_CONNECTIONS"
    by (rule broadcast_section_spec [OF sound_settled [OF assms(1)] assms(2), of ops m ex], rule that)
  with sound_same_history [OF assms(1) b(2,4)] that show ?thesis by (simp add: calm_def)
qed

lemma list_names:
  assumes "sound st" "orders_ok it"
  obtains us where "usernames (clients_order it) st = (Ok us, st)"
    "encode_presence us = Ok (frame_bytes \<lparr>version = CURRENT_PROTOCOL_VERSION, kind = Presence, payload = presence_payload us\<rparr>)"
    "wf_frame \<lparr>version = CURRENT_PROTOCOL_VERSION, kind = Presence, payload = presence_payload us\<rparr>"
proof -
  have "iteration (clients_order it)" using assms(2) by (simp add: orders_ok_def)
  from usernames_settled [OF sound_settled [OF assms(1)] this] obtain us where
    "usernames (clients_order it) st = (Ok us, st)" "list_all registered_name us" "length us \<le> MAX_CONNECTIONS" by metis
  with encode_presence_registered that show ?thesis by metis
qed

lemma presence_section_calm:
  assumes "sound st" "orders_ok it" "g = Start \<or> (\<exists>r. g = Updating r)"
  obtains (goes_on) r st' where "presence_section ops it g st = (Inl (Updating r), st')" "calm st st'"
    | (returns) st' where "presence_section ops it g st = (Inr (Ok ()), st')" "calm st st'"
proof -
  have h: "\<not> poisoned (deliveries st)" using assms(1) by (simp add: sound_def settled_def server_inv_def healthy_def)
  consider (start) "g = Start" | (prune) a tok ds where "g = Updating (Pruning ((a, tok) # ds))" | (names) "g = Updating (Pruning [])"
    | (spread) f where "g = Updating (Spreading f)" | (drop) a tok ds where "g = Updating (Dropping ((a, tok) # ds))"
    | (ended) "g = Updating (Dropping [])"
    using assms(3) by (metis list.exhaust presence_stage.exhaust surj_pair)
  then show ?thesis
  proof cases
    case start
    with h goes_on calm_refl [OF assms(1)] show ?thesis by (simp add: prune_section_def)
  next
    case prune
    obtain b st' where "remove_client_if_current st a tok = (Ok b, st')" "calm st st'" by (rule remove_calm [OF assms(1)])
    with prune goes_on show ?thesis by simp
  next
    case names
    obtain us where "usernames (clients_order it) st = (Ok us, st)"
      "encode_presence us = Ok (frame_bytes \<lparr>version = CURRENT_PROTOCOL_VERSION, kind = Presence, payload = presence_payload us\<rparr>)"
      by (rule list_names [OF assms(1,2)])
    with names goes_on calm_refl [OF assms(1)] show ?thesis by simp
  next
    case spread
    obtain ds st' where "broadcast_section ops it st f None = (Ok ds, st')" "calm st st'"
      by (rule broadcast_section_calm [OF assms(1,2)])
    with spread goes_on show ?thesis by simp
  next
    case drop
    obtain b st' where "remove_client_if_current st a tok = (Ok b, st')" "calm st st'" by (rule remove_calm [OF assms(1)])
    with drop goes_on show ?thesis by simp
  next
    case ended
    with returns calm_refl [OF assms(1)] show ?thesis by simp
  qed
qed

lemma line_section_calm:
  assumes "sound st" "orders_ok it" "g = Start \<or> (\<exists>r. g = Recording r)" "short_line line" "short_line content"
  obtains (goes_on) r st' where "line_section ops it line content g st = (Inl (Recording r), st')" "calm st st'"
    | (returns) b st' where "line_section ops it line content g st = (Inr (Ok b), st')" "calm st st'"
proof -
  have h: "\<not> poisoned (replay_barrier st)" "\<not> poisoned (history st)"
    using assms(1) by (simp_all add: sound_def settled_def server_inv_def healthy_def)
  consider (start) "g = Start" | (spread) l f where "g = Recording (Recorded l f)"
    | (evict) a tok ds b where "g = Recording (Evicting ((a, tok) # ds) b)" | (ended) b where "g = Recording (Evicting [] b)"
    using assms(3) by (metis list.exhaust line_stage.exhaust surj_pair)
  then show ?thesis
  proof cases
    case start
    let ?st = "st\<lparr>history := mutex_set (history_record line (guarded (history st))) (history st)\<rparr>"
    have "settled ?st" using sound_settled [OF assms(1)] by (simp add: settled_def server_inv_def healthy_def names_ok_def)
    then have "sound ?st" by (rule sound_record [OF assms(1) _ assms(4)]) simp
    then have "calm st ?st" by (simp add: calm_def members_def)
    with start h goes_on encode_short [OF assms(5)] show ?thesis by simp
  next
    case spread
    obtain ds st' where "broadcast_section ops it st f None = (Ok ds, st')" "calm st st'"
      by (rule broadcast_section_calm [OF assms(1,2)])
    with spread goes_on show ?thesis by simp
  next
    case evict
    obtain x st' where "remove_client_if_current st a tok = (Ok x, st')" "calm st st'" by (rule remove_calm [OF assms(1)])
    with evict goes_on show ?thesis by simp
  next
    case ended
    with returns calm_refl [OF assms(1)] show ?thesis by simp
  qed
qed

lemma replay_section_calm:
  assumes "sound st" "g = Start \<or> (\<exists>r. g = Replaying r)"
  obtains (goes_on) r st' where "replay_section ops a tok g st = (Inl (Replaying r), st')" "calm st st'"
    | (returns) r st' where "replay_section ops a tok g st = (Inr r, st')" "r \<noteq> Panic" "calm st st'" "members st' = members st"
proof -
  have h: "\<not> poisoned (replay_barrier st)" "\<not> poisoned (history st)" "\<not> poisoned (deliveries st)"
    using assms(1) by (simp_all add: sound_def settled_def server_inv_def healthy_def)
  have chans: "calm st (st\<lparr>channels := c\<rparr>)" for c using assms(1) by (simp add: calm_def)
  have short: "\<exists>f. encode_frame Chat (as_bytes l) = Ok f \<or> (\<exists>e. encode_frame Chat (as_bytes l) = Err e)" for l
    by (cases "encode_frame Chat (as_bytes l)") (auto simp: encode_frame_def Let_def split: if_splits)
  consider (start) "g = Start" | (copy) w where "g = Replaying (Copying w)"
    | (send) w l ls where "g = Replaying (Sending w (l # ls))" | (mark) w where "g = Replaying (Sending w [])"
    using assms(2) by (metis list.exhaust replay_stage.exhaust)
  then show ?thesis
  proof cases
    case start
    with h goes_on returns calm_refl [OF assms(1)] show ?thesis by (cases "find_client a tok (outboxes st)") auto
  next
    case copy
    with h goes_on calm_refl [OF assms(1)] show ?thesis by simp
  next
    case send
    show ?thesis
    proof (cases "encode_frame Chat (as_bytes l)")
      case (Ok f)
      obtain status c where "try_send ops (channels st w) f = (status, c)" by fastforce
      with send Ok goes_on returns chans show ?thesis by (cases status) (auto simp del: fun_upd_apply)
    next
      case (Err e)
      with send returns calm_refl [OF assms(1)] show ?thesis by simp
    next
      case Panic
      with short [of l] show ?thesis by simp
    qed
  next
    case mark
    obtain r st' where m: "mark_client_ready ops st a tok = (r, st')" by fastforce
    with mark_client_ready_sound [OF assms(1), of ops a tok] have r: "sound st'" "r \<noteq> Panic" by auto
    have "members st' = members st" "next_token st' = next_token st"
      using mark_client_ready_frame(1) [of ops st a tok] mark_client_ready_token [of ops st a tok] m by (simp_all add: members_def)
    moreover have "under_barrier (r, st') = (r, st')" using r(2) by (cases r) simp_all
    ultimately show ?thesis using mark m r returns [of r st'] by (simp add: calm_def)
  qed
qed

text \<open>A section either goes on with the call or returns as the call may.\<close>

definition section_sound :: "socket_addr \<Rightarrow> phase \<Rightarrow> stage + (phase option, unit) result \<Rightarrow> 'w server_state \<Rightarrow> 'w server_state \<Rightarrow> bool" where
  "section_sound a p r st st' \<longleftrightarrow>
     (case r of
        Inl g \<Rightarrow> calm st st' \<and> g \<noteq> Start \<and> fits p g
      | Inr x \<Rightarrow> (\<exists>q. x = Ok q \<and> call_sound a p q st st'))"

lemma calm_call: "calm st st' \<Longrightarrow> sound st' \<and> next_token st' = next_token st \<and> members st' \<subseteq> members st"
  by (simp add: calm_def)

lemma task_section_sound:
  assumes "sound st" "orders_ok it" "phase_ok p" "fits p g" "inputs_ok i st"
  obtains r st' where "task_section ops it rnd i a p g st = (r, st')" "section_sound a p r st st'"
proof -
  let ?good = "\<exists>r st'. task_section ops it rnd i a p g st = (r, st') \<and> section_sound a p r st st'"
  have presence: ?good if k: "kind_of_call p = Presence_update"
  proof -
    have g: "g = Start \<or> (\<exists>r. g = Updating r)" using assms(4) k by (cases g) auto
    show ?thesis
      by (rule presence_section_calm [OF assms(1,2) g, of ops])
        (use k assms(3) in \<open>cases p; force simp: section_sound_def call_defs dest: calm_call\<close>)+
  qed
  have line: ?good if k: "kind_of_call p = Line"
  proof -
    have g: "g = Start \<or> (\<exists>r. g = Recording r)" using assms(4) k by (cases g) auto
    have go: ?good if eq: "task_section ops it rnd i a p g st =
        resume (line_section ops it line content g st) nxt failed"
      and short: "short_line line" "short_line content"
      and nxt: "\<And>b st'. calm st st' \<Longrightarrow> call_sound a p (nxt b) st st'"
      for line content nxt failed
      by (rule line_section_calm [OF assms(1,2) g short, of ops])
        (use k nxt in \<open>auto simp: eq section_sound_def\<close>)
    note name = assms(3) [unfolded phase_ok_def]
    have t: "str_len (time_of_day i) = 5" using assms(5) by (simp add: inputs_ok_def)
    show ?thesis
    proof (cases p)
      case (RecordJoin u tok)
      then show ?thesis
        using name by (intro go [OF task_section.simps(3) [of ops it rnd i a u tok g st, folded RecordJoin]])
          (auto simp: short_join_leave call_defs dest: calm_call)
    next
      case (Compose u tok c)
      with name t have "short_line (format_chat_message u (time_of_day i) c)"
        using short_message [of u c "time_of_day i"] by (auto simp: registered_name_def)
      then show ?thesis
        using name Compose by (intro go [OF task_section.simps(5) [of ops it rnd i a u tok c g st, folded Compose, unfolded Let_def]])
          (auto simp: call_defs dest: calm_call)
    next
      case (RecordLeave u tok f)
      then show ?thesis
        using name by (intro go [OF task_section.simps(7) [of ops it rnd i a u tok f g st, folded RecordLeave]])
          (auto simp: short_join_leave call_defs dest: calm_call)
    next
      case (WriterLeave u tok)
      then show ?thesis
        using name by (intro go [OF task_section.simps(9) [of ops it rnd i a u tok g st, folded WriterLeave]])
          (auto simp: short_join_leave call_defs dest: calm_call)
    qed (use k in simp_all)
  qed
  have replay: ?good if p: "p = Replay u tok" for u tok
  proof -
    have g: "g = Start \<or> (\<exists>r. g = Replaying r)" using assms(4) p by (cases g) auto
    consider (goes_on) r st' where "replay_section ops a tok g st = (Inl (Replaying r), st')" "calm st st'"
      | (returns) r st' where "replay_section ops a tok g st = (Inr r, st')" "r \<noteq> Panic" "calm st st'" "members st' = members st"
      by (rule replay_section_calm [OF assms(1) g, of ops a tok]) (rule that; assumption)+
    then show ?thesis
    proof cases
      case goes_on
      then show ?thesis by (auto simp: p section_sound_def)
    next
      case returns
      then show ?thesis using assms(3) calm_call [OF returns(3)]
        by (cases r) (auto simp: p section_sound_def call_defs)
    qed
  qed
  have atomic: ?good if "task_section ops it rnd i a p g st = (case task_call ops it rnd i a p st of (x, st) \<Rightarrow> (Inr x, st))"
  proof -
    obtain q st' where "task_call ops it rnd i a p st = (Ok q, st')" "call_sound a p q st st'"
      by (rule task_call_sound [OF assms(1-3,5), of ops rnd a], rule that)
    with that show ?thesis by (auto simp: section_sound_def)
  qed
  have ?good
  proof (cases "kind_of_call p = Presence_update \<or> kind_of_call p = Line \<or> (\<exists>u tok. p = Replay u tok)")
    case False
    then show ?thesis by (intro atomic) (cases p; simp del: task_call.simps)
  qed (use presence line replay in blast)
  then show ?thesis using that by blast
qed

end
