(* ===== verification/Fine_Inv.thy ===== *)
theory Fine_Inv
  imports Sections_Inv
begin

section \<open>The invariant between critical sections\<close>

text \<open>
  The invariant \<open>fine_inv\<close> of every state of \<open>Sections\<close>: the invariant of \<open>Server_Facts\<close>, stages that
  fit their phases, and at most one holder of the barrier. \<open>section_turn_cases\<close> says what a turn
  can do; the theories that follow prove their own invariants over its three cases.
\<close>

subsection \<open>The invariant\<close>

definition holders :: "(task \<times> stage) list \<Rightarrow> (task \<times> stage) list" where
  "holders ts = filter (\<lambda>(t, g). holds_barrier g) ts"

definition fine_inv :: "('s \<Rightarrow> nat) \<Rightarrow> ('s, 'w) fine_system \<Rightarrow> bool" where
  "fine_inv free s \<longleftrightarrow>
     system_inv free (coarse s) \<and> (\<forall>(t, g) \<in> set (running s). fits (phase t) g) \<and>
     length (holders (running s)) = (if locked s then 1 else 0)"

lemma holders_simps [simp]:
  "holders [] = []" "holders (xs @ ys) = holders xs @ holders ys"
  "holders ((t, g) # ts) = (if holds_barrier g then (t, g) # holders ts else holders ts)"
  "holders (map (\<lambda>t. (t, Start)) us) = []"
  by (simp_all add: holders_def)

lemma coarse_simps [simp]:
  "shared (coarse s) = common s" "admitting (coarse s) = admits s" "tasks (coarse s) = map fst (running s)"
  by (simp_all add: coarse_def)

lemma coarse_accept: "coarse (fine_accept sem accepted s) = accept_turn sem accepted (coarse s)"
  by (simp add: fine_accept_def accept_turn_def coarse_def split: result.split prod.split option.split)

lemma fine_new_inv: "free permits = MAX_CONNECTIONS \<Longrightarrow> fine_inv free (fine_new permits chans)"
  using system_new_inv [of free permits chans]
  by (simp add: fine_inv_def fine_new_def coarse_def system_new_def)

lemma fine_invD:
  assumes "fine_inv free s"
  shows "system_inv free (coarse s)" "(t, g) \<in> set (running s) \<Longrightarrow> fits (phase t) g"
    "length (holders (running s)) = (if locked s then 1 else 0)" "sound (common s)"
  using assms system_invD(1) [of free "coarse s"] by (auto simp: fine_inv_def)

lemma calm_inv:
  assumes "system_inv free s" "calm (shared s) st'"
  shows "system_inv free (s\<lparr>shared := st'\<rparr>)"
  using assms by (auto simp: system_inv_def calm_def)

lemma running_task:
  assumes "fine_inv free s" "running s = before @ (t, g) # after"
  shows "phase_ok (phase t)" "fits (phase t) g" "tasks (coarse s) = map fst before @ t # map fst after"
proof -
  have "list_all task_ok (map fst (running s))" using system_invD(2) [OF fine_invD(1) [OF assms(1)]] by simp
  with assms(2) show "phase_ok (phase t)" by (simp add: task_ok_def)
  show "fits (phase t) g" using fine_invD(2) [OF assms(1), of t g] assms(2) by simp
  show "tasks (coarse s) = map fst before @ t # map fst after" using assms(2) by simp
qed

text \<open>What a turn of a task does, by the result of its section.\<close>

lemma section_turn_cases:
  assumes "fine_inv free s" "orders_ok it" "running s = before @ (t, g) # after" "inputs_ok i (common s)"
  obtains (goes_on) g' st' where "task_section ops it rnd i (peer t) (phase t) g (common s) = (Inl g', st')"
      "calm (common s) st'" "g' \<noteq> Start" "fits (phase t) g'"
      "section_turn sem ops it rnd i before t g after s =
        s\<lparr>common := st', running := before @ (t, g') # after, locked := locked s \<or> holds_barrier g',
          record_log := record_log s @ recorded_by g g'\<rparr>"
    | (moves) p st' where "task_section ops it rnd i (peer t) (phase t) g (common s) = (Inr (Ok (Some p)), st')"
      "call_sound (peer t) (phase t) (Some p) (common s) st'"
      "section_turn sem ops it rnd i before t g after s =
        s\<lparr>common := st',
          running := before @ (t\<lparr>phase := p\<rparr>, Start) # after @ map (\<lambda>t. (t, Start)) (spawned (peer t) (phase t) (Some p)),
          locked := locked s \<and> \<not> holds_barrier g\<rparr>"
    | (ends) st' where "task_section ops it rnd i (peer t) (phase t) g (common s) = (Inr (Ok None), st')"
      "call_sound (peer t) (phase t) None (common s) st'"
      "section_turn sem ops it rnd i before t g after s =
        s\<lparr>common := st', admits := drop_held sem (holds t) (admits s), running := before @ after,
          locked := locked s \<and> \<not> holds_barrier g\<rparr>"
proof -
  note t = running_task [OF assms(1,3)]
  obtain r st' where r: "task_section ops it rnd i (peer t) (phase t) g (common s) = (r, st')"
    "section_sound (peer t) (phase t) r (common s) st'"
    by (rule task_section_sound [OF fine_invD(4) [OF assms(1)] assms(2) t(1,2) assms(4), of ops rnd "peer t"], rule that)
  show ?thesis
  proof (cases r)
    case (Inl g')
    with r show ?thesis by (intro goes_on [of g' st']) (simp_all add: section_sound_def section_turn_def)
  next
    case (Inr x)
    with r(2) obtain q where q: "x = Ok q" "call_sound (peer t) (phase t) q (common s) st'" by (auto simp: section_sound_def)
    show ?thesis
    proof (cases q)
      case None
      with r(1) Inr q show ?thesis by (intro ends [of st']) (simp_all add: section_turn_def)
    next
      case (Some p)
      with r(1) Inr q show ?thesis by (intro moves [of p st']) (simp_all add: section_turn_def)
    qed
  qed
qed

lemma fits_phase_Start: "(\<forall>(t, g) \<in> set (ts @ map (\<lambda>t. (t, Start)) us). fits (phase t) g) \<longleftrightarrow> (\<forall>(t, g) \<in> set ts. fits (phase t) g)"
  by auto

lemma section_turn_inv:
  assumes "semaphore sem free" "orders_ok it" "fine_inv free s" "running s = before @ (t, g) # after"
    "inputs_ok i (common s)" "may_run t g s"
  shows "fine_inv free (section_turn sem ops it rnd i before t g after s)"
proof -
  note inv = fine_invD [OF assms(3)]
  note t = running_task [OF assms(3,4)]
  have fit: "\<forall>(t, g) \<in> set (before @ after). fits (phase t) g" using inv(2) assms(4) by auto
  have hold: "length (holders before) + length (holders after) + (if holds_barrier g then 1 else 0) = (if locked s then 1 else 0)"
    using inv(3) assms(4) by (simp split: if_splits)
  note result = call_result_inv [OF assms(1) inv(1) t(3)]
  show ?thesis
  proof (cases rule: section_turn_cases [OF assms(3,2,4,5), of ops rnd sem])
    case (1 g' st')
    have "system_inv free (coarse s\<lparr>shared := st'\<rparr>)" using inv(1) 1(2) by (intro calm_inv) simp_all
    moreover have "(if holds_barrier g then 1 else 0) + (if \<not> locked s \<and> holds_barrier g' then 1 else 0) = (if holds_barrier g' then 1 else 0 :: nat)"
      using assms(6) hold fits_holds [OF t(2)] fits_holds [OF 1(4,3)]
      by (cases "g = Start") (auto simp: may_run_def split: if_splits)
    ultimately show ?thesis
      using 1(4) hold fit t(3) by (auto simp: 1(5) fine_inv_def coarse_def assms(4) split: if_splits)
  next
    case (2 p st')
    have "system_inv free (coarse s\<lparr>shared := st', tasks := map fst before @ t\<lparr>phase := p\<rparr> # map fst after @ spawned (peer t) (phase t) (Some p)\<rparr>)"
      by (rule result(2)) (simp_all add: 2(2))
    with fit hold show ?thesis
      by (auto simp: 2(3) fine_inv_def coarse_def comp_def split: if_splits)
  next
    case (3 st')
    have "system_inv free (coarse s\<lparr>shared := st', admitting := drop_held sem (holds t) (admits s), tasks := map fst before @ map fst after\<rparr>)"
      using result(1) [of None st'] 3(2) by simp
    with fit hold show ?thesis
      by (auto simp: 3(3) fine_inv_def coarse_def split: if_splits)
  qed
qed

lemma fine_step_inv:
  assumes "semaphore sem free" "orders_ok it"
  shows "fine_step sem ops env it rnd s s' \<Longrightarrow> fine_inv free s \<Longrightarrow> fine_inv free s'"
proof (induction rule: fine_step.induct)
  case (accept s accepted)
  then have "system_inv free (coarse (fine_accept sem accepted s))"
    unfolding coarse_accept by (intro accept_turn_inv [OF assms(1)]) (simp add: fine_inv_def)
  then show ?case
    using accept by (auto simp: fine_inv_def fine_accept_def split: result.splits prod.splits option.splits)
next
  case (cleanup s time)
  have "server_step sem ops it rnd (coarse s) (cleanup_tick time (coarse s))" by (rule server_step.cleanup)
  from server_step_inv [OF assms this] cleanup show ?case by (simp add: fine_inv_def coarse_def cleanup_tick_def)
next
  case (turn s before t g after i)
  then show ?case by (intro section_turn_inv [OF assms]) (simp_all add: fine_inputs_ok_def)
next
  case (received s c w)
  then have "system_inv free (coarse s\<lparr>shared := (common s)\<lparr>channels := (channels (common s))(c := w)\<rparr>\<rparr>)"
    by (intro calm_inv) (simp_all add: fine_inv_def calm_def fine_invD(4) system_invD(1) [of free "coarse s", simplified])
  with received show ?case by (simp add: fine_inv_def coarse_def)
next
  case (writer_done s before t after u tok)
  have "server_step sem ops it rnd (coarse s) ((coarse s)\<lparr>tasks := map fst before @ map fst after\<rparr>)"
    by (rule server_step.writer_done [OF _ writer_done(2)]) (simp add: writer_done(1))
  from server_step_inv [OF assms this] writer_done show ?case by (auto simp: fine_inv_def coarse_def)
qed

lemma fine_reachable_inv:
  assumes "semaphore sem free" "free permits = MAX_CONNECTIONS" "orders_ok it"
  shows "fine_reachable sem ops env it rnd permits chans s \<Longrightarrow> fine_inv free s"
proof (induction rule: fine_reachable.induct)
  case start
  then show ?case by (rule fine_new_inv [where free = free, OF assms(2)])
next
  case (step s s')
  then show ?case using fine_step_inv [OF assms(1,3)] by blast
qed

lemma fine_reachable_steps:
  assumes "fine_reachable sem ops env it rnd permits chans s" "(fine_step sem ops env it rnd)\<^sup>*\<^sup>* s s'"
  shows "fine_reachable sem ops env it rnd permits chans s'"
  using assms(2,1) by induction (auto intro: fine_reachable.step)

end
