(* ===== verification/Barrier.thy ===== *)
theory Barrier
  imports Fine_Inv
begin

subsection \<open>The barrier is given back\<close>

text \<open>How many sections the holder of the barrier has left at most.\<close>

fun sections_left :: "stage \<Rightarrow> nat" where
  "sections_left (Recording (Recorded l f)) = MAX_CONNECTIONS + 2"
| "sections_left (Recording (Evicting ds b)) = length ds + 1"
| "sections_left (Replaying (Copying w)) = MESSAGE_HISTORY_LIMIT + 2"
| "sections_left (Replaying (Sending w ls)) = length ls + 1"
| "sections_left g = 0"

definition barrier_left :: "(task \<times> stage) list \<Rightarrow> nat" where
  "barrier_left ts = sum_list (map (\<lambda>(t, g). sections_left g) ts)"

lemma barrier_left_simps [simp]:
  "barrier_left [] = 0" "barrier_left (xs @ ys) = barrier_left xs + barrier_left ys"
  "barrier_left ((t, g) # ts) = sections_left g + barrier_left ts" "barrier_left (map (\<lambda>t. (t, Start)) us) = 0"
proof -
  show "barrier_left (map (\<lambda>t. (t, Start)) us) = 0" by (induction us) (simp_all add: barrier_left_def)
qed (simp_all add: barrier_left_def)

lemma sections_left_pos: "0 < sections_left g \<longleftrightarrow> holds_barrier g"
  by (cases g rule: sections_left.cases) auto

lemma no_holders_left: "holders ts = [] \<longleftrightarrow> barrier_left ts = 0"
  by (induction ts) (auto simp: sections_left_pos [symmetric] split: if_splits)

lemma in_section_Inl: "in_section out nxt = (Inl g', st') \<longleftrightarrow> (\<exists>x. out = (Ok x, st') \<and> g' = nxt x)"
  by (cases out; cases "fst out") auto

lemma under_barrier_Ok: "under_barrier out = (Ok x, st) \<longleftrightarrow> out = (Ok x, st)"
  by (cases out rule: under_barrier.cases) auto

lemma line_section_left:
  assumes "sound st" "orders_ok it" "line_section ops it line content g st = (Inl g', st')"
  shows "g = Start \<Longrightarrow> sections_left g' \<le> MAX_CONNECTIONS + 2"
    and "holds_barrier g \<Longrightarrow> (\<exists>r. g = Recording r) \<Longrightarrow> sections_left g' < sections_left g"
proof -
  have "(g = Start \<longrightarrow> sections_left g' \<le> MAX_CONNECTIONS + 2) \<and>
    (holds_barrier g \<longrightarrow> (\<exists>r. g = Recording r) \<longrightarrow> sections_left g' < sections_left g)"
  proof (cases "(ops, it, line, content, g, st)" rule: line_section.cases)
    case (2 ops it line content l f st)
    obtain ds st1 where "broadcast_section ops it st f None = (Ok ds, st1)" "length ds \<le> MAX_CONNECTIONS"
      by (rule broadcast_section_calm [of st it ops f None]) (use assms 2 in simp_all)
    with assms 2 show ?thesis by (auto simp: in_section_Inl under_barrier_Ok)
  qed (use assms in \<open>auto simp: in_section_Inl split: result.splits if_splits\<close>)
  then show "g = Start \<Longrightarrow> sections_left g' \<le> MAX_CONNECTIONS + 2"
    "holds_barrier g \<Longrightarrow> (\<exists>r. g = Recording r) \<Longrightarrow> sections_left g' < sections_left g" by simp_all
qed

lemma replay_section_left:
  assumes "sound st" "replay_section ops a tok g st = (Inl g', st')"
  shows "g = Start \<Longrightarrow> sections_left g' \<le> MAX_CONNECTIONS + 2"
    and "holds_barrier g \<Longrightarrow> (\<exists>r. g = Replaying r) \<Longrightarrow> sections_left g' < sections_left g"
proof -
  have hist: "length (retained st) \<le> MESSAGE_HISTORY_LIMIT" using assms(1) by (auto simp: sound_def history_ok_def)
  have "(g = Start \<longrightarrow> sections_left g' \<le> MAX_CONNECTIONS + 2) \<and>
    (holds_barrier g \<longrightarrow> (\<exists>r. g = Replaying r) \<longrightarrow> sections_left g' < sections_left g)"
    by (cases "(ops, a, tok, g, st)" rule: replay_section.cases)
      (use assms(2) hist in \<open>auto simp: snapshot_def limits split: result.splits if_splits option.splits prod.splits send_status.splits\<close>)
  then show "g = Start \<Longrightarrow> sections_left g' \<le> MAX_CONNECTIONS + 2"
    "holds_barrier g \<Longrightarrow> (\<exists>r. g = Replaying r) \<Longrightarrow> sections_left g' < sections_left g" by simp_all
qed

lemma resume_Inl: "resume out nxt failed = (Inl g', st') \<longleftrightarrow> out = (Inl g', st')"
  by (cases "(out, nxt, failed)" rule: resume.cases) (auto split: prod.splits)

text \<open>What a section that goes on is a section of. What is sent of a line is the line up to the end
  of line that its history entry lacks.\<close>

lemma announced_lines:
  "trim_end_matches 0x0A (trim_end (join_line u)) = trim_end_matches 0x0A (join_line u)"
  "trim_end_matches 0x0A (trim_end (leave_line u)) = trim_end_matches 0x0A (leave_line u)"
  by (simp_all add: join_line_def leave_line_def trim_end_def trim_end_matches_def lit_Cons lit_Nil is_whitespace_def)

lemma task_section_Inl:
  assumes "task_section ops it rnd i a p g st = (Inl g', st')"
  obtains (presence) "kind_of_call p = Presence_update" "presence_section ops it g st = (Inl g', st')"
    | (line) line content where "kind_of_call p = Line" "line_section ops it line content g st = (Inl g', st')"
      "trim_end_matches 0x0A content = trim_end_matches 0x0A line"
    | (replay) u tok where "p = Replay u tok" "replay_section ops a tok g st = (Inl g', st')"
  using assms by (cases p) (auto simp: resume_Inl Let_def announced_lines split: prod.splits)

lemma section_left:
  assumes "sound st" "orders_ok it" "fits p g" "task_section ops it rnd i a p g st = (Inl g', st')"
  shows "g = Start \<Longrightarrow> sections_left g' \<le> MAX_CONNECTIONS + 2" and "holds_barrier g \<Longrightarrow> sections_left g' < sections_left g"
proof -
  have "(g = Start \<longrightarrow> sections_left g' \<le> MAX_CONNECTIONS + 2) \<and> (holds_barrier g \<longrightarrow> sections_left g' < sections_left g)"
    using assms(4)
  proof (cases rule: task_section_Inl)
    case presence
    then show ?thesis using assms(3) sections_left_pos [of g]
      by (cases g) (auto simp: in_section_Inl prune_section_def)
  next
    case (line line content)
    then show ?thesis using assms(3) line_section_left [OF assms(1,2) line(2)] by (cases g) auto
  next
    case (replay u tok)
    then show ?thesis using assms(3) replay_section_left [OF assms(1) replay(2)] by (cases g) auto
  qed
  then show "g = Start \<Longrightarrow> sections_left g' \<le> MAX_CONNECTIONS + 2" "holds_barrier g \<Longrightarrow> sections_left g' < sections_left g"
    by simp_all
qed

text \<open>The number of sections the holder has left is bounded, whatever state it is in.\<close>

definition bounded_left :: "('s, 'w) fine_system \<Rightarrow> bool" where
  "bounded_left s \<longleftrightarrow> (\<forall>(t, g) \<in> set (running s). sections_left g \<le> MAX_CONNECTIONS + 2)"

lemma turn_left:
  assumes "fine_inv free s" "orders_ok it" "running s = before @ (t, g) # after" "inputs_ok i (common s)" "may_run t g s"
    and s': "s' = section_turn sem ops it rnd i before t g after s"
  shows "bounded_left s \<Longrightarrow> bounded_left s'"
    and "locked s \<Longrightarrow> \<not> locked s' \<or> barrier_left (running s') \<le> barrier_left (running s)"
    and "holds_barrier g \<Longrightarrow> \<not> locked s' \<or> barrier_left (running s') < barrier_left (running s)"
proof -
  note t = running_task [OF assms(1,3)]
  note sound = fine_invD(4) [OF assms(1)]
  have hold: "length (holders before) + length (holders after) + (if holds_barrier g then 1 else 0) = (if locked s then 1 else 0)"
    using fine_invD(3) [OF assms(1)] assms(3) by (simp split: if_splits)
  have "(bounded_left s \<longrightarrow> bounded_left s') \<and>
    (locked s \<longrightarrow> \<not> locked s' \<or> barrier_left (running s') \<le> barrier_left (running s)) \<and>
    (holds_barrier g \<longrightarrow> \<not> locked s' \<or> barrier_left (running s') < barrier_left (running s))"
  proof (cases rule: section_turn_cases [OF assms(1,2,3,4), of ops rnd sem])
    case (1 g' st')
    note left = section_left [OF sound assms(2) t(2) 1(1)]
    have "sections_left g' \<le> MAX_CONNECTIONS + 2" if "sections_left g \<le> MAX_CONNECTIONS + 2"
      using left that 1(4) fits_holds [OF t(2)] fits_holds [OF 1(4,3)] sections_left_pos [of g']
      by (cases "g = Start"; cases "holds_barrier g") auto
    moreover have "sections_left g' = 0" if "locked s" "\<not> holds_barrier g"
      using that assms(5) fits_holds [OF t(2)] fits_holds [OF 1(4,3)] sections_left_pos [of g']
      by (cases "g = Start") (auto simp: may_run_def)
    moreover have "sections_left g' < sections_left g" if "holds_barrier g" using left that by simp
    ultimately show ?thesis
      using assms(3) by (cases "holds_barrier g") (auto simp: 1(5) s' bounded_left_def)
  next
    case (2 p st')
    then show ?thesis using assms(3) hold
      by (auto simp: 2(3) s' bounded_left_def split: if_splits)
  next
    case (3 st')
    then show ?thesis using assms(3) hold
      by (auto simp: 3(3) s' bounded_left_def split: if_splits)
  qed
  then show "bounded_left s \<Longrightarrow> bounded_left s'"
    "locked s \<Longrightarrow> \<not> locked s' \<or> barrier_left (running s') \<le> barrier_left (running s)"
    "holds_barrier g \<Longrightarrow> \<not> locked s' \<or> barrier_left (running s') < barrier_left (running s)" by simp_all
qed

lemma fine_step_left:
  assumes "orders_ok it"
  shows "fine_step sem ops env it rnd s s' \<Longrightarrow> fine_inv free s \<Longrightarrow>
    (bounded_left s \<longrightarrow> bounded_left s') \<and>
    (locked s \<longrightarrow> \<not> locked s' \<or> barrier_left (running s') \<le> barrier_left (running s))"
proof (induction rule: fine_step.induct)
  case (accept s accepted)
  then show ?case by (auto simp: fine_accept_def bounded_left_def split: result.splits prod.splits option.splits)
next
  case (turn s before t g after i)
  then have "inputs_ok i (common s)" by (simp add: fine_inputs_ok_def)
  with turn show ?case using turn_left(1,2) [OF _ assms _ _ _ refl] by blast
qed (auto simp: bounded_left_def)

lemma fine_reachable_left:
  assumes "semaphore sem free" "free permits = MAX_CONNECTIONS" "orders_ok it"
  shows "fine_reachable sem ops env it rnd permits chans s \<Longrightarrow> bounded_left s"
proof (induction rule: fine_reachable.induct)
  case start
  then show ?case by (simp add: bounded_left_def fine_new_def)
next
  case (step s s')
  then show ?case using fine_step_left [OF assms(3)] fine_reachable_inv [OF assms] by blast
qed

text \<open>There is always a channel that nobody uses.\<close>

lemma finite_used_channels:
  assumes "settled st"
  shows "finite {w. \<not> unused_channel w (outboxes st)}"
proof -
  have wf: "hm_wf (outboxes st)" using settledD(1) [OF assms] by (simp add: server_inv_def delivery_inv_def)
  have "{w. \<not> unused_channel w (outboxes st)} \<subseteq> cd_writer ` set (concat (map snd (outboxes st)))"
    using set_flatten [OF wf] by (auto simp: unused_channel_def)
  then show ?thesis using finite_surj by blast
qed

lemma finite_replay_channels: "finite (replay_channels ts)"
proof -
  have "replay_channels ts \<subseteq> (\<lambda>(t, g). case g of Replaying (Copying w) \<Rightarrow> w | Replaying (Sending w ls) \<Rightarrow> w | _ \<Rightarrow> 0) ` set ts"
    by (force simp: replay_channels_def image_iff split: stage.splits replay_stage.splits)
  then show ?thesis using finite_surj by blast
qed

lemma some_inputs:
  assumes "sound (common s)" "newly env w"
  shows "\<exists>i. fine_inputs_ok env i s"
proof -
  obtain c where c: "c \<notin> {w. \<not> unused_channel w (outboxes (common s))} \<union> replay_channels (running s)"
    using ex_new_if_finite [OF infinite_UNIV_nat] finite_used_channels [OF sound_settled [OF assms(1)]] finite_replay_channels
    by (metis finite_UnI)
  let ?i = "\<lparr>shaken = Err EmptyHandshakeUsername, fresh = w, channel = c, watch = 0, now = 0,
     time_of_day = lit ''12:00'', selected = None, has_joined = False\<rparr>"
  from c assms(2) have "fine_inputs_ok env ?i s" by (simp add: fine_inputs_ok_def inputs_ok_def noon)
  then show ?thesis by blast
qed

text \<open>A turn of the task that holds the barrier.\<close>

definition holder_turn ::
  "'s sem_ops \<Rightarrow> 'w chan_ops \<Rightarrow> 'w chan_env \<Rightarrow> map_orders \<Rightarrow> (rat \<Rightarrow> rat) \<Rightarrow>
     ('s, 'w) fine_system \<Rightarrow> ('s, 'w) fine_system \<Rightarrow> bool"
where
  "holder_turn sem ops env it rnd s s' \<longleftrightarrow>
     (\<exists>before t g after i. running s = before @ (t, g) # after \<and> holds_barrier g \<and> fine_inputs_ok env i s \<and>
        s' = section_turn sem ops it rnd i before t g after s)"

lemma holder_may_run: "holds_barrier g \<Longrightarrow> may_run t g s"
  by (cases g) (simp_all add: may_run_def)

lemma holder_turn_step:
  assumes "holder_turn sem ops env it rnd s s'"
  shows "fine_step sem ops env it rnd s s'"
  using assms fine_step.turn holder_may_run unfolding holder_turn_def by blast

lemma holder_turn_left:
  assumes "fine_inv free s" and "orders_ok it" and "holder_turn sem ops env it rnd s s'"
  shows "\<not> locked s' \<or> barrier_left (running s') < barrier_left (running s)"
proof -
  from assms(3) obtain before t g after i where h: "running s = before @ (t, g) # after" "holds_barrier g"
    "fine_inputs_ok env i s" "s' = section_turn sem ops it rnd i before t g after s"
    unfolding holder_turn_def by blast
  have "inputs_ok i (common s)" using h(3) by (simp add: fine_inputs_ok_def)
  from turn_left(3) [OF assms(1,2) h(1) this holder_may_run [OF h(2)] h(4,2)] show ?thesis .
qed

text \<open>A number that never grows and, again and again, shrinks: there is none.\<close>

lemma no_endless_decrease:
  fixes f :: "nat \<Rightarrow> nat"
  assumes "\<And>n. f (Suc n) \<le> f n" and "\<And>n. \<exists>m \<ge> n. f (Suc m) < f m"
  shows False
proof -
  have "\<exists>n. f n = k \<Longrightarrow> False" for k
  proof (induction k rule: less_induct)
    case (less k)
    then obtain n m where "f n = k" "n \<le> m" "f (Suc m) < f m" using assms(2) by blast
    moreover from this have "f m \<le> f n" using lift_Suc_antimono_le [of f n m] assms(1) by blast
    ultimately show False using less.IH [of "f (Suc m)"] by auto
  qed
  then show False by blast
qed

text \<open>A run from a reachable state, and one in which the holder of the barrier is not starved.\<close>

definition fine_run :: "'s sem_ops \<Rightarrow> 'w chan_ops \<Rightarrow> 'w chan_env \<Rightarrow> map_orders \<Rightarrow> (rat \<Rightarrow> rat) \<Rightarrow> (nat \<Rightarrow> ('s, 'w) fine_system) \<Rightarrow> bool" where
  "fine_run sem ops env it rnd run \<longleftrightarrow> (\<forall>n. fine_step sem ops env it rnd (run n) (run (Suc n)))"

definition holder_scheduled :: "'s sem_ops \<Rightarrow> 'w chan_ops \<Rightarrow> 'w chan_env \<Rightarrow> map_orders \<Rightarrow> (rat \<Rightarrow> rat) \<Rightarrow> (nat \<Rightarrow> ('s, 'w) fine_system) \<Rightarrow> bool" where
  "holder_scheduled sem ops env it rnd run \<longleftrightarrow>
     (\<forall>n. locked (run n) \<longrightarrow> (\<exists>m \<ge> n. \<not> locked (run m) \<or> holder_turn sem ops env it rnd (run m) (run (Suc m))))"

lemma scheduled_release:
  assumes "semaphore sem free" and "free permits = MAX_CONNECTIONS" and "orders_ok it"
    and "fine_reachable sem ops env it rnd permits chans (run 0)"
    and "fine_run sem ops env it rnd run" and "holder_scheduled sem ops env it rnd run"
  shows "\<exists>n. \<not> locked (run n)"
proof (rule ccontr)
  assume "\<nexists>n. \<not> locked (run n)"
  then have l: "locked (run n)" for n by blast
  have step: "fine_step sem ops env it rnd (run n) (run (Suc n))" for n using assms(5) by (simp add: fine_run_def)
  have reach: "fine_reachable sem ops env it rnd permits chans (run n)" for n
    by (induction n) (rule assms(4), rule fine_reachable.step [OF _ step])
  note inv = fine_reachable_inv [OF assms(1-3) reach]
  let ?f = "\<lambda>n. barrier_left (running (run n))"
  have "?f (Suc n) \<le> ?f n" for n
    using fine_step_left [OF assms(3) step inv] l by blast
  moreover have "\<exists>m \<ge> n. ?f (Suc m) < ?f m" for n
    using assms(6) l holder_turn_left [OF inv assms(3)] unfolding holder_scheduled_def by metis
  ultimately show False by (rule no_endless_decrease)
qed

text \<open>
  C6. The replay barrier cannot stay locked. It is held by exactly one task, which is never blocked:
  it can always take a turn. Its sections left are at most 258 (a removal for every registered
  client, or a send for every line of the history); each of its turns releases the barrier or leaves
  it fewer, and no step of anybody else gives it more. So in every endless run in which the holder
  gets its turn again and again, whatever the other tasks do, the barrier is released.
\<close>

theorem barrier_released:
  assumes "semaphore sem free" and "free permits = MAX_CONNECTIONS" and "orders_ok it" and "newly env w"
    and "fine_reachable sem ops env it rnd permits chans s" and "locked s"
  shows "(\<exists>t g. holders (running s) = [(t, g)] \<and> may_run t g s) \<and> barrier_left (running s) \<le> MAX_CONNECTIONS + 2 \<and>
    (\<exists>s'. holder_turn sem ops env it rnd s s') \<and>
    (\<forall>s'. holder_turn sem ops env it rnd s s' \<longrightarrow> fine_step sem ops env it rnd s s' \<and>
       (\<not> locked s' \<or> barrier_left (running s') < barrier_left (running s))) \<and>
    (\<forall>s'. fine_step sem ops env it rnd s s' \<longrightarrow> \<not> locked s' \<or> barrier_left (running s') \<le> barrier_left (running s)) \<and>
    (\<forall>run. run 0 = s \<and> fine_run sem ops env it rnd run \<and> holder_scheduled sem ops env it rnd run \<longrightarrow> (\<exists>n. \<not> locked (run n)))"
proof (intro conjI allI impI)
  have inv: "fine_inv free s" by (rule fine_reachable_inv [OF assms(1-3,5)])
  have left: "bounded_left s" by (rule fine_reachable_left [OF assms(1-3,5)])
  from fine_invD(3) [OF inv] assms(6) obtain t g where h: "holders (running s) = [(t, g)]"
    by (auto simp: length_Suc_conv)
  then have "(t, g) \<in> set (holders (running s))" by simp
  then have tg: "(t, g) \<in> set (running s)" "holds_barrier g" by (auto simp: holders_def)
  then obtain before after where r: "running s = before @ (t, g) # after" by (meson split_list)
  show "\<exists>t g. holders (running s) = [(t, g)] \<and> may_run t g s" using h holder_may_run [OF tg(2)] by blast
  have "holders before = []" "holders after = []" using h tg(2) by (auto simp: r append_eq_Cons_conv)
  then show "barrier_left (running s) \<le> MAX_CONNECTIONS + 2"
    using left tg(1) no_holders_left by (auto simp: r bounded_left_def)
  obtain i where "fine_inputs_ok env i s" using some_inputs [OF fine_invD(4) [OF inv] assms(4)] by blast
  then show "\<exists>s'. holder_turn sem ops env it rnd s s'" unfolding holder_turn_def using r tg(2) by blast
  show "fine_step sem ops env it rnd s s'" "\<not> locked s' \<or> barrier_left (running s') < barrier_left (running s)"
    if "holder_turn sem ops env it rnd s s'" for s'
    using holder_turn_step [OF that] holder_turn_left [OF inv assms(3) that] by simp_all
  show "\<not> locked s' \<or> barrier_left (running s') \<le> barrier_left (running s)" if "fine_step sem ops env it rnd s s'" for s'
    using fine_step_left [OF assms(3) that inv] assms(6) by simp
  show "\<exists>n. \<not> locked (run n)" if "run 0 = s \<and> fine_run sem ops env it rnd run \<and> holder_scheduled sem ops env it rnd run" for run
    using scheduled_release [OF assms(1-3), of ops env rnd chans run] that assms(5) by blast
qed

end
