(* ===== verification/Ordering.thy ===== *)
theory Ordering
  imports Barrier
begin

section \<open>Every client sees the room's lines in one order\<close>

text \<open>
  The purpose of the replay barrier: what a client receives is a replay of the last lines recorded
  when it became ready, followed by every line recorded since it registered, in the order in which
  they were recorded, whatever the interleaving of the critical sections. The lines of a channel
  are the chat frames it accepted; presence frames may come in between. A line recorded while the
  client waits for its replay is in both parts.
\<close>

subsection \<open>Chat frames\<close>

definition is_chat :: "bytes \<Rightarrow> bool" where
  "is_chat bs = (case decode_frame bs of Ok (Some f, _) \<Rightarrow> kind f = Chat | _ \<Rightarrow> False)"

definition chats :: "bytes list \<Rightarrow> bytes list" where
  "chats ms = filter is_chat ms"

lemma chats_simps [simp]:
  "chats [] = []" "chats (xs @ ys) = chats xs @ chats ys" "chats (m # ms) = (if is_chat m then m # chats ms else chats ms)"
  by (simp_all add: chats_def)

lemma is_chat_frame: "wf_frame f \<Longrightarrow> is_chat (frame_bytes f) \<longleftrightarrow> kind f = Chat"
  using decode_frame_wf [of f "[]"] by (simp add: is_chat_def)

lemma chat_bytes_chat: "short_line l \<Longrightarrow> is_chat (chat_bytes l)"
  unfolding chat_bytes_def by (subst is_chat_frame) (simp_all add: wf_frame_def short_line_def)

lemma chats_map_chat_bytes: "list_all short_line ls \<Longrightarrow> chats (map chat_bytes ls) = map chat_bytes ls"
  by (induction ls) (simp_all add: chat_bytes_chat)

subsection \<open>What a client should have received\<close>

type_synonym line_log = "(ustr \<times> bytes) list"

text \<open>A recorded line: its frame is that of the line, its history entry the line without the final
  ends of line.\<close>

definition log_entry :: "ustr \<times> bytes \<Rightarrow> bool" where
  "log_entry x \<longleftrightarrow> (\<exists>c. short_line c \<and> snd x = chat_bytes c \<and> fst x = trim_end_matches 0x0A c)"

lemma log_entry_chat: "log_entry x \<Longrightarrow> is_chat (snd x)"
  by (auto simp: log_entry_def chat_bytes_chat)

text \<open>The lines the history holds after a log, the frames of their replay, and the live frames.\<close>

definition kept_lines :: "line_log \<Rightarrow> ustr list" where
  "kept_lines L = map fst (drop (length L - MESSAGE_HISTORY_LIMIT) L)"

definition replayed :: "line_log \<Rightarrow> bytes list" where
  "replayed L = map chat_bytes (kept_lines L)"

definition live :: "line_log \<Rightarrow> bytes list" where
  "live L = map snd L"

text \<open>The client registered after \<open>k\<close> lines and was, or is being, replayed the history as it was
  after \<open>m\<close> lines. Until the replay is complete the live lines wait.\<close>

definition in_order :: "nat \<Rightarrow> line_log \<Rightarrow> bool \<Rightarrow> bytes list \<Rightarrow> bytes list \<Rightarrow> bool" where
  "in_order k L rdy got pend \<longleftrightarrow>
     (\<exists>m. k \<le> m \<and> m \<le> length L \<and>
        (got @ pend = replayed (take m L) @ live (drop k L) \<or>
         \<not> rdy \<and> pend = live (drop k L) \<and> prefix got (replayed (take m L))))"

lemma live_simps [simp]: "live [] = []" "live (x # L) = snd x # live L" "live (L @ M) = live L @ live M"
  by (simp_all add: live_def)

lemma in_order_live:
  assumes "in_order k L True got []"
  shows "in_order k (L @ [x]) True (got @ [snd x]) []"
proof -
  from assms obtain m where "k \<le> m" "m \<le> length L" "got = replayed (take m L) @ live (drop k L)"
    by (auto simp: in_order_def)
  then show ?thesis unfolding in_order_def by - (rule exI [of _ m], simp)
qed

lemma in_order_pending:
  assumes "in_order k L False got pend"
  shows "in_order k (L @ [x]) False got (pend @ [snd x])"
proof -
  from assms obtain m where "k \<le> m" "m \<le> length L"
    "got @ pend = replayed (take m L) @ live (drop k L) \<or> pend = live (drop k L) \<and> prefix got (replayed (take m L))"
    by (auto simp: in_order_def)
  then show ?thesis unfolding in_order_def by - (rule exI [of _ m], auto simp flip: append_assoc)
qed

lemma in_order_new: "in_order (length L) L False [] []"
  unfolding in_order_def by (rule exI [of _ "length L"]) simp

subsection \<open>Lines on their way\<close>

abbreviation entry :: "delivery_registry \<Rightarrow> socket_addr \<Rightarrow> client_delivery \<Rightarrow> bool" where
  "entry dl a d \<equiv> d \<in> set (hm_or [] a dl)"

definition recordings :: "(task \<times> stage) list \<Rightarrow> line_stage set" where
  "recordings ts = {r. \<exists>t. (t, Recording r) \<in> set ts}"

text \<open>The last line has not reached a client when it is recorded but not broadcast, nor when the
  broadcast could not serve the client, which is about to be removed.\<close>

definition late :: "line_stage set \<Rightarrow> socket_addr \<Rightarrow> token \<Rightarrow> bool" where
  "late R a tok \<longleftrightarrow> (\<exists>l f. Recorded l f \<in> R) \<or> (\<exists>ds b. Evicting ds b \<in> R \<and> (a, tok) \<in> set ds)"

definition delivered :: "line_stage set \<Rightarrow> line_log \<Rightarrow> socket_addr \<Rightarrow> token \<Rightarrow> line_log" where
  "delivered R L a tok = (if late R a tok then butlast L else L)"

text \<open>\<open>K\<close> is the number of lines recorded before the client of a token registered.\<close>

definition client_ok :: "(token \<Rightarrow> nat) \<Rightarrow> (chan_id \<Rightarrow> bytes list) \<Rightarrow> line_stage set \<Rightarrow> line_log \<Rightarrow> socket_addr \<Rightarrow> client_delivery \<Rightarrow> bool" where
  "client_ok K acc R L a d \<longleftrightarrow>
     in_order (K (cd_token d)) (delivered R L a (cd_token d)) (cd_ready d) (chats (acc (cd_writer d))) (chats (cd_pending d))"

fun joining :: "phase \<Rightarrow> token option" where
  "joining (Name u tok) = Some tok"
| "joining (Replay u tok) = Some tok"
| "joining p = None"

definition owns :: "delivery_registry \<Rightarrow> chan_id \<Rightarrow> socket_addr \<Rightarrow> token \<Rightarrow> bool" where
  "owns dl w a tok \<longleftrightarrow> (\<forall>b d. entry dl b d \<longrightarrow> (cd_writer d = w \<longleftrightarrow> b = a \<and> cd_token d = tok))"

definition waiting :: "(token \<Rightarrow> nat) \<Rightarrow> delivery_registry \<Rightarrow> line_stage set \<Rightarrow> line_log \<Rightarrow> socket_addr \<Rightarrow> token \<Rightarrow> bool" where
  "waiting K dl R L a tok \<longleftrightarrow>
     (\<forall>d. entry dl a d \<longrightarrow> cd_token d = tok \<longrightarrow>
        \<not> cd_ready d \<and> K tok \<le> length (delivered R L a tok) \<and>
        chats (cd_pending d) = live (drop (K tok) (delivered R L a tok)))"

fun replay_ok :: "delivery_registry \<Rightarrow> (chan_id \<Rightarrow> bytes list) \<Rightarrow> line_log \<Rightarrow> socket_addr \<Rightarrow> token \<Rightarrow> stage \<Rightarrow> bool" where
  "replay_ok dl acc L a tok Start = (\<forall>d. entry dl a d \<longrightarrow> cd_token d = tok \<longrightarrow> acc (cd_writer d) = [])"
| "replay_ok dl acc L a tok (Replaying (Copying w)) = (owns dl w a tok \<and> acc w = [])"
| "replay_ok dl acc L a tok (Replaying (Sending w ls)) =
     (owns dl w a tok \<and> (\<exists>sent. kept_lines L = sent @ ls \<and> acc w = map chat_bytes sent))"
| "replay_ok dl acc L a tok g = True"

fun stage_ok :: "line_log \<Rightarrow> stage \<Rightarrow> bool" where
  "stage_ok L (Updating (Spreading f)) = (\<not> is_chat f)"
| "stage_ok L (Recording (Recorded l f)) = (L \<noteq> [] \<and> last L = (trim_end_matches 0x0A l, f))"
| "stage_ok L g = True"

definition task_in_order ::
  "(token \<Rightarrow> nat) \<Rightarrow> delivery_registry \<Rightarrow> (chan_id \<Rightarrow> bytes list) \<Rightarrow> line_stage set \<Rightarrow> line_log \<Rightarrow> task \<Rightarrow> stage \<Rightarrow> bool"
where
  "task_in_order K dl acc R L t g \<longleftrightarrow>
     stage_ok L g \<and>
     (\<forall>tok. joining (phase t) = Some tok \<longrightarrow> waiting K dl R L (peer t) tok \<and> replay_ok dl acc L (peer t) tok g)"

definition ordered ::
  "(token \<Rightarrow> nat) \<Rightarrow> delivery_registry \<Rightarrow> (chan_id \<Rightarrow> bytes list) \<Rightarrow> line_log \<Rightarrow> (task \<times> stage) list \<Rightarrow> bool"
where
  "ordered K dl acc L ts \<longleftrightarrow>
     (\<forall>x \<in> set L. log_entry x) \<and> (\<forall>a d. entry dl a d \<longrightarrow> client_ok K acc (recordings ts) L a d) \<and>
     (\<forall>(t, g) \<in> set ts. task_in_order K dl acc (recordings ts) L t g)"

lemma orderedD:
  assumes "ordered K dl acc L ts"
  shows "x \<in> set L \<Longrightarrow> log_entry x" "entry dl a d \<Longrightarrow> client_ok K acc (recordings ts) L a d"
    "(t, g) \<in> set ts \<Longrightarrow> task_in_order K dl acc (recordings ts) L t g"
  using assms by (auto simp: ordered_def)

text \<open>Only the registered clients matter for \<open>K\<close>.\<close>

lemma ordered_cong:
  assumes "ordered K dl acc L ts" and same: "\<And>a d. entry dl a d \<Longrightarrow> K' (cd_token d) = K (cd_token d)"
  shows "ordered K' dl acc L ts"
proof -
  have "client_ok K' acc (recordings ts) L a d" if "entry dl a d" for a d
    using orderedD(2) [OF assms(1) that] same [OF that] by (simp add: client_ok_def)
  moreover have "task_in_order K' dl acc (recordings ts) L t g" if "(t, g) \<in> set ts" for t g
    using orderedD(3) [OF assms(1) that] same unfolding task_in_order_def waiting_def by metis
  ultimately show ?thesis using orderedD(1) [OF assms(1)] by (auto simp: ordered_def)
qed

lemma own_unique:
  assumes "own_channels dl" "entry dl a d" "entry dl b e" "cd_writer d = cd_writer e"
  shows "a = b \<and> d = e"
proof -
  have "a = b" using assms unfolding own_channels_def by blast
  with assms show ?thesis by (auto simp: own_channels_def distinct_map inj_on_def)
qed

subsection \<open>Steps that do not touch what a client received\<close>

lemma task_in_order_mono:
  assumes "task_in_order K dl acc R L t g" "own_channels dl"
    and view: "\<And>a d'. entry dl' a d' \<Longrightarrow> \<exists>d. entry dl a d \<and> cd_token d' = cd_token d \<and> cd_writer d' = cd_writer d \<and>
      cd_ready d' = cd_ready d \<and> chats (cd_pending d') = chats (cd_pending d)"
    and raw: "\<And>w. (\<And>a d. entry dl a d \<Longrightarrow> cd_writer d = w \<Longrightarrow> \<not> cd_ready d) \<Longrightarrow> acc' w = acc w"
    and late: "\<And>a d'. entry dl' a d' \<Longrightarrow> late R' a (cd_token d') = late R a (cd_token d')"
  shows "task_in_order K dl' acc' R' L t g"
proof -
  have "waiting K dl' R' L (peer t) tok \<and> replay_ok dl' acc' L (peer t) tok g" if j: "joining (phase t) = Some tok" for tok
  proof
    have w: "waiting K dl R L (peer t) tok" and r: "replay_ok dl acc L (peer t) tok g"
      using assms(1) j by (simp_all add: task_in_order_def)
    show "waiting K dl' R' L (peer t) tok"
      unfolding waiting_def
    proof (intro allI impI)
      fix d' assume d': "entry dl' (peer t) d'" "cd_token d' = tok"
      obtain d where d: "entry dl (peer t) d" "cd_token d = tok" "cd_ready d' = cd_ready d"
        "chats (cd_pending d') = chats (cd_pending d)" using view [OF d'(1)] d'(2) by metis
      have "delivered R' L (peer t) tok = delivered R L (peer t) tok"
        using late [OF d'(1)] d'(2) by (simp add: delivered_def)
      with w d show "\<not> cd_ready d' \<and> K tok \<le> length (delivered R' L (peer t) tok) \<and>
          chats (cd_pending d') = live (drop (K tok) (delivered R' L (peer t) tok))"
        by (simp add: waiting_def)
    qed
    have quiet: "acc' v = acc v" if "owns dl v (peer t) tok" for v
      using w that by (intro raw) (auto simp: owns_def waiting_def)
    have own: "owns dl' v (peer t) tok" if "owns dl v (peer t) tok" for v
      using that unfolding owns_def by (metis view)
    have first: "acc' (cd_writer d') = acc (cd_writer d')" if d': "entry dl' (peer t) d'" "cd_token d' = tok" for d'
    proof -
      obtain d where d: "entry dl (peer t) d" "cd_token d = tok" "cd_writer d' = cd_writer d" using view [OF d'(1)] d'(2) by auto
      then show ?thesis using w own_unique [OF assms(2) _ d(1)] by (intro raw) (auto simp: waiting_def)
    qed
    show "replay_ok dl' acc' L (peer t) tok g"
    proof (cases g)
      case Start
      have "acc' (cd_writer d') = []" if d': "entry dl' (peer t) d'" "cd_token d' = tok" for d'
        using first [OF d'] view [OF d'(1)] d'(2) r Start by auto
      with Start show ?thesis by simp
    next
      case (Replaying q)
      with r quiet own show ?thesis by (cases q) simp_all
    qed simp_all
  qed
  with assms(1) show ?thesis by (simp add: task_in_order_def)
qed

lemma ordered_mono:
  assumes "ordered K dl acc L ts" "own_channels dl"
    and view: "\<And>a d'. entry dl' a d' \<Longrightarrow> \<exists>d. entry dl a d \<and> cd_token d' = cd_token d \<and> cd_writer d' = cd_writer d \<and>
      cd_ready d' = cd_ready d \<and> chats (cd_pending d') = chats (cd_pending d)"
    and chan: "\<And>w. chats (acc' w) = chats (acc w)"
    and raw: "\<And>w. (\<And>a d. entry dl a d \<Longrightarrow> cd_writer d = w \<Longrightarrow> \<not> cd_ready d) \<Longrightarrow> acc' w = acc w"
    and late: "\<And>a d'. entry dl' a d' \<Longrightarrow> late (recordings ts') a (cd_token d') = late (recordings ts) a (cd_token d')"
    and tasks: "\<And>t g. (t, g) \<in> set ts' \<Longrightarrow> task_in_order K dl acc (recordings ts) L t g"
  shows "ordered K dl' acc' L ts'"
  unfolding ordered_def
proof (intro conjI allI impI ballI)
  show "log_entry x" if "x \<in> set L" for x using assms(1) that by (rule orderedD(1))
  show "client_ok K acc' (recordings ts') L a d'" if d': "entry dl' a d'" for a d'
  proof -
    obtain d where d: "entry dl a d" "cd_token d' = cd_token d" "cd_writer d' = cd_writer d" "cd_ready d' = cd_ready d"
      "chats (cd_pending d') = chats (cd_pending d)" using view [OF d'] by blast
    with orderedD(2) [OF assms(1) d(1)] late [OF d'] show ?thesis by (simp add: client_ok_def delivered_def chan)
  qed
  show "case p of (t, g) \<Rightarrow> task_in_order K dl' acc' (recordings ts') L t g" if "p \<in> set ts'" for p
  proof (cases p)
    case (Pair t g)
    have "task_in_order K dl' acc' (recordings ts') L t g"
      by (rule task_in_order_mono [OF tasks assms(2) view raw late]) (use that Pair in auto)
    with Pair show ?thesis by simp
  qed
qed

subsection \<open>Steps that touch one client and its channel\<close>

definition channel_of :: "stage \<Rightarrow> chan_id option" where
  "channel_of g = (case g of Replaying (Copying w) \<Rightarrow> Some w | Replaying (Sending w ls) \<Rightarrow> Some w | _ \<Rightarrow> None)"

lemma channel_of_simps [simp]:
  "channel_of Start = None" "channel_of (Updating r) = None" "channel_of (Recording q) = None"
  "channel_of (Replaying (Copying w)) = Some w" "channel_of (Replaying (Sending w ls)) = Some w"
  by (simp_all add: channel_of_def)

lemma replay_channels_iff: "w \<in> replay_channels ts \<longleftrightarrow> (\<exists>(t, g) \<in> set ts. channel_of g = Some w)"
proof -
  have "channel_of g = Some w \<longleftrightarrow> g = Replaying (Copying w) \<or> (\<exists>ls. g = Replaying (Sending w ls))" for g
    by (cases g rule: sections_left.cases) auto
  then show ?thesis by (simp add: replay_channels_def)
qed

lemma channel_of_holds: "channel_of g = Some w \<Longrightarrow> holds_barrier g"
  by (cases g) simp_all

lemma ordered_touch:
  assumes "ordered K dl acc L ts"
    and rest: "\<And>b e. entry dl' b e \<Longrightarrow> (b, cd_token e) \<noteq> (a, tok) \<Longrightarrow> entry dl b e"
    and only: "\<And>b e. entry dl b e \<Longrightarrow> cd_writer e = w \<Longrightarrow> (b, cd_token e) = (a, tok)"
    and same: "\<And>e. entry dl' a e \<Longrightarrow> cd_token e = tok \<Longrightarrow> cd_writer e = w"
    and acc: "\<And>v. v \<noteq> w \<Longrightarrow> acc' v = acc v"
    and late: "recordings ts' = recordings ts"
    and client: "\<And>e. entry dl' a e \<Longrightarrow> cd_token e = tok \<Longrightarrow> client_ok K acc' (recordings ts) L a e"
    and tasks: "\<And>t g. (t, g) \<in> set ts' \<Longrightarrow> task_in_order K dl' acc' (recordings ts) L t g \<or>
      (t, g) \<in> set ts \<and> (joining (phase t) = Some tok \<longrightarrow> peer t \<noteq> a) \<and> channel_of g \<noteq> Some w"
  shows "ordered K dl' acc' L ts'"
  unfolding ordered_def late
proof (intro conjI allI impI ballI)
  show "log_entry x" if "x \<in> set L" for x using assms(1) that by (rule orderedD(1))
  show "client_ok K acc' (recordings ts) L b e" if e: "entry dl' b e" for b e
  proof (cases "(b, cd_token e) = (a, tok)")
    case True
    with e client show ?thesis by simp
  next
    case False
    from rest [OF e False] have e: "entry dl b e" .
    with only False have "cd_writer e \<noteq> w" by blast
    with orderedD(2) [OF assms(1) e] show ?thesis by (simp add: client_ok_def acc)
  qed
  have keep: "task_in_order K dl' acc' (recordings ts) L t g"
    if t: "(t, g) \<in> set ts" "joining (phase t) = Some tok \<longrightarrow> peer t \<noteq> a" "channel_of g \<noteq> Some w" for t g
  proof -
    have ok: "task_in_order K dl acc (recordings ts) L t g" using assms(1) t(1) by (rule orderedD(3))
    have "waiting K dl' (recordings ts) L (peer t) tok' \<and> replay_ok dl' acc' L (peer t) tok' g"
      if j: "joining (phase t) = Some tok'" for tok'
    proof
      have old: "waiting K dl (recordings ts) L (peer t) tok'" "replay_ok dl acc L (peer t) tok' g"
        using ok j by (simp_all add: task_in_order_def)
      have other: "(peer t, tok') \<noteq> (a, tok)" using t(2) j by auto
      have entries: "entry dl (peer t) d" if "entry dl' (peer t) d" "cd_token d = tok'" for d
        using rest [OF that(1)] that(2) other by auto
      with old(1) show "waiting K dl' (recordings ts) L (peer t) tok'" unfolding waiting_def by blast
      have writer: "cd_writer d \<noteq> w" if "entry dl (peer t) d" "cd_token d = tok'" for d
        using only [OF that(1)] that(2) other by auto
      have owns: "owns dl' v (peer t) tok'" if "owns dl v (peer t) tok'" "v \<noteq> w" for v
        unfolding owns_def
      proof (intro allI impI)
        fix b e assume e: "entry dl' b e"
        show "cd_writer e = v \<longleftrightarrow> b = peer t \<and> cd_token e = tok'"
        proof (cases "(b, cd_token e) = (a, tok)")
          case True
          with same [of e] e that(2) other show ?thesis by auto
        next
          case False
          from rest [OF e False] that(1) show ?thesis by (simp add: owns_def)
        qed
      qed
      show "replay_ok dl' acc' L (peer t) tok' g"
      proof (cases g)
        case Start
        have "acc' (cd_writer d) = []" if "entry dl' (peer t) d" "cd_token d = tok'" for d
          using old(2) Start entries [OF that] that(2) writer [OF entries [OF that] that(2)] acc [of "cd_writer d"] by simp
        with Start show ?thesis by simp
      next
        case (Replaying r)
        then show ?thesis using old(2) owns acc t(3) by (cases r) simp_all
      qed simp_all
    qed
    with ok show ?thesis by (simp add: task_in_order_def)
  qed
  show "case p of (t, g) \<Rightarrow> task_in_order K dl' acc' (recordings ts) L t g" if "p \<in> set ts'" for p
    using tasks [of "fst p" "snd p"] keep [of "fst p" "snd p"] that by (cases p) auto
qed

subsection \<open>Recording and broadcasting a line\<close>

lemma no_recordings: "holders ts = [] \<Longrightarrow> recordings ts = {}"
proof -
  assume "holders ts = []"
  then have "\<not> holds_barrier g" if "(t, g) \<in> set ts" for t g
    using that by (auto simp: holders_def filter_empty_conv)
  then show ?thesis by (fastforce simp: recordings_def)
qed

lemma no_channels: "holders ts = [] \<Longrightarrow> (t, g) \<in> set ts \<Longrightarrow> channel_of g = None"
  using channel_of_holds by (cases "channel_of g") (fastforce simp: holders_def filter_empty_conv)+

lemma recordings_simps [simp]:
  "recordings [] = {}" "recordings (xs @ ys) = recordings xs \<union> recordings ys"
  "recordings ((t, g) # ts) = (case g of Recording r \<Rightarrow> insert r (recordings ts) | _ \<Rightarrow> recordings ts)"
  "recordings (map (\<lambda>t. (t, Start)) us) = {}"
  by (auto simp: recordings_def split: stage.split)

lemma late_none [simp]: "\<not> late {} a tok"
  by (simp add: late_def)

text \<open>A task that holds nothing and is not on its way to a replay does not look at the log.\<close>

lemma task_in_order_recorded:
  assumes "task_in_order K dl acc {} L t g" "\<not> holds_barrier g"
  shows "task_in_order K dl acc {Recorded l f} (L @ [(trim_end_matches 0x0A l, f)]) t g"
proof -
  have "delivered {Recorded l f} (L @ [(trim_end_matches 0x0A l, f)]) b tok = delivered {} L b tok" for b tok
    by (auto simp: delivered_def late_def)
  then have "waiting K dl {Recorded l f} (L @ [(trim_end_matches 0x0A l, f)]) b tok = waiting K dl {} L b tok" for b tok
    by (simp add: waiting_def)
  with assms show ?thesis by (cases g) (auto simp: task_in_order_def elim!: stage_ok.elims)
qed

lemma ordered_recorded:
  assumes "ordered K dl acc L (before @ (t, g) # after)" "holders (before @ (t, g) # after) = []"
    and "log_entry (trim_end_matches 0x0A l, f)"
    and "joining (phase t) = None"
  shows "ordered K dl acc (L @ [(trim_end_matches 0x0A l, f)]) (before @ (t, Recording (Recorded l f)) # after)"
proof -
  let ?L = "L @ [(trim_end_matches 0x0A l, f)]" and ?ts = "before @ (t, g) # after"
    and ?ts' = "before @ (t, Recording (Recorded l f)) # after"
  have R: "recordings ?ts = {}" by (rule no_recordings [OF assms(2)])
  then have R': "recordings ?ts' = {Recorded l f}" by (cases g) auto
  have others: "\<not> holds_barrier h" if "(u, h) \<in> set (before @ after)" for u h
    using assms(2) that by (auto simp: holders_def filter_empty_conv split: if_splits)
  have "client_ok K acc {Recorded l f} ?L a d" if "entry dl a d" for a d
    using orderedD(2) [OF assms(1) that] unfolding R by (simp add: client_ok_def delivered_def late_def)
  moreover have "task_in_order K dl acc {Recorded l f} ?L u h" if "(u, h) \<in> set (before @ after)" for u h
    using orderedD(3) [OF assms(1), of u h] that others [OF that] unfolding R by (intro task_in_order_recorded) auto
  moreover have "task_in_order K dl acc {Recorded l f} ?L t (Recording (Recorded l f))"
    using assms(4) by (simp add: task_in_order_def)
  ultimately show ?thesis
    unfolding ordered_def R' using orderedD(1) [OF assms(1)] assms(3) by auto
qed

lemma ordered_broadcast:
  assumes ord: "ordered K dl acc L (before @ (t, Recording (Recorded l f)) # after)"
    and alone: "holders (before @ after) = []" and own: "own_channels dl" and dinv: "delivery_inv dl"
    and R': "\<And>a tok. late {r'} a tok \<longleftrightarrow> (a, tok) \<in> doomed" "joining (phase t) = None"
    and dl': "\<And>a. hm_or [] a dl' = map (after_broadcast f None) (hm_or [] a dl)"
    and bad: "\<And>a d. entry dl a d \<Longrightarrow> (a, cd_token d) \<in> doomed \<longleftrightarrow>
      (if cd_ready d then \<not> sends (cd_writer d) else PENDING_MESSAGES_LIMIT \<le> length (cd_pending d))"
    and acc': "\<And>w. acc' w = (if (\<exists>a d. entry dl a d \<and> cd_ready d \<and> cd_writer d = w) \<and> sends w then acc w @ [f] else acc w)"
    and r': "stage_ok L (Recording r')"
  shows "ordered K dl' acc' L (before @ (t, Recording r') # after)"
proof -
  let ?ts = "before @ (t, Recording (Recorded l f)) # after" and ?ts' = "before @ (t, Recording r') # after"
  have none: "recordings (before @ after) = {}" by (rule no_recordings [OF alone])
  then have R: "recordings ?ts = {Recorded l f}" "recordings ?ts' = {r'}" by auto
  have "stage_ok L (Recording (Recorded l f))" using orderedD(3) [OF ord, of t "Recording (Recorded l f)"] by (simp add: task_in_order_def)
  then obtain M where L: "L = M @ [(trim_end_matches 0x0A l, f)]" by (metis append_butlast_last_id stage_ok.simps(2))
  have f: "is_chat f" using log_entry_chat [OF orderedD(1) [OF ord, of "(trim_end_matches 0x0A l, f)"]] by (simp add: L)
  have before_D: "delivered {Recorded l f} L a tok = M" for a tok by (auto simp: delivered_def late_def L)
  have after_D: "delivered {r'} L a tok = (if (a, tok) \<in> doomed then M else L)" for a tok
    by (simp add: delivered_def R' L)
  have unready: "acc' (cd_writer d) = acc (cd_writer d)" if "entry dl a d" "\<not> cd_ready d" for a d
    unfolding acc' using own_unique [OF own that(1)] that(2) by metis
  have client: "client_ok K acc' {r'} L a (after_broadcast f None d)" if d: "entry dl a d" for a d
  proof -
    have old: "in_order (K (cd_token d)) M (cd_ready d) (chats (acc (cd_writer d))) (chats (cd_pending d))"
      using orderedD(2) [OF ord d] unfolding R by (simp add: client_ok_def before_D)
    show ?thesis
    proof (cases "cd_ready d")
      case True
      then have pend: "cd_pending d = []" using delivery_inv_or [OF dinv d] by (simp add: delivery_ok_def)
      have "acc' (cd_writer d) = (if sends (cd_writer d) then acc (cd_writer d) @ [f] else acc (cd_writer d))"
        using True d by (auto simp: acc')
      then show ?thesis
        using old True pend bad [OF d] f in_order_live [of "K (cd_token d)" M "chats (acc (cd_writer d))" "(trim_end_matches 0x0A l, f)"]
        by (simp add: client_ok_def after_D after_broadcast_def) (simp add: L)
    next
      case False
      then show ?thesis
        using old bad [OF d] f unready [OF d False]
          in_order_pending [of "K (cd_token d)" M "chats (acc (cd_writer d))" "chats (cd_pending d)" "(trim_end_matches 0x0A l, f)"]
        by (simp add: client_ok_def after_D after_broadcast_def is_target_def) (simp add: L)
    qed
  qed
  have task: "task_in_order K dl' acc' {r'} L u h" if u: "(u, h) \<in> set (before @ after)" for u h
  proof -
    have old: "task_in_order K dl acc {Recorded l f} L u h" using orderedD(3) [OF ord, of u h] u unfolding R by auto
    have h: "channel_of h = None" using no_channels [OF alone u] .
    have "waiting K dl' {r'} L (peer u) tok \<and> replay_ok dl' acc' L (peer u) tok h" if j: "joining (phase u) = Some tok" for tok
    proof
      have w: "waiting K dl {Recorded l f} L (peer u) tok" and r: "replay_ok dl acc L (peer u) tok h"
        using old j by (simp_all add: task_in_order_def)
      have ready: "\<not> cd_ready d" if "entry dl (peer u) d" "cd_token d = tok" for d using w that by (simp add: waiting_def)
      show "waiting K dl' {r'} L (peer u) tok"
        unfolding waiting_def dl'
      proof (clarsimp, intro conjI)
        fix d assume d: "entry dl (peer u) d" "tok = cd_token d"
        show "\<not> cd_ready d" using ready d by simp
        have k: "K tok \<le> length M" "chats (cd_pending d) = live (drop (K tok) M)"
          using w d by (simp_all add: waiting_def before_D)
        show "K (cd_token d) \<le> length (delivered {r'} L (peer u) (cd_token d))"
          unfolding after_D using k d(2) by (simp add: L)
        show "chats (cd_pending (after_broadcast f None d)) = live (drop (K (cd_token d)) (delivered {r'} L (peer u) (cd_token d)))"
          unfolding after_D using bad [OF d(1)] ready d k f by (auto simp: after_broadcast_def is_target_def L)
      qed
      show "replay_ok dl' acc' L (peer u) tok h"
      proof (cases h)
        case Start
        have "acc' (cd_writer d) = []" if "entry dl (peer u) d" "cd_token d = tok" for d
          using r Start that unready [OF that(1) ready [OF that]] by simp
        with Start show ?thesis by (auto simp: dl')
      next
        case (Replaying q)
        with h show ?thesis by (cases q) simp_all
      qed simp_all
    qed
    with old show ?thesis by (simp add: task_in_order_def)
  qed
  show ?thesis
    unfolding ordered_def R
  proof (intro conjI allI impI ballI)
    show "log_entry x" if "x \<in> set L" for x using ord that by (rule orderedD(1))
    show "client_ok K acc' {r'} L a d" if "entry dl' a d" for a d using that client by (auto simp: dl')
    show "case p of (t, g) \<Rightarrow> task_in_order K dl' acc' {r'} L t g" if "p \<in> set ?ts'" for p
    proof (cases "p = (t, Recording r')")
      case True
      then show ?thesis using R'(2) r' by (simp add: task_in_order_def)
    next
      case False
      with that have "p \<in> set (before @ after)" by auto
      then show ?thesis using task [of "fst p" "snd p"] by (simp add: case_prod_beta)
    qed
  qed
qed

end
