(* ===== verification/Ordering_Inv.thy ===== *)
theory Ordering_Inv
  imports Ordering
begin

subsection \<open>Channels that remember what they accepted\<close>

text \<open>
  What tokio documents beyond \<open>mpsc\<close>: a message that was sent is accepted, the receiver takes messages
  without changing what was accepted, and a new channel has accepted nothing.
\<close>

locale traced_mpsc = mpsc ops queued capacity
  for ops :: "'w chan_ops" and queued :: "'w \<Rightarrow> bytes list" and capacity :: "'w \<Rightarrow> nat" +
  fixes accepted :: "'w \<Rightarrow> bytes list" and env :: "'w chan_env"
  assumes accepted_sent: "try_send ops w m = (Sent, w') \<Longrightarrow> accepted w' = accepted w @ [m]"
    and accepted_recv: "recv env w w' \<Longrightarrow> accepted w' = accepted w"
    and accepted_new: "newly env w \<Longrightarrow> accepted w = []"
begin

lemma refused_same: "try_send ops w m = (status, w') \<Longrightarrow> status \<noteq> Sent \<Longrightarrow> w' = w"
proof -
  consider "is_closed ops w" | "\<not> is_closed ops w" "capacity w \<le> length (queued w)"
    | "\<not> is_closed ops w" "length (queued w) < capacity w" by linarith
  then show "try_send ops w m = (status, w') \<Longrightarrow> status \<noteq> Sent \<Longrightarrow> w' = w"
    using send_closed [of w m] send_full [of w m] send_free [of w m] by cases auto
qed

lemma accepted_send:
  "accepted (snd (try_send ops w m)) = (if fst (try_send ops w m) = Sent then accepted w @ [m] else accepted w)"
  using accepted_sent [of w m] refused_same [of w m] by (cases "try_send ops w m") auto

lemma flush_accepted:
  "flush_pending ops w ms = (status, w', rest) \<Longrightarrow>
     \<exists>sent. ms = sent @ rest \<and> accepted w' = accepted w @ sent \<and> (status = Sent \<longleftrightarrow> rest = [])"
proof (induction ms arbitrary: w)
  case (Cons m ms)
  obtain x w1 where s: "try_send ops w m = (x, w1)" by fastforce
  show ?case
  proof (cases "x = Sent")
    case True
    with Cons.prems s have "flush_pending ops w1 ms = (status, w', rest)" by simp
    from Cons.IH [OF this] accepted_sent [of w m w1] s True show ?thesis by auto
  next
    case False
    with Cons.prems s refused_same [OF s] show ?thesis by (cases x) auto
  qed
qed simp

end

definition acc_of :: "('w \<Rightarrow> bytes list) \<Rightarrow> 'w server_state \<Rightarrow> chan_id \<Rightarrow> bytes list" where
  "acc_of accepted st w = accepted (channels st w)"

definition order_inv :: "('w \<Rightarrow> bytes list) \<Rightarrow> (token \<Rightarrow> nat) \<Rightarrow> ('s, 'w) fine_system \<Rightarrow> bool" where
  "order_inv accepted K s \<longleftrightarrow>
     retained (common s) = kept_lines (record_log s) \<and>
     ordered K (outboxes (common s)) (acc_of accepted (common s)) (record_log s) (running s)"

subsection \<open>Sections that no client notices\<close>

definition quiet :: "'w server_state \<Rightarrow> 'w server_state \<Rightarrow> bool" where
  "quiet st st' \<longleftrightarrow> history st' = history st \<and> channels st' = channels st \<and>
     (\<forall>a d. entry (outboxes st') a d \<longrightarrow> entry (outboxes st) a d)"

lemma quiet_refl [simp]: "quiet st st"
  by (simp add: quiet_def)

lemma ordered_quiet:
  assumes "ordered K (outboxes st) (acc_of accepted st) L ts" "own_channels (outboxes st)" "quiet st st'"
    and "\<And>a d'. entry (outboxes st') a d' \<Longrightarrow> late (recordings ts') a (cd_token d') = late (recordings ts) a (cd_token d')"
    and "\<And>t g. (t, g) \<in> set ts' \<Longrightarrow> task_in_order K (outboxes st) (acc_of accepted st) (recordings ts) L t g"
  shows "ordered K (outboxes st') (acc_of accepted st') L ts'"
  by (rule ordered_mono [OF assms(1,2) _ _ _ assms(4,5)]) (use assms(3) in \<open>auto simp: quiet_def acc_of_def\<close>)

lemma idle_task: "joining (phase t) = None \<Longrightarrow> stage_ok L g \<Longrightarrow> task_in_order K dl acc R L t g"
  by (simp add: task_in_order_def)

lemma remove_quiet:
  assumes "sound st"
  obtains b st' where "remove_client_if_current st a tok = (Ok b, st')" "quiet st st'"
    "\<And>d. entry (outboxes st') a d \<Longrightarrow> cd_token d \<noteq> tok"
proof -
  have inv: "server_inv st" using assms by (simp add: sound_def settled_def)
  from remove_spec [OF inv, of a tok] obtain st' where
    "remove_client_if_current st a tok = (Ok (tok \<in> cs_token ` set (hm_or [] a (sessions st))), st')" "same_rest st st'"
    "\<And>b. hm_or [] b (outboxes st') =
        (if b = a then filter (\<lambda>d. cd_token d \<noteq> tok) (hm_or [] a (outboxes st)) else hm_or [] b (outboxes st))"
    by metis
  then show ?thesis by (intro that) (auto simp: quiet_def same_rest_def split: if_splits)
qed

text \<open>Replacing the stage or the phase of one task by one that is not a recording.\<close>

lemma recordings_replace:
  assumes "recordings [(t, g)] = recordings [(t', g')]"
  shows "recordings (before @ (t', g') # after) = recordings (before @ (t, g) # after)"
  using assms by (cases g; cases g') auto

lemma ordered_task:
  assumes "ordered K (outboxes st) (acc_of accepted st) L (before @ (t, g) # after)" "own_channels (outboxes st)" "quiet st st'"
    and "\<And>a d'. entry (outboxes st') a d' \<Longrightarrow>
      late (recordings (before @ new @ after @ extra)) a (cd_token d') = late (recordings (before @ (t, g) # after)) a (cd_token d')"
    and "\<And>t' g'. (t', g') \<in> set (new @ extra) \<Longrightarrow>
      task_in_order K (outboxes st) (acc_of accepted st) (recordings (before @ (t, g) # after)) L t' g'"
  shows "ordered K (outboxes st') (acc_of accepted st') L (before @ new @ after @ extra)"
proof (rule ordered_quiet [OF assms(1-4)])
  show "task_in_order K (outboxes st) (acc_of accepted st) (recordings (before @ (t, g) # after)) L t' g'"
    if "(t', g') \<in> set (before @ new @ after @ extra)" for t' g'
    using that assms(5) orderedD(3) [OF assms(1), of t' g'] by auto
qed

subsection \<open>Presence\<close>

lemma sent_channels_unready:
  assumes "hm_wf dl" "\<And>a d. entry dl a d \<Longrightarrow> cd_writer d = w \<Longrightarrow> \<not> cd_ready d"
  shows "sent_channels ops m ex (concat (map snd dl)) chans w = chans w"
  using assms(2) set_flatten [OF assms(1)] by (auto simp: sent_channels_def)

lemma encode_is_chat: "encode_frame k p = Ok f \<Longrightarrow> is_chat f \<longleftrightarrow> k = Chat"
proof -
  assume e: "encode_frame k p = Ok f"
  let ?f = "\<lparr>version = CURRENT_PROTOCOL_VERSION, kind = k, payload = p\<rparr>"
  have "wf_frame ?f" "frame_bytes ?f = f" using e encode_frame_Ok_iff [of k p] by (auto simp: wf_frame_def frame_bytes_def)
  then show ?thesis using is_chat_frame [of ?f] by simp
qed

context traced_mpsc
begin

lemma accepted_sent_channels:
  assumes "hm_wf dl"
  shows "accepted (sent_channels ops m None (concat (map snd dl)) chans w) =
    (if (\<exists>a d. entry dl a d \<and> cd_ready d \<and> cd_writer d = w) \<and> fst (try_send ops (chans w) m) = Sent
     then accepted (chans w) @ [m] else accepted (chans w))"
proof -
  have "(\<exists>d \<in> set (concat (map snd dl)). is_target None d \<and> cd_ready d \<and> cd_writer d = w) \<longleftrightarrow>
      (\<exists>a d. entry dl a d \<and> cd_ready d \<and> cd_writer d = w)"
    using set_flatten [OF assms] by (auto simp: is_target_def)
  then show ?thesis unfolding sent_channels_def by (simp only: accepted_send if_distrib [of accepted] cong: if_cong) auto
qed

lemma presence_spread_ordered:
  assumes "sound st" "orders_ok it" "\<not> is_chat f"
    and "ordered K (outboxes st) (acc_of accepted st) L (before @ (t, Updating (Spreading f)) # after)"
    and "broadcast_section ops it st f None = (Ok ds, st')" and idle: "joining (phase t) = None"
  shows "history st' = history st \<and>
    ordered K (outboxes st') (acc_of accepted st') L (before @ (t, Updating (Dropping ds)) # after)"
proof -
  note set = sound_settled [OF assms(1)]
  have wf: "hm_wf (outboxes st)" using settledD(1) [OF set] by (simp add: server_inv_def delivery_inv_def)
  obtain ds2 st2 where b: "broadcast_section ops it st f None = (Ok ds2, st2)" "history st2 = history st"
    "channels st2 = sent_channels ops f None (concat (map snd (outboxes st))) (channels st)"
    "\<And>a. hm_or [] a (outboxes st2) = map (after_broadcast f None) (hm_or [] a (outboxes st))"
    by (rule broadcast_section_spec [OF set assms(2), of ops f None], rule that)
  have st2: "st2 = st'" "ds2 = ds" using b(1) assms(5) by simp_all
  have "ordered K (outboxes st2) (acc_of accepted st2) L (before @ (t, Updating (Dropping ds)) # after)"
  proof (rule ordered_mono [OF assms(4) settledD(2) [OF set]])
    show "\<exists>d. entry (outboxes st) a d \<and> cd_token d' = cd_token d \<and> cd_writer d' = cd_writer d \<and>
      cd_ready d' = cd_ready d \<and> chats (cd_pending d') = chats (cd_pending d)" if "entry (outboxes st2) a d'" for a d'
      using that assms(3) by (auto simp: b(4) after_broadcast_def)
    show "chats (acc_of accepted st2 w) = chats (acc_of accepted st w)" for w
      using assms(3) by (simp add: acc_of_def b(3) accepted_sent_channels [OF wf])
    show "acc_of accepted st2 w = acc_of accepted st w"
      if "\<And>a d. entry (outboxes st) a d \<Longrightarrow> cd_writer d = w \<Longrightarrow> \<not> cd_ready d" for w
    proof -
      have "sent_channels ops f None (concat (map snd (outboxes st))) (channels st) w = channels st w"
        by (rule sent_channels_unready [OF wf]) (rule that)
      then show ?thesis by (simp add: acc_of_def b(3))
    qed
    show "task_in_order K (outboxes st) (acc_of accepted st) (recordings (before @ (t, Updating (Spreading f)) # after)) L u g"
      if "(u, g) \<in> set (before @ (t, Updating (Dropping ds)) # after)" for u g
      using that orderedD(3) [OF assms(4), of u g] idle by (auto intro: idle_task)
  qed simp
  with b(2) show ?thesis unfolding st2 by simp
qed

lemma presence_goes_ordered:
  assumes "sound st" "orders_ok it" "g = Start \<or> (\<exists>r. g = Updating r)" "joining (phase t) = None"
    and "ordered K (outboxes st) (acc_of accepted st) L (before @ (t, g) # after)"
    and "presence_section ops it g st = (Inl g', st')"
  shows "history st' = history st \<and> ordered K (outboxes st') (acc_of accepted st') L (before @ (t, g') # after)"
proof -
  have own: "own_channels (outboxes st)" using assms(1) by (simp add: sound_def settled_def)
  have go: ?thesis if "quiet st st'" "g' = Updating r" "stage_ok L g'" for r
  proof -
    have "ordered K (outboxes st') (acc_of accepted st') L (before @ [(t, g')] @ after @ [])"
      by (rule ordered_task [OF assms(5) own that(1)]) (use assms(3,4) that in \<open>auto intro: idle_task\<close>)
    with that(1) show ?thesis by (simp add: quiet_def)
  qed
  consider (start) "g = Start" | (prune) a tok ds where "g = Updating (Pruning ((a, tok) # ds))" | (names) "g = Updating (Pruning [])"
    | (spread) f where "g = Updating (Spreading f)" | (drop) a tok ds where "g = Updating (Dropping ((a, tok) # ds))"
    | (ended) "g = Updating (Dropping [])"
    using assms(3) by (metis list.exhaust presence_stage.exhaust surj_pair)
  then show ?thesis
  proof cases
    case start
    with assms(6) show ?thesis by (intro go) (auto simp: in_section_Inl prune_section_def split: if_splits)
  next
    case prune
    obtain b st1 where "remove_client_if_current st a tok = (Ok b, st1)" "quiet st st1" by (rule remove_quiet [OF assms(1)])
    with prune assms(6) show ?thesis by (intro go [of "Pruning ds"]) auto
  next
    case names
    obtain us where "usernames (clients_order it) st = (Ok us, st)"
      "encode_presence us = Ok (frame_bytes \<lparr>version = CURRENT_PROTOCOL_VERSION, kind = Presence, payload = presence_payload us\<rparr>)"
      "wf_frame \<lparr>version = CURRENT_PROTOCOL_VERSION, kind = Presence, payload = presence_payload us\<rparr>"
      by (rule list_names [OF assms(1,2)])
    with names assms(6) show ?thesis by (intro go) (auto simp: is_chat_frame)
  next
    case spread
    have "\<not> is_chat f" using orderedD(3) [OF assms(5), of t g] spread by (simp add: task_in_order_def)
    moreover obtain ds where "broadcast_section ops it st f None = (Ok ds, st')" "g' = Updating (Dropping ds)"
      using assms(6) spread by (auto simp: in_section_Inl)
    ultimately show ?thesis using presence_spread_ordered [OF assms(1,2)] assms(4,5) spread by blast
  next
    case drop
    obtain b st1 where "remove_client_if_current st a tok = (Ok b, st1)" "quiet st st1" by (rule remove_quiet [OF assms(1)])
    with drop assms(6) show ?thesis by (intro go [of "Dropping ds"]) auto
  qed (use assms(6) in simp)
qed

end

end
