(* ===== verification/Ordering_Lines.thy ===== *)
theory Ordering_Lines
  imports Ordering_Inv
begin

section \<open>The sections that record a line\<close>

text \<open>
  Recording a line, broadcasting it and evicting the clients that could not take it keep the
  order of the lines: the three stages of \<open>line_section\<close>.
\<close>

subsection \<open>Recording\<close>

lemma kept_lines_snoc:
  assumes "entries h = kept_lines L" "limit h = MESSAGE_HISTORY_LIMIT"
  shows "entries (history_record l h) = kept_lines (L @ [(trim_end_matches 0x0A l, f)])"
proof -
  have "entries h = drop (length (map fst L) - limit h) (map fst L)"
    using assms by (simp add: kept_lines_def drop_map)
  from history_record_entries [OF this, of l] assms(2) show ?thesis
    by (simp add: kept_lines_def flip: drop_map)
qed

lemma line_start_ordered:
  assumes "sound st" "joining (phase t) = None" "retained st = kept_lines L"
    and content: "trim_end_matches 0x0A content = trim_end_matches 0x0A line"
    and "ordered K (outboxes st) (acc_of accepted st) L (before @ (t, Start) # after)" "holders (before @ after) = []"
    and "line_section ops it line content Start st = (Inl g', st')"
  shows "retained st' = kept_lines (L @ recorded_by Start g') \<and>
    ordered K (outboxes st') (acc_of accepted st') (L @ recorded_by Start g') (before @ (t, g') # after)"
proof -
  obtain f where f: "encode_frame Chat (as_bytes content) = Ok f" "g' = Recording (Recorded line f)"
    "st' = st\<lparr>history := mutex_set (history_record line (guarded (history st))) (history st)\<rparr>"
    using assms(7) by (auto split: result.splits if_splits)
  have "str_len content \<le> MAX_FRAME_PAYLOAD_BYTES" using f(1) encode_frame_Ok_iff [of Chat "as_bytes content"] by auto
  then have "short_line content" by (simp add: short_line_def)
  with f(1) encode_short [of content] have "log_entry (trim_end_matches 0x0A line, f)"
    by (auto simp: log_entry_def content [symmetric])
  moreover have "limit (guarded (history st)) = MESSAGE_HISTORY_LIMIT" using assms(1) by (simp add: sound_def)
  moreover have "acc_of accepted st' = acc_of accepted st" by (simp add: f(3) acc_of_def fun_eq_iff)
  ultimately show ?thesis
    using ordered_recorded [OF assms(5) _ _ assms(2), of line f] assms(3,6)
    by (simp add: f(2,3) kept_lines_snoc)
qed

context traced_mpsc
begin

lemma line_spread_ordered:
  assumes "sound st" "orders_ok it" "joining (phase t) = None" "holders (before @ after) = []"
    and ord: "ordered K (outboxes st) (acc_of accepted st) L (before @ (t, Recording (Recorded l f)) # after)"
    and "broadcast_section ops it st f None = (Ok ds, st')"
  shows "history st' = history st \<and>
    ordered K (outboxes st') (acc_of accepted st') L (before @ (t, Recording (Evicting ds b)) # after)"
proof -
  note set = sound_settled [OF assms(1)]
  have wf: "hm_wf (outboxes st)" and dinv: "delivery_inv (outboxes st)"
    using settledD(1) [OF set] by (simp_all add: server_inv_def delivery_inv_def)
  obtain ds2 st2 where sec: "broadcast_section ops it st f None = (Ok ds2, st2)" "history st2 = history st"
    "channels st2 = sent_channels ops f None (concat (map snd (outboxes st))) (channels st)"
    "\<And>a. hm_or [] a (outboxes st2) = map (after_broadcast f None) (hm_or [] a (outboxes st))"
    "\<And>a tok. (a, tok) \<in> set ds2 \<longleftrightarrow>
       (\<exists>d \<in> set (hm_or [] a (outboxes st)). cd_token d = tok \<and> cannot_serve ops (channels st) f None d)"
    by (rule broadcast_section_spec [OF set assms(2), of ops f None], rule that)
  have st2: "st2 = st'" "ds2 = ds" using sec(1) assms(6) by simp_all
  have "ordered K (outboxes st2) (acc_of accepted st2) L (before @ (t, Recording (Evicting ds b)) # after)"
  proof (rule ordered_broadcast [OF ord assms(4) settledD(2) [OF set] dinv _ assms(3) sec(4),
        where doomed = "set ds" and sends = "\<lambda>w. fst (try_send ops (channels st w) f) = Sent"])
    show "late {Evicting ds b} a tok \<longleftrightarrow> (a, tok) \<in> set ds" for a tok by (auto simp: late_def)
    show "(a, cd_token d) \<in> set ds \<longleftrightarrow>
      (if cd_ready d then \<not> fst (try_send ops (channels st (cd_writer d)) f) = Sent else PENDING_MESSAGES_LIMIT \<le> length (cd_pending d))"
      if d: "entry (outboxes st) a d" for a d
    proof -
      have "(a, cd_token d) \<in> set ds \<longleftrightarrow> cannot_serve ops (channels st) f None d"
        using sec(5) [of a "cd_token d"] outbox_tokens_distinct [OF settledD(1) [OF set] _ d] d unfolding st2 by blast
      then show ?thesis by (simp add: cannot_serve_def is_target_def)
    qed
    show "acc_of accepted st2 w = (if (\<exists>a d. entry (outboxes st) a d \<and> cd_ready d \<and> cd_writer d = w) \<and>
        fst (try_send ops (channels st w) f) = Sent then acc_of accepted st w @ [f] else acc_of accepted st w)" for w
      unfolding acc_of_def sec(3) by (rule accepted_sent_channels [OF wf])
  qed simp
  with sec(2) show ?thesis unfolding st2 by simp
qed

lemma line_goes_ordered:
  assumes "sound st" "orders_ok it" "joining (phase t) = None" "holders (before @ after) = []"
    and ord: "ordered K (outboxes st) (acc_of accepted st) L (before @ (t, Recording r) # after)"
    and "line_section ops it line content (Recording r) st = (Inl g', st')"
  shows "history st' = history st \<and> ordered K (outboxes st') (acc_of accepted st') L (before @ (t, g') # after)"
proof -
  have own: "own_channels (outboxes st)" using assms(1) by (simp add: sound_def settled_def)
  consider (spread) l f where "r = Recorded l f" | (evict) a tok ds b where "r = Evicting ((a, tok) # ds) b"
    | (ended) b where "r = Evicting [] b"
    by (metis line_stage.exhaust list.exhaust surj_pair)
  then show ?thesis
  proof cases
    case spread
    obtain ds where "broadcast_section ops it st f None = (Ok ds, st')" "g' = Recording (Evicting ds (ds \<noteq> []))"
      using assms(6) spread by (auto simp: in_section_Inl under_barrier_Ok)
    with line_spread_ordered [OF assms(1-4)] ord spread show ?thesis by blast
  next
    case evict
    obtain x st1 where rm: "remove_client_if_current st a tok = (Ok x, st1)" "quiet st st1"
      "\<And>d. entry (outboxes st1) a d \<Longrightarrow> cd_token d \<noteq> tok" by (rule remove_quiet [OF assms(1), of a tok], rule that)
    with evict assms(6) have st': "st' = st1" "g' = Recording (Evicting ds b)" by auto
    have none: "recordings before = {}" "recordings after = {}" using no_recordings [OF assms(4)] by simp_all
    have "ordered K (outboxes st') (acc_of accepted st') L (before @ [(t, g')] @ after @ [])"
    proof (rule ordered_task [OF ord own])
      show "late (recordings (before @ [(t, g')] @ after @ [])) c (cd_token d) =
          late (recordings (before @ (t, Recording r) # after)) c (cd_token d)"
        if "entry (outboxes st') c d" for c d
        using rm(3) [of d] that by (auto simp: st' evict none late_def)
    qed (use rm(2) st' assms(3) in \<open>auto intro: idle_task\<close>)
    with rm(2) show ?thesis by (simp add: quiet_def st')
  qed (use assms(6) in simp)
qed

subsection \<open>Replaying\<close>

lemma replay_start_ordered:
  assumes "sound st" "phase t = Replay u tok"
    and ord: "ordered K (outboxes st) (acc_of accepted st) L (before @ (t, Start) # after)"
    and "replay_section ops (peer t) tok Start st = (Inl g', st')"
  shows "st' = st \<and> ordered K (outboxes st) (acc_of accepted st) L (before @ (t, g') # after)"
proof -
  have own: "own_channels (outboxes st)" and inv: "server_inv st" using assms(1) by (simp_all add: sound_def settled_def)
  obtain d where d: "find_client (peer t) tok (outboxes st) = Some d" "g' = Replaying (Copying (cd_writer d))" "st' = st"
    using assms(4) by (auto split: if_splits option.splits)
  then have e: "entry (outboxes st) (peer t) d" "cd_token d = tok" using find_client_iff [OF inv] by blast+
  let ?R = "recordings (before @ (t, Start) # after)"
  have t: "task_in_order K (outboxes st) (acc_of accepted st) ?R L t Start" using orderedD(3) [OF ord, of t Start] by simp
  have "owns (outboxes st) (cd_writer d) (peer t) tok"
    unfolding owns_def using own_unique [OF own _ e(1)] outbox_tokens_distinct [OF inv _ e(1)] e(2) by metis
  with t e have new: "task_in_order K (outboxes st) (acc_of accepted st) ?R L t g'"
    by (simp add: task_in_order_def assms(2) d(2))
  have "ordered K (outboxes st) (acc_of accepted st) L (before @ [(t, g')] @ after @ [])"
    by (rule ordered_task [OF ord own quiet_refl]) (use new d(2) in auto)
  with d(3) show ?thesis by simp
qed

lemma replay_copy_ordered:
  assumes "sound st" "phase t = Replay u tok" "retained st = kept_lines L"
    and ord: "ordered K (outboxes st) (acc_of accepted st) L (before @ (t, Replaying (Copying w)) # after)"
  shows "ordered K (outboxes st) (acc_of accepted st) L (before @ (t, Replaying (Sending w (retained st))) # after)"
proof -
  have own: "own_channels (outboxes st)" using assms(1) by (simp add: sound_def settled_def)
  let ?R = "recordings (before @ (t, Replaying (Copying w)) # after)"
  have "task_in_order K (outboxes st) (acc_of accepted st) ?R L t (Replaying (Copying w))"
    using orderedD(3) [OF ord, of t "Replaying (Copying w)"] by simp
  then have new: "task_in_order K (outboxes st) (acc_of accepted st) ?R L t (Replaying (Sending w (retained st)))"
    by (simp add: task_in_order_def assms(2,3))
  have "ordered K (outboxes st) (acc_of accepted st) L (before @ [(t, Replaying (Sending w (retained st)))] @ after @ [])"
    by (rule ordered_task [OF ord own quiet_refl]) (use new in auto)
  then show ?thesis by simp
qed

lemma replay_send_ordered:
  assumes "sound st" "phase t = Replay u tok" "retained st = kept_lines L" "holders (before @ after) = []"
    and others: "\<And>v g. (v, g) \<in> set (before @ after) \<Longrightarrow> joining (phase v) \<noteq> Some tok"
    and ord: "ordered K (outboxes st) (acc_of accepted st) L (before @ (t, Replaying (Sending w (l # ls))) # after)"
    and sent: "try_send ops (channels st w) (chat_bytes l) = (Sent, c)"
  defines "st' \<equiv> st\<lparr>channels := (channels st)(w := c)\<rparr>"
  shows "ordered K (outboxes st') (acc_of accepted st') L (before @ (t, Replaying (Sending w ls)) # after)"
proof -
  let ?ts = "before @ (t, Replaying (Sending w (l # ls))) # after" and ?ts' = "before @ (t, Replaying (Sending w ls)) # after"
  have R: "recordings ?ts = {}" "recordings ?ts' = {}" using no_recordings [OF assms(4)] by simp_all
  have "task_in_order K (outboxes st) (acc_of accepted st) (recordings ?ts) L t (Replaying (Sending w (l # ls)))"
    using orderedD(3) [OF ord, of t "Replaying (Sending w (l # ls))"] by simp
  then obtain sofar where d: "waiting K (outboxes st) {} L (peer t) tok" "owns (outboxes st) w (peer t) tok"
    "kept_lines L = sofar @ l # ls" "acc_of accepted st w = map chat_bytes sofar"
    unfolding R by (auto simp: task_in_order_def assms(2))
  have acc: "acc_of accepted st' v = (if v = w then map chat_bytes (sofar @ [l]) else acc_of accepted st v)" for v
    using accepted_sent [OF sent] d(4) by (simp add: acc_of_def st'_def)
  have short: "list_all short_line (kept_lines L)" using assms(1,3) by (simp add: sound_def)
  have box: "outboxes st' = outboxes st" by (simp add: st'_def)
  show ?thesis
    unfolding box
  proof (rule ordered_touch [OF ord, where a = "peer t" and tok = tok and w = w])
    show "(b, cd_token e) = (peer t, tok)" if "entry (outboxes st) b e" "cd_writer e = w" for b e
      using d(2) that by (auto simp: owns_def)
    show "cd_writer e = w" if "entry (outboxes st) (peer t) e" "cd_token e = tok" for e
      using d(2) that by (auto simp: owns_def)
    show "client_ok K (acc_of accepted st') (recordings ?ts) L (peer t) e" if e: "entry (outboxes st) (peer t) e" "cd_token e = tok" for e
    proof -
      have "cd_writer e = w" using d(2) e by (auto simp: owns_def)
      moreover have k: "K tok \<le> length L" "chats (cd_pending e) = live (drop (K tok) L)" "\<not> cd_ready e"
        using d(1) e by (simp_all add: waiting_def delivered_def)
      moreover have "chats (map chat_bytes (sofar @ [l])) = map chat_bytes (sofar @ [l])"
        using short unfolding d(3) by (intro chats_map_chat_bytes) simp
      moreover have "replayed (take (length L) L) = map chat_bytes (sofar @ [l]) @ map chat_bytes ls"
        by (simp add: replayed_def d(3))
      ultimately show ?thesis
        unfolding client_ok_def R in_order_def delivered_def acc
        by - (rule exI [of _ "length L"], simp add: e(2))
    qed
    show "task_in_order K (outboxes st) (acc_of accepted st') (recordings ?ts) L v g \<or>
      (v, g) \<in> set ?ts \<and> (joining (phase v) = Some tok \<longrightarrow> peer v \<noteq> peer t) \<and> channel_of g \<noteq> Some w"
      if "(v, g) \<in> set ?ts'" for v g
    proof (cases "(v, g) = (t, Replaying (Sending w ls))")
      case True
      then show ?thesis using d(1-3) unfolding R by (simp add: task_in_order_def assms(2) acc)
    next
      case False
      with that have "(v, g) \<in> set (before @ after)" by auto
      with others [OF this] no_channels [OF assms(4) this] show ?thesis by auto
    qed
  qed (simp_all add: R acc)
qed


lemma update_first_changed:
  "distinct (map g xs) \<Longrightarrow> (\<And>x. g (f x) = g x) \<Longrightarrow> y \<in> set (update_first (\<lambda>x. g x = k) f xs) \<Longrightarrow> g y = k \<Longrightarrow>
     \<exists>x \<in> set xs. g x = k \<and> y = f x"
  by (induction xs) (auto split: if_splits)

lemma update_client_entry:
  assumes "server_inv st" "\<And>d. cd_token (f d) = cd_token d" "entry (update_client a tok f (outboxes st)) b e"
  shows "if (b, cd_token e) = (a, tok) then \<exists>d. entry (outboxes st) a d \<and> cd_token d = tok \<and> e = f d else entry (outboxes st) b e"
proof -
  have dist: "distinct (map cd_token (hm_or [] a (outboxes st)))"
    using assms(1) by (auto simp: server_inv_def in_step_def intro: registry_invD(8))
  show ?thesis
    using assms(3) update_first_changed [where g = cd_token and k = tok, OF dist assms(2)]
      set_update_first [of e "\<lambda>d. cd_token d = tok" f "hm_or [] a (outboxes st)"] assms(2)
    by (auto simp: update_client_or split: if_splits)
qed

lemma replay_mark_ordered:
  assumes "sound st" "phase t = Replay u tok" "retained st = kept_lines L" "holders (before @ after) = []"
    and others: "\<And>v g. (v, g) \<in> set (before @ after) \<Longrightarrow> joining (phase v) \<noteq> Some tok"
    and ord: "ordered K (outboxes st) (acc_of accepted st) L (before @ (t, Replaying (Sending w [])) # after)"
    and mark: "mark_client_ready ops st (peer t) tok = (r, st')" and t': "joining (phase t') = None"
  shows "history st' = history st \<and> ordered K (outboxes st') (acc_of accepted st') L (before @ (t', Start) # after)"
proof -
  have own: "own_channels (outboxes st)" and inv: "server_inv st" using assms(1) by (simp_all add: sound_def settled_def)
  have h: "\<not> poisoned (deliveries st)" using inv by (simp add: server_inv_def healthy_def)
  let ?ts = "before @ (t, Replaying (Sending w [])) # after" and ?ts' = "before @ (t', Start) # after"
  have R: "recordings ?ts = {}" "recordings ?ts' = {}" using no_recordings [OF assms(4)] by simp_all
  have "task_in_order K (outboxes st) (acc_of accepted st) (recordings ?ts) L t (Replaying (Sending w []))"
    using orderedD(3) [OF ord, of t "Replaying (Sending w [])"] by simp
  then have wt: "waiting K (outboxes st) {} L (peer t) tok" "owns (outboxes st) w (peer t) tok"
    "acc_of accepted st w = replayed L"
    unfolding R by (auto simp: task_in_order_def assms(2) replayed_def)
  show ?thesis
  proof (cases "find_client (peer t) tok (outboxes st)")
    case None
    then have "st' = st" using mark h by (simp add: mark_client_ready_def)
    moreover have "ordered K (outboxes st) (acc_of accepted st) L (before @ [(t', Start)] @ after @ [])"
      by (rule ordered_task [OF ord own quiet_refl]) (use t' in \<open>auto intro: idle_task\<close>)
    ultimately show ?thesis by simp
  next
    case (Some d)
    then have e: "entry (outboxes st) (peer t) d" "cd_token d = tok" using find_client_iff [OF inv] by blast+
    have w: "cd_writer d = w" using wt(2) e by (simp add: owns_def)
    obtain status c rest where fl: "flush_pending ops (channels st w) (cd_pending d) = (status, c, rest)"
      by (cases rule: prod_cases3)
    from flush_accepted [OF fl] obtain sent where sent: "cd_pending d = sent @ rest"
      "accepted c = accepted (channels st w) @ sent" "status = Sent \<longleftrightarrow> rest = []" by blast
    define f where "f = (\<lambda>d :: client_delivery. d\<lparr>cd_pending := rest, cd_ready := (if status = Sent then True else cd_ready d)\<rparr>)"
    have st': "st' = st\<lparr>deliveries := mutex_set (update_client (peer t) tok f (outboxes st)) (deliveries st),
        channels := (channels st)(w := c)\<rparr>"
      using mark h Some fl w sent(3) by (cases status) (auto simp: mark_client_ready_def Let_def f_def)
    have f: "cd_token (f e) = cd_token e" "cd_writer (f e) = cd_writer e" for e by (simp_all add: f_def)
    note entries = update_client_entry [where a = "peer t" and tok = tok, OF inv f(1)]
    have d_only: "e = d" if "entry (outboxes st) (peer t) e" "cd_token e = tok" for e
      using outbox_tokens_distinct [OF inv that(1) e(1)] that(2) e(2) by simp
    have acc: "acc_of accepted st' v = (if v = w then replayed L @ sent else acc_of accepted st v)" for v
      using sent(2) wt(3) by (simp add: acc_of_def st')
    have k: "K tok \<le> length L" "chats (cd_pending d) = live (drop (K tok) L)" "\<not> cd_ready d"
      using wt(1) e by (simp_all add: waiting_def delivered_def)
    have "ordered K (outboxes st') (acc_of accepted st') L ?ts'"
    proof (rule ordered_touch [OF ord, where a = "peer t" and tok = tok and w = w])
      show "entry (outboxes st) b e" if "entry (outboxes st') b e" "(b, cd_token e) \<noteq> (peer t, tok)" for b e
        using entries [where b = b and e = e] that by (simp add: st')
      show "(b, cd_token e) = (peer t, tok)" if "entry (outboxes st) b e" "cd_writer e = w" for b e
        using wt(2) that by (auto simp: owns_def)
      have changed: "e = f d" if "entry (outboxes st') (peer t) e" "cd_token e = tok" for e
        using entries [where b = "peer t" and e = e] that d_only by (auto simp: st')
      show "cd_writer e = w" if "entry (outboxes st') (peer t) e" "cd_token e = tok" for e
        using changed [OF that] w by (simp add: f(2))
      show "client_ok K (acc_of accepted st') (recordings ?ts) L (peer t) e" if en: "entry (outboxes st') (peer t) e" "cd_token e = tok" for e
      proof -
        have "chats (replayed L) = replayed L"
          using assms(1,3) unfolding replayed_def by (intro chats_map_chat_bytes) (simp add: sound_def)
        then have "chats (replayed L @ sent) @ chats rest = replayed (take (length L) L) @ live (drop (K tok) L)"
          using k(2) by (simp add: sent(1))
        with k(1) have "in_order (K tok) L (cd_ready e) (chats (acc_of accepted st' (cd_writer e))) (chats (cd_pending e))"
          unfolding in_order_def changed [OF en] f(2) w acc
          by - (rule exI [of _ "length L"], simp add: f_def)
        then show ?thesis unfolding R by (simp add: client_ok_def delivered_def en(2))
      qed
      show "task_in_order K (outboxes st') (acc_of accepted st') (recordings ?ts) L v g \<or>
        (v, g) \<in> set ?ts \<and> (joining (phase v) = Some tok \<longrightarrow> peer v \<noteq> peer t) \<and> channel_of g \<noteq> Some w"
        if "(v, g) \<in> set ?ts'" for v g
      proof (cases "(v, g) = (t', Start)")
        case True
        then show ?thesis using t' by (auto intro: idle_task)
      next
        case False
        with that have "(v, g) \<in> set (before @ after)" by auto
        with others [OF this] no_channels [OF assms(4) this] show ?thesis by auto
      qed
    qed (simp_all add: R acc)
    then show ?thesis by (simp add: st')
  qed
qed

end

end
