(* ===== verification/Ordering_Server.thy ===== *)
theory Ordering_Server
  imports Ordering_Lines
begin

section \<open>The other sections and the returns of calls\<close>

text \<open>
  What the order of the lines rests on when a call returns: only a registration and the end of a
  replay change which lines a client is owed; every other call leaves the channels and the
  history as they are for the clients that stay.
\<close>

subsection \<open>How calls return\<close>

lemma after_call_Ok:
  "after_call out nxt failed = (Ok q, st') \<longleftrightarrow>
     (\<exists>x. out = (Ok x, st') \<and> q = nxt x) \<or> (\<exists>e. out = (Err e, st') \<and> q = failed)"
  by (cases "(out, nxt, failed)" rule: after_call.cases) auto

lemma resume_Inr:
  "resume out nxt failed = (Inr (Ok q), st') \<longleftrightarrow>
     (\<exists>r. out = (Inr r, st') \<and> ((\<exists>x. r = Ok x \<and> q = nxt x) \<or> (\<exists>e. r = Err e \<and> q = failed)))"
  by (cases "(out, nxt, failed)" rule: resume.cases) (auto simp: after_call_Ok split: prod.splits)

text \<open>No call but those of \<open>Register\<close> and \<open>Name\<close> leads to a phase on the way to the replay.\<close>

definition stays_joined :: "('a \<Rightarrow> phase option) \<Rightarrow> phase option \<Rightarrow> bool" where
  "stays_joined nxt failed \<longleftrightarrow>
     (\<forall>x p. nxt x = Some p \<longrightarrow> joining p = None) \<and> (\<forall>p. failed = Some p \<longrightarrow> joining p = None)"

lemma stays_joined_returns: "stays_joined nxt failed \<Longrightarrow> resume out nxt failed = (Inr (Ok (Some p)), st') \<Longrightarrow> joining p = None"
  by (auto simp: stays_joined_def resume_Inr)

lemma presence_phase_section:
  assumes "kind_of_call p = Presence_update"
  shows "\<exists>nxt failed. (\<forall>g st. task_section ops it rnd i a p g st = resume (presence_section ops it g st) nxt failed) \<and>
    stays_joined nxt failed"
proof (cases p)
  case (ShowUsers u tok)
  show ?thesis unfolding ShowUsers by (intro exI conjI allI, rule task_section.simps(2), simp add: stays_joined_def)
next
  case (JoinUsers u tok)
  show ?thesis unfolding JoinUsers by (intro exI conjI allI, rule task_section.simps(4), simp add: stays_joined_def)
next
  case (LineUsers u tok)
  show ?thesis unfolding LineUsers by (intro exI conjI allI, rule task_section.simps(6), simp add: stays_joined_def)
next
  case (LeaveUsers u tok f)
  show ?thesis unfolding LeaveUsers by (intro exI conjI allI, rule task_section.simps(8), simp add: stays_joined_def)
next
  case WriterUsers
  show ?thesis unfolding WriterUsers by (intro exI conjI allI, rule task_section.simps(10), simp add: stays_joined_def)
qed (use assms in simp_all)

lemma line_phase_section:
  assumes "kind_of_call p = Line"
  shows "\<exists>line content nxt failed. (\<forall>g st. task_section ops it rnd i a p g st =
      resume (line_section ops it line content g st) nxt failed) \<and> stays_joined nxt failed"
proof (cases p)
  case (RecordJoin u tok)
  show ?thesis unfolding RecordJoin by (intro exI conjI allI, rule task_section.simps(3), simp add: stays_joined_def)
next
  case (Compose u tok c)
  show ?thesis unfolding Compose by (intro exI conjI allI, rule task_section.simps(5) [unfolded Let_def], simp add: stays_joined_def)
next
  case (RecordLeave u tok f)
  show ?thesis unfolding RecordLeave by (intro exI conjI allI, rule task_section.simps(7), simp add: stays_joined_def)
next
  case (WriterLeave u tok)
  show ?thesis unfolding WriterLeave by (intro exI conjI allI, rule task_section.simps(9), simp add: stays_joined_def)
qed (use assms in simp_all)

lemma presence_returns:
  assumes "sound st" "orders_ok it" "g = Start \<or> (\<exists>r. g = Updating r)" "presence_section ops it g st = (Inr r, st')"
  shows "st' = st"
proof -
  consider (start) "g = Start" | (prune) a tok ds where "g = Updating (Pruning ((a, tok) # ds))" | (names) "g = Updating (Pruning [])"
    | (spread) f where "g = Updating (Spreading f)" | (drop) a tok ds where "g = Updating (Dropping ((a, tok) # ds))"
    | (ended) "g = Updating (Dropping [])"
    using assms(3) by (metis list.exhaust presence_stage.exhaust surj_pair)
  then show ?thesis
  proof cases
    case start
    with assms(1,4) show ?thesis by (auto simp: prune_section_def sound_def settled_def server_inv_def healthy_def)
  next
    case prune
    obtain b st1 where "remove_client_if_current st a tok = (Ok b, st1)" by (rule remove_quiet [OF assms(1), of a tok], rule that)
    with prune assms(4) show ?thesis by simp
  next
    case names
    obtain us f where "usernames (clients_order it) st = (Ok us, st)" "encode_presence us = Ok f"
      by (rule list_names [OF assms(1,2)], rule that)
    with names assms(4) show ?thesis by simp
  next
    case spread
    obtain ds st1 where "broadcast_section ops it st f None = (Ok ds, st1)"
      by (rule broadcast_section_calm [OF assms(1,2), of ops f None], rule that)
    with spread assms(4) show ?thesis by simp
  next
    case drop
    obtain b st1 where "remove_client_if_current st a tok = (Ok b, st1)" by (rule remove_quiet [OF assms(1), of a tok], rule that)
    with drop assms(4) show ?thesis by simp
  qed (use assms(4) in simp_all)
qed

lemma line_returns:
  assumes "sound st" "orders_ok it" "g = Start \<or> (\<exists>r. g = Recording r)" "line_section ops it line content g st = (Inr r, st')"
  shows "st' = st \<and> (g = Start \<or> (\<exists>b. g = Recording (Evicting [] b)))"
proof -
  consider (start) "g = Start" | (spread) l f where "g = Recording (Recorded l f)"
    | (evict) a tok ds b where "g = Recording (Evicting ((a, tok) # ds) b)" | (ended) b where "g = Recording (Evicting [] b)"
    using assms(3) by (metis list.exhaust line_stage.exhaust surj_pair)
  then show ?thesis
  proof cases
    case start
    with assms(4) show ?thesis by (auto split: result.splits if_splits)
  next
    case spread
    obtain ds st1 where "broadcast_section ops it st f None = (Ok ds, st1)"
      by (rule broadcast_section_calm [OF assms(1,2), of ops f None], rule that)
    with spread assms(4) show ?thesis by simp
  next
    case evict
    obtain b st1 where "remove_client_if_current st a tok = (Ok b, st1)" by (rule remove_quiet [OF assms(1), of a tok], rule that)
    with evict assms(4) show ?thesis by simp
  qed (use assms(4) in simp)
qed

lemma set_username_quiet: "quiet st (snd (set_client_username st a tok u))"
  by (simp add: set_client_username_def quiet_def Let_def split: option.split)

lemma allow_message_quiet: "quiet st (snd (allow_message rnd time st a))"
  by (simp add: quiet_def allow_message_frame)

lemma frame_phase_quiet:
  assumes "frame_phase rnd i a u tok st = (Ok q, st')"
  shows "quiet st st' \<and> (\<forall>p. q = Some p \<longrightarrow> joining p = None)"
proof -
  have "quiet st st' \<and> (\<forall>p. q = Some p \<longrightarrow> joining p = None)"
    if "after_call (allow_message rnd (now i) st a) (\<lambda>_. Some (Compose u tok c)) (Some (Finish u tok True True)) = (Ok q, st')" for c
    using that allow_message_quiet [of st rnd "now i" a] by (auto simp: after_call_Ok)
  with assms show ?thesis
    by (auto simp: frame_phase_def split: option.splits result.splits if_splits)
qed

lemma atomic_quiet:
  assumes "sound st" "task_call ops it rnd i a p st = (Ok q, st')"
    and "kind_of_call p = Joining \<or> kind_of_call p = Removal \<or> kind_of_call p = Frame_read"
    and "\<And>u. p \<noteq> Register u" "\<And>u tok. p \<noteq> Replay u tok"
  shows "quiet st st' \<and>
    (\<forall>p'. q = Some p' \<longrightarrow> joining p' = None \<or> (\<exists>u tok. p = Name u tok \<and> p' = Replay u tok))"
proof -
  have rm: "quiet st st1" if "remove_client_if_current st a tok = (r, st1)" for tok r st1
    using remove_quiet [OF assms(1), of a tok] that by (metis prod.inject)
  have nm: "quiet st st1" if "set_client_username st a tok u = (r, st1)" for tok u r st1
    using set_username_quiet [of st a tok u] that by simp
  show ?thesis
  proof (cases p)
    case (Talk u tok)
    with assms(2) frame_phase_quiet [of rnd i a u tok st q st'] show ?thesis by simp
  next
    case (Name u tok)
    with assms(2) nm show ?thesis by (auto simp: after_call_Ok)
  next
    case (Handshaking)
    with assms(2) show ?thesis by (auto simp: after_call_Ok)
  next
    case (Forget tok)
    with assms(2) rm show ?thesis by (auto simp: after_call_Ok)
  next
    case (Finish u tok j f)
    with assms(2) rm show ?thesis by (auto simp: after_call_Ok split: if_splits)
  next
    case (Writing u tok)
    with assms(2) rm show ?thesis by (auto simp: after_call_Ok split: if_splits)
  next
    case (CheckJoined u tok)
    with assms(2) rm show ?thesis by (auto split: if_splits)
  qed (use assms(3-5) in simp_all)
qed

context traced_mpsc
begin

lemma replay_returns:
  assumes "sound st" "g = Start \<or> (\<exists>r. g = Replaying r)" "replay_section ops a tok g st = (Inr r, st')"
  obtains (same) "st' = st" | (marks) w x where "g = Replaying (Sending w [])" "mark_client_ready ops st a tok = (x, st')"
proof -
  consider (start) "g = Start" | (copy) w where "g = Replaying (Copying w)"
    | (send) w l ls where "g = Replaying (Sending w (l # ls))" | (mark) w where "g = Replaying (Sending w [])"
    using assms(2) by (metis list.exhaust replay_stage.exhaust)
  then show ?thesis
  proof cases
    case start
    with assms(3) same show ?thesis by (auto split: if_splits option.splits)
  next
    case copy
    with assms(3) same show ?thesis by (auto split: if_splits)
  next
    case send
    show ?thesis
    proof (cases "encode_frame Chat (as_bytes l)")
      case (Ok f)
      obtain status c where s: "try_send ops (channels st w) f = (status, c)" by fastforce
      with send Ok assms(3) have "status \<noteq> Sent" "st' = st\<lparr>channels := (channels st)(w := c)\<rparr>"
        by (cases status; simp del: fun_upd_apply)+
      with refused_same [OF s] same show ?thesis by simp
    qed (use send assms(3) same in auto)
  next
    case mark
    obtain x st1 where m: "mark_client_ready ops st a tok = (x, st1)" by fastforce
    with mark_client_ready_sound [OF assms(1), of ops a tok] have "x \<noteq> Panic" by auto
    then have "under_barrier (x, st1) = (x, st1)" by (cases x) simp_all
    with mark m assms(3) marks show ?thesis by simp
  qed
qed

text \<open>A task that returns from its call: nobody notices, or it became ready, or it registered.\<close>

lemma section_returns:
  assumes "sound st" "orders_ok it" "fits p g" "task_section ops it rnd i a p g st = (Inr (Ok q), st')"
  obtains (quietly) "quiet st st'" "\<And>r. g = Recording r \<Longrightarrow> \<exists>b. r = Evicting [] b"
      "\<And>p'. q = Some p' \<Longrightarrow> joining p' = None \<or> (\<exists>u tok. p = Name u tok \<and> p' = Replay u tok)"
    | (marked) u tok w x where "p = Replay u tok" "g = Replaying (Sending w [])" "mark_client_ready ops st a tok = (x, st')"
      "q \<noteq> None" "\<And>p'. q = Some p' \<Longrightarrow> joining p' = None"
    | (registers) u where "p = Register u" "g = Start" "task_call ops it rnd i a p st = (Ok q, st')"
proof -
  consider (presence) "kind_of_call p = Presence_update" | (line) "kind_of_call p = Line" | (replay) u tok where "p = Replay u tok"
    | (register) u where "p = Register u"
    | (atomic) "kind_of_call p = Joining \<or> kind_of_call p = Removal \<or> kind_of_call p = Frame_read"
      "\<And>u. p \<noteq> Register u" "\<And>u tok. p \<noteq> Replay u tok"
    by (cases "kind_of_call p") auto
  then show ?thesis
  proof cases
    case presence
    have g: "g = Start \<or> (\<exists>r. g = Updating r)" using assms(3) presence by (cases g) auto
    obtain nxt failed where n: "task_section ops it rnd i a p g st = resume (presence_section ops it g st) nxt failed"
      "stays_joined nxt failed" using presence_phase_section [OF presence, of ops it rnd i a] by blast
    have j: "q = Some p' \<Longrightarrow> joining p' = None" for p'
      using stays_joined_returns [OF n(2), of "presence_section ops it g st" p' st'] assms(4) n(1) by simp
    obtain r where "presence_section ops it g st = (Inr r, st')" using assms(4) n(1) by (auto simp: resume_Inr)
    then have "st' = st" by (rule presence_returns [OF assms(1,2) g])
    with g j show ?thesis by (intro quietly) auto
  next
    case line
    have g: "g = Start \<or> (\<exists>r. g = Recording r)" using assms(3) line by (cases g) auto
    obtain ln ct nxt failed where n: "task_section ops it rnd i a p g st = resume (line_section ops it ln ct g st) nxt failed"
      "stays_joined nxt failed" using line_phase_section [OF line, of ops it rnd i a] by blast
    have j: "q = Some p' \<Longrightarrow> joining p' = None" for p'
      using stays_joined_returns [OF n(2), of "line_section ops it ln ct g st" p' st'] assms(4) n(1) by simp
    obtain r where "line_section ops it ln ct g st = (Inr r, st')" using assms(4) n(1) by (auto simp: resume_Inr)
    then have "st' = st \<and> (g = Start \<or> (\<exists>b. g = Recording (Evicting [] b)))" by (rule line_returns [OF assms(1,2) g])
    with j show ?thesis by (intro quietly) auto
  next
    case replay
    have g: "g = Start \<or> (\<exists>r. g = Replaying r)" using assms(3) replay by (cases g) auto
    obtain r where r: "replay_section ops a tok g st = (Inr r, st')" and j: "q \<noteq> None" "\<And>p'. q = Some p' \<Longrightarrow> joining p' = None"
      using assms(4) replay by (auto simp: resume_Inr)
    show ?thesis
    proof (rule replay_returns [OF assms(1) g r])
      assume "st' = st"
      with g j show thesis by (intro quietly) auto
    next
      fix w x assume "g = Replaying (Sending w [])" "mark_client_ready ops st a tok = (x, st')"
      with replay j show thesis by (intro marked) auto
    qed
  next
    case register
    then have "g = Start" using assms(3) by (cases g) auto
    with register assms(4) registers show ?thesis by (auto simp del: task_call.simps split: prod.splits)
  next
    case atomic
    have g: "g = Start" using assms(3) atomic by (cases g) auto
    have "task_call ops it rnd i a p st = (Ok q, st')"
      using assms(4) atomic by (cases p) (auto simp del: task_call.simps split: prod.splits)
    from atomic_quiet [OF assms(1) this atomic] g show ?thesis by (intro quietly) auto
  qed
qed

end

end
