(* ===== verification/Total_Order.thy ===== *)
theory Total_Order
  imports Ordering_Server
begin

section \<open>The order of the lines in every run\<close>

text \<open>
  Registering, and the induction over the steps of the system that ends in
  \<open>fine_reachable_order\<close> and \<open>fine_steps_order\<close>: \<open>order_inv\<close> holds in every reachable state.
\<close>

subsection \<open>Registering\<close>

lemma register_call:
  assumes "sound st" "inputs_ok i st" "task_call ops it rnd i a (Register u) st = (Ok q, st')"
  obtains (refused) "q = None" "history st' = history st" "outboxes st' = outboxes st"
      "channels st' = (channels st)(channel i := fresh i)"
    | (registered) d where "q = Some (Name u (next_token st))" "history st' = history st"
      "channels st' = (channels st)(channel i := fresh i)"
      "\<And>b. hm_or [] b (outboxes st') = hm_or [] b (outboxes st) @ (if b = a then [d] else [])"
      "cd_token d = next_token st" "cd_writer d = channel i" "\<not> cd_ready d" "cd_pending d = []"
proof -
  let ?st = "st\<lparr>channels := (channels st)(channel i := fresh i)\<rparr>"
  have "sound ?st" using assms(1) by simp
  then have inv: "server_inv ?st" by (simp add: sound_def settled_def)
  show ?thesis
  proof (cases "limit_reached (guarded (clients ?st)) (addr_ip a)")
    case True
    have "\<not> poisoned (clients st)" using assms(1) by (simp add: sound_def settled_def server_inv_def healthy_def)
    with True assms(3) have "q = None" "st' = ?st"
      by (simp_all add: register_pending_client_def register_client_with_status_def)
    then show ?thesis by (intro refused) simp_all
  next
    case False
    let ?d = "\<lparr>cd_addr = a, cd_token = next_token ?st, cd_writer = channel i, cd_disconnect = Some (watch i), cd_ready = False, cd_pending = []\<rparr>"
    obtain st1 where r: "register_client_with_status ?st a (channel i) (Some (watch i)) False = (Ok (next_token ?st), st1)"
      "same_rest ?st st1" "\<And>b. hm_or [] b (outboxes st1) = hm_or [] b (outboxes ?st) @ (if b = a then [?d] else [])"
      by (rule register_spec [OF inv False, of "channel i" "Some (watch i)" False], rule that)
    have "q = Some (Name u (next_token st))" "st' = st1"
      using assms(3) r(1) by (simp_all add: register_pending_client_def)
    then show ?thesis using r(2,3) by (intro registered [of ?d]) (simp_all add: same_rest_def)
  qed
qed

subsection \<open>A turn of a task\<close>

lemma others_free:
  assumes "fine_inv free s" "running s = before @ (t, g) # after" "holds_barrier g \<or> \<not> locked s"
  shows "holders (before @ after) = []"
  using fine_invD(3) [OF assms(1)] assms(2,3) by (auto split: if_splits)

lemma entry_token:
  assumes "sound st" "entry (outboxes st) b d"
  shows "cd_token d < next_token st"
proof -
  have si: "server_inv st" using assms(1) by (simp add: sound_def settled_def)
  have "find_client b (cd_token d) (outboxes st) = Some d" using find_client_iff [OF si] assms(2) by blast
  then have "(b, cd_token d) \<in> members st" using find_client_None [OF si, of b "cd_token d"] by auto
  then show ?thesis by (rule members_fresh [OF si])
qed

lemma order_inv_cong:
  assumes "order_inv accepted K s" "sound (common s)" "\<And>tok. tok < next_token (common s) \<Longrightarrow> K' tok = K tok"
  shows "order_inv accepted K' s"
  using assms(1) ordered_cong [of K _ _ _ _ K'] entry_token [OF assms(2)] assms(3) unfolding order_inv_def by blast

lemma other_joining:
  assumes "fine_inv free s" "running s = before @ (t, g) # after" "phase_token (phase t) = Some tok"
    "(v, h) \<in> set (before @ after)"
  shows "joining (phase v) \<noteq> Some tok"
proof
  assume "joining (phase v) = Some tok"
  then have "phase_token (phase v) = Some tok" by (cases "phase v") auto
  then have "tok \<in> snd ` set (handled (map fst (before @ after)))"
    using assms(4) by (force simp: handled_def client_of_def set_map_filter image_iff)
  moreover have "distinct (map snd (handled (map fst before @ t # map fst after)))"
    using system_invD(4) [OF fine_invD(1) [OF assms(1)]] assms(2) by simp
  ultimately show False using assms(3) by (auto simp: client_of_def simp del: handled_simps(1) split: option.splits)
qed

lemma joining_new:
  assumes "fine_inv free s" "(v, h) \<in> set (running s)"
  shows "joining (phase v) \<noteq> Some (next_token (common s))"
proof
  assume "joining (phase v) = Some (next_token (common s))"
  then have "phase_token (phase v) = Some (next_token (common s))" by (cases "phase v") auto
  then have "(peer v, next_token (common s)) \<in> set (handled (map fst (running s)))"
    using assms(2) by (force simp: handled_def client_of_def set_map_filter image_iff)
  then show False using system_invD(5) [OF fine_invD(1) [OF assms(1)]] by auto
qed

lemma late_evicted: "late (insert (Evicting [] b) R) a tok = late R a tok"
  by (auto simp: late_def)

lemma spawned_idle: "v \<in> set (spawned a p q) \<Longrightarrow> joining (phase v) = None"
  by (cases "(a, p, q)" rule: spawned.cases) auto

lemma order_invI:
  assumes "retained st = kept_lines L" "ordered K (outboxes st) (acc_of accepted st) L ts"
  shows "order_inv accepted K \<lparr>admits = adm, common = st, running = ts, locked = b, record_log = L\<rparr>"
  using assms by (simp add: order_inv_def)

text \<open>A call that returns and that nobody notices.\<close>

lemma quiet_return:
  assumes "fine_inv free s" "order_inv accepted K s" "running s = before @ (t, g) # after" "quiet (common s) st'"
    and "\<And>r. g = Recording r \<Longrightarrow> \<exists>b. r = Evicting [] b"
    and "\<And>v h. (v, h) \<in> set (new @ extra) \<Longrightarrow> h = Start \<and>
      (joining (phase v) = None \<or> (g = Start \<and> peer v = peer t \<and> joining (phase v) = joining (phase t)))"
    and "recordings new = {}" "recordings extra = {}"
  shows "retained st' = kept_lines (record_log s) \<and>
    ordered K (outboxes st') (acc_of accepted st') (record_log s) (before @ new @ after @ extra)"
proof
  show "retained st' = kept_lines (record_log s)" using assms(2,4) by (simp add: order_inv_def quiet_def)
  have own: "own_channels (outboxes (common s))" using fine_invD(4) [OF assms(1)] by (simp add: sound_def settled_def)
  have ord: "ordered K (outboxes (common s)) (acc_of accepted (common s)) (record_log s) (before @ (t, g) # after)"
    using assms(2,3) by (simp add: order_inv_def)
  show "ordered K (outboxes st') (acc_of accepted st') (record_log s) (before @ new @ after @ extra)"
  proof (rule ordered_task [OF ord own assms(4)])
    show "late (recordings (before @ new @ after @ extra)) a (cd_token d) = late (recordings (before @ (t, g) # after)) a (cd_token d)" for a d
      using assms(5,7,8) by (cases g) (auto simp: late_evicted)
    show "task_in_order K (outboxes (common s)) (acc_of accepted (common s)) (recordings (before @ (t, g) # after)) (record_log s) v h"
      if v: "(v, h) \<in> set (new @ extra)" for v h
    proof (cases "joining (phase v) = None")
      case True
      with assms(6) [OF v] show ?thesis by (simp add: idle_task)
    next
      case False
      with assms(6) [OF v] orderedD(3) [OF ord, of t g] show ?thesis by (simp add: task_in_order_def)
    qed
  qed
qed

context traced_mpsc
begin

lemma register_ordered:
  assumes inv: "fine_inv free s" and ord: "order_inv accepted K s" and run: "running s = before @ (t, Start) # after"
    and i: "fine_inputs_ok env i s" and "phase t = Register u"
    and call: "task_call ops it rnd i (peer t) (phase t) (common s) = (Ok q, st')"
    and new: "new = (case q of None \<Rightarrow> [] | Some p \<Rightarrow> [(t\<lparr>phase := p\<rparr>, Start)])"
    and start: "K (next_token (common s)) =
      length (delivered (recordings (running s)) (record_log s) (peer t) (next_token (common s)))"
  shows "retained st' = kept_lines (record_log s) \<and>
    ordered K (outboxes st') (acc_of accepted st') (record_log s) (before @ new @ after)"
proof -
  let ?st = "common s" and ?L = "record_log s"
  have sound: "sound ?st" by (rule fine_invD(4) [OF inv])
  have i': "inputs_ok i ?st" "accepted (fresh i) = []" "channel i \<notin> replay_channels (running s)"
    using i accepted_new by (simp_all add: fine_inputs_ok_def)
  have o: "ordered K (outboxes ?st) (acc_of accepted ?st) ?L (before @ (t, Start) # after)"
    using ord by (simp add: order_inv_def run)
  have fresh_token: "cd_token d \<noteq> next_token ?st" if "entry (outboxes ?st) b d" for b d
    using entry_token [OF sound that] by simp
  have unused: "cd_writer d \<noteq> channel i" if "entry (outboxes ?st) b d" for b d
    using i'(1) that unfolding inputs_ok_def unused_channel_def by (metis image_eqI)
  have noch: "channel_of g \<noteq> Some (channel i)" if "(v, g) \<in> set (running s)" for v g
    using i'(3) that by (auto simp: replay_channels_iff)
  have "call": "task_call ops it rnd i (peer t) (Register u) ?st = (Ok q, st')" using call assms(5) by simp
  note touch = ordered_touch [OF o, where a = "peer t" and tok = "next_token ?st" and w = "channel i"]
  have old: "(v, g) \<in> set (before @ (t, Start) # after) \<and> (joining (phase v) = Some (next_token ?st) \<longrightarrow> peer v \<noteq> peer t) \<and>
      channel_of g \<noteq> Some (channel i)" if "(v, g) \<in> set (before @ after)" for v g
    using that joining_new [OF inv, of v g] noch [of v g] run by auto
  show ?thesis
  proof (rule register_call [OF sound i'(1) call])
    assume r: "q = None" "history st' = history ?st" "outboxes st' = outboxes ?st"
      "channels st' = (channels ?st)(channel i := fresh i)"
    have "ordered K (outboxes st') (acc_of accepted st') ?L (before @ new @ after)"
      unfolding r(3)
    proof (rule touch)
      show "acc_of accepted st' v = acc_of accepted ?st v" if "v \<noteq> channel i" for v using that by (simp add: acc_of_def r(4))
      show "task_in_order K (outboxes ?st) (acc_of accepted st') (recordings (before @ (t, Start) # after)) ?L v g \<or>
        (v, g) \<in> set (before @ (t, Start) # after) \<and> (joining (phase v) = Some (next_token ?st) \<longrightarrow> peer v \<noteq> peer t) \<and>
        channel_of g \<noteq> Some (channel i)" if "(v, g) \<in> set (before @ new @ after)" for v g
        using old [of v g] that new r(1) by simp
    qed (use unused fresh_token new r(1) in auto)
    with r(2) ord show ?thesis by (simp add: order_inv_def)
  next
    fix d assume r: "q = Some (Name u (next_token ?st))" "history st' = history ?st"
      "channels st' = (channels ?st)(channel i := fresh i)"
      "\<And>b. hm_or [] b (outboxes st') = hm_or [] b (outboxes ?st) @ (if b = peer t then [d] else [])"
      "cd_token d = next_token ?st" "cd_writer d = channel i" "\<not> cd_ready d" "cd_pending d = []"
    let ?t = "t\<lparr>phase := Name u (next_token ?st)\<rparr>"
    have nw: "new = [(?t, Start)]" using new r(1) by simp
    have acc: "acc_of accepted st' (channel i) = []" using i'(2) by (simp add: acc_of_def r(3))
    have d: "e = d" if "entry (outboxes st') (peer t) e" "cd_token e = next_token ?st" for e
      using that fresh_token [where b = "peer t" and d = e] by (auto simp: r(4))
    have "ordered K (outboxes st') (acc_of accepted st') ?L (before @ new @ after)"
    proof (rule touch)
      show "entry (outboxes ?st) b e" if "entry (outboxes st') b e" "(b, cd_token e) \<noteq> (peer t, next_token ?st)" for b e
        using that r(5) by (auto simp: r(4) split: if_splits)
      show "cd_writer e = channel i" if "entry (outboxes st') (peer t) e" "cd_token e = next_token ?st" for e
        using d [OF that] r(6) by simp
      show "acc_of accepted st' v = acc_of accepted ?st v" if "v \<noteq> channel i" for v using that by (simp add: acc_of_def r(3))
      show "client_ok K (acc_of accepted st') (recordings (before @ (t, Start) # after)) ?L (peer t) e"
        if "entry (outboxes st') (peer t) e" "cd_token e = next_token ?st" for e
        using d [OF that] r(5-8) acc start by (simp add: client_ok_def in_order_new run)
      have me: "task_in_order K (outboxes st') (acc_of accepted st') (recordings (before @ (t, Start) # after)) ?L ?t Start"
        using d r(6-8) acc start by (auto simp: task_in_order_def waiting_def run)
      show "task_in_order K (outboxes st') (acc_of accepted st') (recordings (before @ (t, Start) # after)) ?L v g \<or>
        (v, g) \<in> set (before @ (t, Start) # after) \<and> (joining (phase v) = Some (next_token ?st) \<longrightarrow> peer v \<noteq> peer t) \<and>
        channel_of g \<noteq> Some (channel i)" if "(v, g) \<in> set (before @ new @ after)" for v g
        using old [of v g] that me unfolding nw by auto
    qed (use unused nw in auto)
    with r(2) ord show ?thesis by (simp add: order_inv_def)
  qed
qed


lemma goes_on_ordered:
  assumes inv: "fine_inv free s" and "orders_ok it" and ord: "order_inv accepted K s"
    and run: "running s = before @ (t, g) # after" and may: "may_run t g s"
    and sec: "task_section ops it rnd i (peer t) (phase t) g (common s) = (Inl g', st')"
  shows "retained st' = kept_lines (record_log s @ recorded_by g g') \<and>
    ordered K (outboxes st') (acc_of accepted st') (record_log s @ recorded_by g g') (before @ (t, g') # after)"
proof -
  let ?st = "common s" and ?L = "record_log s"
  have sound: "sound ?st" by (rule fine_invD(4) [OF inv])
  have fit: "fits (phase t) g" using fine_invD(2) [OF inv, of t g] run by simp
  have hist: "retained ?st = kept_lines ?L"
    and o: "ordered K (outboxes ?st) (acc_of accepted ?st) ?L (before @ (t, g) # after)"
    using ord by (simp_all add: order_inv_def run)
  have free: "holders (before @ after) = []" if "takes_barrier (phase t)"
    using others_free [OF inv run] may fits_holds [OF fit] that by (cases "g = Start") (auto simp: may_run_def)
  show ?thesis
    using sec
  proof (cases rule: task_section_Inl)
    case presence
    have j: "joining (phase t) = None" using presence(1) by (cases "phase t") auto
    have g: "g = Start \<or> (\<exists>r. g = Updating r)" using fit presence(1) by (cases g) auto
    have "recorded_by g g' = []"
      using presence_section_calm [OF sound assms(2) g, of ops] presence(2) by (cases "(g, g')" rule: recorded_by.cases) force+
    with presence_goes_ordered [OF sound assms(2) g j o presence(2)] hist show ?thesis by simp
  next
    case (line ln ct)
    have j: "joining (phase t) = None" using line(1) by (cases "phase t") auto
    have fr: "holders (before @ after) = []" using free line(1) by simp
    show ?thesis
    proof (cases g)
      case Start
      from line_start_ordered [OF sound j hist line(3) o [unfolded Start] fr line(2) [unfolded Start]] Start show ?thesis by simp
    next
      case (Recording r)
      have "recorded_by g g' = []" by (simp add: Recording)
      with line_goes_ordered [OF sound assms(2) j fr o [unfolded Recording] line(2) [unfolded Recording]] hist
      show ?thesis by simp
    qed (use fit line(1) in auto)
  next
    case (replay u tok)
    have fr: "holders (before @ after) = []" using free replay(1) by simp
    have others: "joining (phase v) \<noteq> Some tok" if "(v, h) \<in> set (before @ after)" for v h
      by (rule other_joining [OF inv run _ that]) (simp add: replay(1))
    have rec: "recorded_by g g' = []" if "g' = Replaying r" for r using that by (cases g) auto
    show ?thesis
    proof (cases g)
      case Start
      obtain w where "g' = Replaying (Copying w)" using replay(2) Start by (auto split: if_splits option.splits)
      with replay_start_ordered [OF sound replay(1) o [unfolded Start] replay(2) [unfolded Start]] hist rec show ?thesis by simp
    next
      case (Replaying r)
      show ?thesis
      proof (cases r)
        case (Copying w)
        then have g': "g' = Replaying (Sending w (retained ?st))" "st' = ?st"
          using replay(2) Replaying by (auto simp: snapshot_def split: if_splits)
        from replay_copy_ordered [OF sound replay(1) hist, where before = before and w = w and after = after] o Replaying Copying g' hist rec
        show ?thesis by simp
      next
        case (Sending w ls)
        then obtain l ls' where ls: "ls = l # ls'" using replay(2) Replaying by (cases ls) (auto split: prod.splits)
        obtain f c where f: "encode_frame Chat (as_bytes l) = Ok f" "try_send ops (channels ?st w) f = (Sent, c)"
          "g' = Replaying (Sending w ls')" "st' = ?st\<lparr>channels := (channels ?st)(w := c)\<rparr>"
          using replay(2) Replaying Sending ls
          by (auto simp del: fun_upd_apply split: result.splits prod.splits send_status.splits)
        have "list_all short_line (kept_lines ?L)" using sound hist by (simp add: sound_def)
        moreover have "l \<in> set (kept_lines ?L)"
          using orderedD(3) [OF o, of t g] replay(1) Replaying Sending ls by (auto simp: task_in_order_def)
        ultimately have "f = chat_bytes l" using encode_short [of l] f(1) by (auto simp: list_all_iff)
        with f(2) have "try_send ops (channels ?st w) (chat_bytes l) = (Sent, c)" by simp
        from replay_send_ordered [OF sound replay(1) hist fr others _ this] o Replaying Sending ls f(3,4) hist rec
        show ?thesis by simp
      qed
    qed (use fit replay(1) in auto)
  qed
qed

lemma turn_order_inv:
  assumes inv: "fine_inv free s" and "orders_ok it" and ord: "order_inv accepted K s"
    and run: "running s = before @ (t, g) # after" and i: "fine_inputs_ok env i s" and may: "may_run t g s"
    and start: "K (next_token (common s)) =
      length (delivered (recordings (running s)) (record_log s) (peer t) (next_token (common s)))"
  shows "order_inv accepted K (section_turn sem ops it rnd i before t g after s)"
proof -
  have sound: "sound (common s)" by (rule fine_invD(4) [OF inv])
  have fit: "fits (phase t) g" using fine_invD(2) [OF inv, of t g] run by simp
  have i': "inputs_ok i (common s)" using i by (simp add: fine_inputs_ok_def)
  have hist: "retained (common s) = kept_lines (record_log s)"
    and o: "ordered K (outboxes (common s)) (acc_of accepted (common s)) (record_log s) (before @ (t, g) # after)"
    using ord by (simp_all add: order_inv_def run)
  have returned: "retained st' = kept_lines (record_log s) \<and>
      ordered K (outboxes st') (acc_of accepted st') (record_log s)
        (before @ (case q of None \<Rightarrow> [] | Some p \<Rightarrow> [(t\<lparr>phase := p\<rparr>, Start)]) @ after @
           map (\<lambda>t. (t, Start)) (spawned (peer t) (phase t) q))"
    if sec: "task_section ops it rnd i (peer t) (phase t) g (common s) = (Inr (Ok q), st')" for q st'
  proof (rule section_returns [OF sound assms(2) fit sec])
    assume r: "quiet (common s) st'" "\<And>r. g = Recording r \<Longrightarrow> \<exists>b. r = Evicting [] b"
      "\<And>p'. q = Some p' \<Longrightarrow> joining p' = None \<or> (\<exists>u tok. phase t = Name u tok \<and> p' = Replay u tok)"
    have "g = Start" if "phase t = Name u tok" for u tok using fit that by (cases g) auto
    then show ?thesis
      using r(3) by (intro quiet_return [OF inv ord run r(1,2)]) (auto split: option.splits dest: spawned_idle)
  next
    fix u tok w x assume r: "phase t = Replay u tok" "g = Replaying (Sending w [])"
      "mark_client_ready ops (common s) (peer t) tok = (x, st')" "q \<noteq> None" "\<And>p'. q = Some p' \<Longrightarrow> joining p' = None"
    have fr: "holders (before @ after) = []" using others_free [OF inv run] by (simp add: r(2))
    have others: "joining (phase v) \<noteq> Some tok" if "(v, h) \<in> set (before @ after)" for v h
      by (rule other_joining [OF inv run _ that]) (simp add: r(1))
    obtain p where "q = Some p" "joining p = None" using r(4,5) by auto
    then show ?thesis
      using replay_mark_ordered [OF sound r(1) hist fr others o [unfolded r(2)] r(3), where t' = "t\<lparr>phase := p\<rparr>"] hist r(1)
      by simp
  next
    fix u assume r: "phase t = Register u" "g = Start" "task_call ops it rnd i (peer t) (phase t) (common s) = (Ok q, st')"
    show ?thesis
      using register_ordered [OF inv ord run [unfolded r(2)] i r(1,3) refl start] r(1) by (cases q) simp_all
  qed
  show ?thesis
  proof (cases rule: section_turn_cases [OF inv assms(2) run i', of ops rnd sem])
    case (1 g' st')
    from goes_on_ordered [OF inv assms(2) ord run may 1(1)] show ?thesis by (simp add: 1(5) order_inv_def)
  next
    case (2 p st')
    from returned [OF 2(1)] show ?thesis by (simp add: 2(3) order_inv_def)
  next
    case (3 st')
    have "spawned (peer t) (phase t) None = []" by (cases "(peer t, phase t, None :: phase option)" rule: spawned.cases) simp_all
    with returned [OF 3(1)] show ?thesis by (simp add: 3(3) order_inv_def)
  qed
qed

text \<open>A client that registers while a line is recorded and not yet broadcast is sent that line, too.\<close>

lemma delivered_all_but_one: "length L \<le> Suc (length (delivered R L a tok))"
  by (auto simp: delivered_def)

lemma fine_step_order:
  assumes "orders_ok it"
  shows "fine_step sem ops env it rnd s s' \<Longrightarrow> fine_inv free s \<Longrightarrow> order_inv accepted K s \<Longrightarrow>
    \<exists>K'. order_inv accepted K' s' \<and> (\<forall>tok. tok \<noteq> next_token (common s) \<longrightarrow> K' tok = K tok) \<and>
      length (record_log s) \<le> Suc (K' (next_token (common s)))"
proof (induction rule: fine_step.induct)
  case (accept s acc)
  let ?K = "K(next_token (common s) := length (record_log s))"
  have sound: "sound (common s)" by (rule fine_invD(4) [OF accept(1)])
  then have own: "own_channels (outboxes (common s))" by (simp add: sound_def settled_def)
  have inv: "order_inv accepted ?K s" by (rule order_inv_cong [OF accept(2) sound]) simp
  then have o: "ordered ?K (outboxes (common s)) (acc_of accepted (common s)) (record_log s) (running s)"
    by (simp add: order_inv_def)
  have "ordered ?K (outboxes (common s)) (acc_of accepted (common s)) (record_log s) (running s @ [(v, Start)])"
    if "joining (phase v) = None" for v
    by (rule ordered_quiet [OF o own quiet_refl]) (use that orderedD(3) [OF o] in \<open>auto intro: idle_task\<close>)
  with inv have "order_inv accepted ?K (fine_accept sem acc s)"
    by (auto simp: order_inv_def fine_accept_def split: result.splits prod.splits option.splits)
  then show ?case by - (rule exI [of _ ?K], simp del: fun_upd_apply, simp)
next
  case (cleanup s time)
  let ?K = "K(next_token (common s) := length (record_log s))"
  have "order_inv accepted ?K s" by (rule order_inv_cong [OF cleanup(2) fine_invD(4) [OF cleanup(1)]]) simp
  then have "order_inv accepted ?K (s\<lparr>common := snd (cleanup_rate_limits time (common s))\<rparr>)"
    by (simp add: order_inv_def cleanup_rate_limits_def acc_of_def [abs_def])
  then show ?case by - (rule exI [of _ ?K], simp del: fun_upd_apply, simp)
next
  case (turn s before t g after i)
  let ?k = "length (delivered (recordings (running s)) (record_log s) (peer t) (next_token (common s)))"
  let ?K = "K(next_token (common s) := ?k)"
  have "order_inv accepted ?K s" by (rule order_inv_cong [OF turn(5) fine_invD(4) [OF turn(4)]]) simp
  from turn_order_inv [OF turn(4) assms this turn(1-3)]
  have "order_inv accepted ?K (section_turn sem ops it rnd i before t g after s)" by simp
  then show ?case using delivered_all_but_one by - (rule exI [of _ ?K], simp del: fun_upd_apply, simp)
next
  case (received s c w)
  let ?K = "K(next_token (common s) := length (record_log s))"
  have "acc_of accepted ((common s)\<lparr>channels := (channels (common s))(c := w)\<rparr>) = acc_of accepted (common s)"
    using accepted_recv [OF received(1)] by (simp add: acc_of_def fun_eq_iff)
  moreover have "order_inv accepted ?K s" by (rule order_inv_cong [OF received(3) fine_invD(4) [OF received(2)]]) simp
  ultimately have "order_inv accepted ?K (s\<lparr>common := (common s)\<lparr>channels := (channels (common s))(c := w)\<rparr>\<rparr>)"
    by (simp add: order_inv_def)
  then show ?case by - (rule exI [of _ ?K], simp del: fun_upd_apply, simp)
next
  case (writer_done s before t after u tok)
  let ?K = "K(next_token (common s) := length (record_log s))"
  have sound: "sound (common s)" by (rule fine_invD(4) [OF writer_done(3)])
  then have own: "own_channels (outboxes (common s))" by (simp add: sound_def settled_def)
  have inv: "order_inv accepted ?K s" by (rule order_inv_cong [OF writer_done(4) sound]) simp
  then have o: "ordered ?K (outboxes (common s)) (acc_of accepted (common s)) (record_log s) (before @ (t, Start) # after)"
    using writer_done(1) by (simp add: order_inv_def)
  have "ordered ?K (outboxes (common s)) (acc_of accepted (common s)) (record_log s) (before @ [] @ after @ [])"
    by (rule ordered_task [OF o own quiet_refl]) simp_all
  with inv have "order_inv accepted ?K (s\<lparr>running := before @ after\<rparr>)" by (simp add: order_inv_def)
  then show ?case by - (rule exI [of _ ?K], simp del: fun_upd_apply, simp)
qed

lemma fine_reachable_order:
  assumes "semaphore sem free" "free permits = MAX_CONNECTIONS" "orders_ok it"
  shows "fine_reachable sem ops env it rnd permits chans s \<Longrightarrow> \<exists>K. order_inv accepted K s"
proof (induction rule: fine_reachable.induct)
  case start
  then show ?case
    by (simp add: order_inv_def fine_new_def new_shared_state_def history_new_def new_registry_def hm_empty_def hm_or_def
        kept_lines_def ordered_def)
next
  case (step s s')
  then show ?case using fine_step_order [OF assms(3)] fine_reachable_inv [OF assms] by blast
qed

end

subsection \<open>From one moment to a later one\<close>

text \<open>The log only grows, and a step registers at most one client.\<close>

lemma fine_step_grows:
  assumes "orders_ok it"
  shows "fine_step sem ops env it rnd s s' \<Longrightarrow> fine_inv free s \<Longrightarrow>
    prefix (record_log s) (record_log s') \<and> next_token (common s) \<le> next_token (common s') \<and>
    next_token (common s') \<le> Suc (next_token (common s))"
proof (induction rule: fine_step.induct)
  case (turn s before t g after i)
  then have i: "inputs_ok i (common s)" by (simp add: fine_inputs_ok_def)
  show ?case
  proof (cases rule: section_turn_cases [OF turn(4) assms turn(1) i, of ops rnd sem])
    case (1 g' st')
    then show ?thesis by (simp add: calm_def)
  next
    case (2 p st')
    then show ?thesis by (auto simp: call_sound_def keeps_client_def adds_client_def)
  next
    case (3 st')
    then show ?thesis by (auto simp: call_sound_def keeps_client_def adds_client_def)
  qed
qed (auto simp: fine_accept_def cleanup_rate_limits_def split: result.splits prod.splits option.splits)

context traced_mpsc
begin

text \<open>How many lines were recorded before a client registered does not change afterwards; for those that
  register later it is what was recorded by then, or one less.\<close>

lemma fine_steps_order:
  assumes "semaphore sem free" "orders_ok it" "fine_inv free s" "order_inv accepted K s"
  shows "(fine_step sem ops env it rnd)\<^sup>*\<^sup>* s s' \<Longrightarrow>
    fine_inv free s' \<and> prefix (record_log s) (record_log s') \<and> next_token (common s) \<le> next_token (common s') \<and>
    (\<exists>K'. order_inv accepted K' s' \<and> (\<forall>tok < next_token (common s). K' tok = K tok) \<and>
       (\<forall>tok. next_token (common s) \<le> tok \<longrightarrow> tok < next_token (common s') \<longrightarrow> length (record_log s) \<le> Suc (K' tok)))"
proof (induction rule: rtranclp_induct)
  case base
  with assms(3,4) show ?case by auto
next
  case (step s1 s2)
  then obtain K1 where K1: "order_inv accepted K1 s1" "\<forall>tok < next_token (common s). K1 tok = K tok"
    "\<forall>tok. next_token (common s) \<le> tok \<longrightarrow> tok < next_token (common s1) \<longrightarrow> length (record_log s) \<le> Suc (K1 tok)"
    and inv: "fine_inv free s1" and log: "prefix (record_log s) (record_log s1)"
    and tok: "next_token (common s) \<le> next_token (common s1)" by blast
  obtain K2 where K2: "order_inv accepted K2 s2" "\<forall>tok. tok \<noteq> next_token (common s1) \<longrightarrow> K2 tok = K1 tok"
    "length (record_log s1) \<le> Suc (K2 (next_token (common s1)))"
    using fine_step_order [OF assms(2) step(2) inv K1(1)] by blast
  have g: "prefix (record_log s1) (record_log s2)" "next_token (common s1) \<le> next_token (common s2)"
    "next_token (common s2) \<le> Suc (next_token (common s1))" using fine_step_grows [OF assms(2) step(2) inv] by simp_all
  have "fine_inv free s2" by (rule fine_step_inv [OF assms(1,2) step(2) inv])
  moreover have "prefix (record_log s) (record_log s2)" using log g(1) by (rule prefix_order.trans)
  moreover have "K2 t = K t" if "t < next_token (common s)" for t using that K1(2) K2(2) tok by simp
  moreover have "length (record_log s) \<le> Suc (K2 t)"
    if "next_token (common s) \<le> t" "t < next_token (common s2)" for t
  proof (cases "t = next_token (common s1)")
    case True
    then show ?thesis using K2(3) prefix_length_le [OF log] by simp
  next
    case False
    then show ?thesis using that K1(3) K2(2) g(3) by simp
  qed
  ultimately show ?case using K2(1) tok g(2) by (meson le_trans)
qed

end

end
