(* ===== verification/Wire_Types.thy ===== *)
theory Wire_Types
  imports Total_Order
begin

section \<open>What travels on a channel\<close>

text \<open>
  The types of the wire: whatever the server puts on a client's channel is the frame of a line that
  is valid UTF-8, fits a frame and is not blank, or of a list of registered names; never a frame
  that the client's reader would refuse.
\<close>

subsection \<open>Lines and lists of names\<close>

definition room_line :: "ustr \<Rightarrow> bool" where
  "room_line l \<longleftrightarrow> short_line l \<and> valid_str l \<and> trim l \<noteq> []"

definition line_frame :: "ustr \<Rightarrow> frame" where
  "line_frame l = \<lparr>version = CURRENT_PROTOCOL_VERSION, kind = Chat, payload = as_bytes l\<rparr>"

definition names_frame :: "ustr list \<Rightarrow> frame" where
  "names_frame us = \<lparr>version = CURRENT_PROTOCOL_VERSION, kind = Presence, payload = presence_payload us\<rparr>"

definition sendable :: "bytes \<Rightarrow> bool" where
  "sendable m \<longleftrightarrow> (\<exists>l. room_line l \<and> m = frame_bytes (line_frame l)) \<or>
     (\<exists>us. list_all registered_name us \<and> length us \<le> MAX_CONNECTIONS \<and> m = frame_bytes (names_frame us))"

lemma frames_wf:
  "room_line l \<Longrightarrow> wf_frame (line_frame l)"
  "list_all registered_name us \<Longrightarrow> length us \<le> MAX_CONNECTIONS \<Longrightarrow> wf_frame (names_frame us)"
  using encode_presence_registered(2) by (simp_all add: line_frame_def names_frame_def wf_frame_def room_line_def short_line_def)

lemma sendable_line: "room_line l \<Longrightarrow> sendable (chat_bytes l)"
  by (auto simp: sendable_def chat_bytes_def line_frame_def)

lemma sendable_names: "list_all registered_name us \<Longrightarrow> length us \<le> MAX_CONNECTIONS \<Longrightarrow> sendable (frame_bytes (names_frame us))"
  by (auto simp: sendable_def)

lemma blank_trim_end: "list_all P (dropWhile P (rev s)) \<Longrightarrow> list_all P s"
  using takeWhile_dropWhile_id [of P "rev s"] by (metis list_all_append list_all_rev dropWhile_eq_Nil_conv list_all_iff set_takeWhileD)

lemma room_line_trims:
  assumes "room_line l"
  shows "room_line (trim_end_matches 0x0A l)" "room_line (trim_end l)"
proof -
  have set: "set l \<subseteq> insert 0x0A (set (trim_end_matches 0x0A l))"
  proof
    fix x assume "x \<in> set l"
    then have "x \<in> set (takeWhile (\<lambda>d. d = 0x0A) (rev l)) \<union> set (dropWhile (\<lambda>d. d = 0x0A) (rev l))"
      by (metis set_append set_rev takeWhile_dropWhile_id)
    then show "x \<in> insert 0x0A (set (trim_end_matches 0x0A l))" by (auto simp: trim_end_matches_def dest: set_takeWhileD)
  qed
  have "is_whitespace 0x0A" by (simp add: is_whitespace_def)
  with set have "trim (trim_end_matches 0x0A l) \<noteq> []"
    using assms by (auto simp: room_line_def trim_eq_Nil list_all_iff)
  moreover have "trim (trim_end l) \<noteq> []"
    using assms blank_trim_end [of is_whitespace l] by (auto simp: room_line_def trim_eq_Nil trim_end_def)
  ultimately show "room_line (trim_end_matches 0x0A l)" "room_line (trim_end l)"
    using assms short_trim_newline [of l] short_trim_end [of l]
      valid_str_subset [OF _ set_mono_sublist [OF trim_end_matches_sublist]]
      valid_str_subset [OF _ set_mono_sublist [OF trim_end_sublist]]
    by (simp_all add: room_line_def)
qed

lemma room_lines:
  assumes "registered_name u"
  shows "room_line (join_line u)" "room_line (leave_line u)"
    "valid_str t \<Longrightarrow> str_len t = 5 \<Longrightarrow> valid_str c \<Longrightarrow> str_len c \<le> MAX_CHAT_MESSAGE_BYTES \<Longrightarrow> room_line (format_chat_message u t c)"
proof -
  have u: "valid_str u" "str_len u \<le> MAX_USERNAME_BYTES" using assms by (simp_all add: registered_name_def)
  have newline: "is_scalar 0x0A" by (simp add: is_scalar_def)
  have "\<not> is_whitespace 0x63" "\<not> is_whitespace 0x5B" by (simp_all add: is_whitespace_def)
  moreover have "0x63 \<in> set (join_line u)" "0x63 \<in> set (leave_line u)" "0x5B \<in> set (format_chat_message u t c)"
    by (simp_all add: join_line_def leave_line_def format_chat_message_def lit_Cons lit_Nil)
  ultimately have "trim (join_line u) \<noteq> []" "trim (leave_line u) \<noteq> []" "trim (format_chat_message u t c) \<noteq> []"
    by (auto simp: trim_eq_Nil list_all_iff)
  then show "room_line (join_line u)" "room_line (leave_line u)"
    "valid_str t \<Longrightarrow> str_len t = 5 \<Longrightarrow> valid_str c \<Longrightarrow> str_len c \<le> MAX_CHAT_MESSAGE_BYTES \<Longrightarrow> room_line (format_chat_message u t c)"
    using u newline short_announcements [OF u(2)] short_message [OF u(2), of c t]
    by (simp_all add: room_line_def join_line_def leave_line_def format_chat_message_def)
qed

subsection \<open>The typing of a state\<close>

definition typed_state :: "('w \<Rightarrow> bytes list) \<Rightarrow> 'w server_state \<Rightarrow> bool" where
  "typed_state accepted st \<longleftrightarrow> list_all room_line (retained st) \<and>
     (\<forall>a d. entry (outboxes st) a d \<longrightarrow> list_all sendable (accepted (channels st (cd_writer d)) @ cd_pending d))"

fun typed_stage :: "stage \<Rightarrow> bool" where
  "typed_stage (Updating (Spreading f)) = sendable f"
| "typed_stage (Recording (Recorded l f)) = sendable f"
| "typed_stage (Replaying (Sending w ls)) = list_all room_line ls"
| "typed_stage g = True"

definition typed_inv :: "('w \<Rightarrow> bytes list) \<Rightarrow> ('s, 'w) fine_system \<Rightarrow> bool" where
  "typed_inv accepted s \<longleftrightarrow> typed_state accepted (common s) \<and> (\<forall>(t, g) \<in> set (running s). typed_stage g)"

lemma typed_quiet: "typed_state accepted st \<Longrightarrow> quiet st st' \<Longrightarrow> typed_state accepted st'"
  by (auto simp: typed_state_def quiet_def)

lemma typed_entry:
  "typed_state accepted st \<Longrightarrow> entry (outboxes st) a d \<Longrightarrow>
     list_all sendable (accepted (channels st (cd_writer d))) \<and> list_all sendable (cd_pending d)"
  by (auto simp: typed_state_def)

lemma typed_names:
  assumes "sound st" "orders_ok it"
  obtains us where "usernames (clients_order it) st = (Ok us, st)" "encode_presence us = Ok (frame_bytes (names_frame us))"
    "sendable (frame_bytes (names_frame us))"
proof -
  have "iteration (clients_order it)" using assms(2) by (simp add: orders_ok_def)
  from usernames_settled [OF sound_settled [OF assms(1)] this] obtain us where
    "usernames (clients_order it) st = (Ok us, st)" "list_all registered_name us" "length us \<le> MAX_CONNECTIONS" by metis
  with encode_presence_registered(1) sendable_names that show ?thesis unfolding names_frame_def by metis
qed

context traced_mpsc
begin

lemma typed_broadcast:
  assumes "sound st" "orders_ok it" "typed_state accepted st" "sendable f" "broadcast_section ops it st f None = (Ok ds, st')"
  shows "typed_state accepted st'"
proof -
  note set = sound_settled [OF assms(1)]
  have wf: "hm_wf (outboxes st)" using settledD(1) [OF set] by (simp add: server_inv_def delivery_inv_def)
  obtain ds2 st2 where b: "broadcast_section ops it st f None = (Ok ds2, st2)" "history st2 = history st"
    "channels st2 = sent_channels ops f None (concat (map snd (outboxes st))) (channels st)"
    "\<And>a. hm_or [] a (outboxes st2) = map (after_broadcast f None) (hm_or [] a (outboxes st))"
    by (rule broadcast_section_spec [OF set assms(2), of ops f None], rule that)
  have "list_all sendable (accepted (channels st2 (cd_writer e)) @ cd_pending e)" if e: "entry (outboxes st2) a e" for a e
  proof -
    obtain d where d: "entry (outboxes st) a d" "e = after_broadcast f None d" using e by (auto simp: b(4))
    with typed_entry [OF assms(3) d(1)] assms(4) show ?thesis
      by (auto simp: b(3) accepted_sent_channels [OF wf] after_broadcast_def)
  qed
  then have "typed_state accepted st2" using assms(3) b(2) by (simp add: typed_state_def)
  with b(1) assms(5) show ?thesis by simp
qed

lemma typed_send:
  assumes "typed_state accepted st" "try_send ops (channels st w) m = (Sent, c)" "sendable m"
  shows "typed_state accepted (st\<lparr>channels := (channels st)(w := c)\<rparr>)"
  using assms accepted_sent [OF assms(2)] by (auto simp: typed_state_def)

lemma typed_mark:
  assumes "sound st" "typed_state accepted st" "mark_client_ready ops st a tok = (r, st')"
  shows "typed_state accepted st'"
proof -
  have own: "own_channels (outboxes st)" and inv: "server_inv st" using assms(1) by (simp_all add: sound_def settled_def)
  have h: "\<not> poisoned (deliveries st)" using inv by (simp add: server_inv_def healthy_def)
  show ?thesis
  proof (cases "find_client a tok (outboxes st)")
    case None
    with assms(2,3) h show ?thesis by (simp add: mark_client_ready_def)
  next
    case (Some d)
    then have e: "entry (outboxes st) a d" "cd_token d = tok" using find_client_iff [OF inv] by blast+
    obtain status c rest where fl: "flush_pending ops (channels st (cd_writer d)) (cd_pending d) = (status, c, rest)"
      by (cases rule: prod_cases3)
    from flush_accepted [OF fl] obtain sent where sent: "cd_pending d = sent @ rest"
      "accepted c = accepted (channels st (cd_writer d)) @ sent" "status = Sent \<longleftrightarrow> rest = []" by blast
    define f where "f = (\<lambda>d :: client_delivery. d\<lparr>cd_pending := rest, cd_ready := (if status = Sent then True else cd_ready d)\<rparr>)"
    have st': "st' = st\<lparr>deliveries := mutex_set (update_client a tok f (outboxes st)) (deliveries st),
        channels := (channels st)(cd_writer d := c)\<rparr>"
      using assms(3) h Some fl sent(3) by (cases status) (auto simp: mark_client_ready_def Let_def f_def)
    have f: "cd_token (f e) = cd_token e" for e by (simp add: f_def)
    have "list_all sendable (accepted (channels st' (cd_writer e')) @ cd_pending e')" if e': "entry (outboxes st') b e'" for b e'
    proof (cases "(b, cd_token e') = (a, tok)")
      case True
      with update_client_entry [where a = a and tok = tok and b = b and e = e', OF inv f] e' obtain d' where
        "entry (outboxes st) a d'" "cd_token d' = tok" "e' = f d'" by (auto simp: st')
      with outbox_tokens_distinct [OF inv _ e(1)] e(2) have "e' = f d" by metis
      with typed_entry [OF assms(2) e(1)] sent show ?thesis by (simp add: st' f_def)
    next
      case False
      with update_client_entry [where a = a and tok = tok and b = b and e = e', OF inv f] e'
      have old: "entry (outboxes st) b e'" by (simp add: st')
      then have "cd_writer e' \<noteq> cd_writer d" using own_unique [OF own old e(1)] False e(2) by auto
      with typed_entry [OF assms(2) old] show ?thesis by (simp add: st')
    qed
    then show ?thesis using assms(2) by (simp add: typed_state_def st')
  qed
qed

lemma typed_register:
  assumes "sound st" "inputs_ok i st" "newly env (fresh i)" "typed_state accepted st"
    and "task_call ops it rnd i a (Register u) st = (Ok q, st')"
  shows "typed_state accepted st'"
proof -
  have unused: "cd_writer d \<noteq> channel i" if "entry (outboxes st) b d" for b d
    using assms(2) that unfolding inputs_ok_def unused_channel_def by (metis image_eqI)
  show ?thesis
    by (rule register_call [OF assms(1,2,5)])
      (use assms(4) unused accepted_new [OF assms(3)] in \<open>auto simp: typed_state_def split: if_splits\<close>)
qed

end

subsection \<open>Every step keeps it\<close>

lemma typed_record:
  assumes "typed_state accepted st" "room_line l"
  shows "typed_state accepted (st\<lparr>history := mutex_set (history_record l (guarded (history st))) (history st)\<rparr>)"
proof -
  have "set (entries (history_record l (guarded (history st)))) \<subseteq> insert (trim_end_matches 0x0A l) (set (retained st))"
    by (cases "retained st") (auto simp: history_record_def Let_def)
  then show ?thesis
    using assms room_line_trims(1) [OF assms(2)] by (auto simp: typed_state_def list_all_iff)
qed

lemma line_phase_typed:
  assumes "kind_of_call p = Line" "phase_ok p" "str_len (time_of_day i) = 5" "valid_str (time_of_day i)"
  obtains line content nxt failed where
    "\<And>g st. task_section ops it rnd i a p g st = resume (line_section ops it line content g st) nxt failed"
    "room_line line" "room_line content"
proof (cases p)
  case (RecordJoin u tok)
  then have "registered_name u" using assms(2) by (simp add: phase_ok_def)
  from that [OF _ room_lines(1) [OF this] room_line_trims(2) [OF room_lines(1) [OF this]]] RecordJoin show ?thesis by simp
next
  case (Compose u tok c)
  then have "registered_name u" "valid_str c" "str_len c \<le> MAX_CHAT_MESSAGE_BYTES" using assms(2) by (simp_all add: phase_ok_def)
  then have "room_line (format_chat_message u (time_of_day i) c)" using room_lines(3) assms(3,4) by simp
  from that [OF _ this this] Compose show ?thesis by (simp add: Let_def)
next
  case (RecordLeave u tok f)
  then have "registered_name u" using assms(2) by (simp add: phase_ok_def)
  from that [OF _ room_lines(2) [OF this] room_line_trims(2) [OF room_lines(2) [OF this]]] RecordLeave show ?thesis by simp
next
  case (WriterLeave u tok)
  then have "registered_name u" using assms(2) by (simp add: phase_ok_def)
  from that [OF _ room_lines(2) [OF this] room_line_trims(2) [OF room_lines(2) [OF this]]] WriterLeave show ?thesis by simp
qed (use assms(1) in simp_all)

context traced_mpsc
begin

lemma typed_presence:
  assumes "sound st" "orders_ok it" "typed_state accepted st" "typed_stage g" "g = Start \<or> (\<exists>r. g = Updating r)"
    and "presence_section ops it g st = (Inl g', st')"
  shows "typed_state accepted st' \<and> typed_stage g'"
proof (cases "(ops, it, g, st)" rule: presence_section.cases)
  case (2 ops' it' a tok ds st1)
  obtain b st2 where "remove_client_if_current st a tok = (Ok b, st2)" "quiet st st2" by (rule remove_quiet [OF assms(1)])
  with 2 assms(3,6) typed_quiet show ?thesis by auto
next
  case 3
  obtain us where "usernames (clients_order it) st = (Ok us, st)" "encode_presence us = Ok (frame_bytes (names_frame us))"
    "sendable (frame_bytes (names_frame us))" by (rule typed_names [OF assms(1,2)])
  with 3 assms(3,6) show ?thesis by auto
next
  case (4 ops' it' f st1)
  then obtain ds where "broadcast_section ops it st f None = (Ok ds, st')" "g' = Updating (Dropping ds)"
    using assms(6) by (auto simp: in_section_Inl)
  with 4 assms(4) typed_broadcast [OF assms(1-3)] show ?thesis by auto
next
  case (5 ops' it' a tok ds st1)
  obtain b st2 where "remove_client_if_current st a tok = (Ok b, st2)" "quiet st st2" by (rule remove_quiet [OF assms(1)])
  with 5 assms(3,6) typed_quiet show ?thesis by auto
qed (use assms(3,5,6) in \<open>auto simp: in_section_Inl prune_section_def split: if_splits\<close>)

lemma typed_line:
  assumes "sound st" "orders_ok it" "typed_state accepted st" "typed_stage g" "g = Start \<or> (\<exists>r. g = Recording r)"
    and "room_line line" "room_line content" and "line_section ops it line content g st = (Inl g', st')"
  shows "typed_state accepted st' \<and> typed_stage g'"
proof (cases "(ops, it, line, content, g, st)" rule: line_section.cases)
  case 1
  have "encode_frame Chat (as_bytes content) = Ok (chat_bytes content)"
    using assms(7) by (intro encode_short) (simp add: room_line_def)
  with 1 assms(8) typed_record [OF assms(3,6)] sendable_line [OF assms(7)] show ?thesis by (auto split: if_splits)
next
  case (2 ops' it' line' content' l f st1)
  then obtain ds where "broadcast_section ops it st f None = (Ok ds, st')" "g' = Recording (Evicting ds (ds \<noteq> []))"
    using assms(8) by (auto simp: in_section_Inl under_barrier_Ok)
  with 2 assms(4) typed_broadcast [OF assms(1-3)] show ?thesis by auto
next
  case (3 ops' it' line' content' a tok ds b st1)
  obtain x st2 where "remove_client_if_current st a tok = (Ok x, st2)" "quiet st st2" by (rule remove_quiet [OF assms(1)])
  with 3 assms(3,8) typed_quiet show ?thesis by auto
qed (use assms(5,8) in auto)

lemma typed_replay:
  assumes "typed_state accepted st" "typed_stage g" "g = Start \<or> (\<exists>r. g = Replaying r)"
    and "replay_section ops a tok g st = (Inl g', st')"
  shows "typed_state accepted st' \<and> typed_stage g'"
proof (cases "(ops, a, tok, g, st)" rule: replay_section.cases)
  case 1
  with assms(1,4) show ?thesis by (auto split: if_splits option.splits)
next
  case 2
  with assms(1,4) show ?thesis by (auto simp: typed_state_def snapshot_def split: if_splits)
next
  case (3 ops' a' tok' w l ls st1)
  then have l: "room_line l" "list_all room_line ls" using assms(2) by auto
  have "encode_frame Chat (as_bytes l) = Ok (chat_bytes l)" using l(1) by (intro encode_short) (simp add: room_line_def)
  then obtain c where "try_send ops (channels st w) (chat_bytes l) = (Sent, c)" "g' = Replaying (Sending w ls)"
      "st' = st\<lparr>channels := (channels st)(w := c)\<rparr>"
    using 3 assms(4) by (auto simp del: fun_upd_apply split: prod.splits send_status.splits)
  with typed_send [OF assms(1) _ sendable_line [OF l(1)]] l(2) show ?thesis by simp
qed (use assms(3,4) in \<open>auto split: prod.splits\<close>)

lemma typed_turn:
  assumes inv: "fine_inv free s" and "orders_ok it" and typed: "typed_inv accepted s"
    and run: "running s = before @ (t, g) # after" and i: "fine_inputs_ok env i s"
  shows "typed_inv accepted (section_turn sem ops it rnd i before t g after s)"
proof -
  note ok = running_task(1,2) [OF inv run]
  have sound: "sound (common s)" by (rule fine_invD(4) [OF inv])
  have i': "inputs_ok i (common s)" "newly env (fresh i)" using i by (simp_all add: fine_inputs_ok_def)
  have st: "typed_state accepted (common s)" "typed_stage g" and others: "\<forall>(t, g) \<in> set (before @ after). typed_stage g"
    using typed run by (auto simp: typed_inv_def)
  have goes: "typed_state accepted st' \<and> typed_stage g'"
    if sec: "task_section ops it rnd i (peer t) (phase t) g (common s) = (Inl g', st')" for g' st'
    using sec
  proof (cases rule: task_section_Inl)
    case presence
    have "g = Start \<or> (\<exists>r. g = Updating r)" using ok(2) presence(1) by (cases g) auto
    from typed_presence [OF sound assms(2) st this presence(2)] show ?thesis .
  next
    case line
    have g: "g = Start \<or> (\<exists>r. g = Recording r)" using ok(2) line(1) by (cases g) auto
    have time: "str_len (time_of_day i) = 5" "valid_str (time_of_day i)" using i'(1) by (simp_all add: inputs_ok_def)
    show ?thesis
      by (rule line_phase_typed [OF line(1) ok(1) time, of ops it rnd "peer t"])
        (use sec typed_line [OF sound assms(2) st g] in \<open>auto simp: resume_Inl\<close>)
  next
    case (replay u tok)
    have "g = Start \<or> (\<exists>r. g = Replaying r)" using ok(2) replay(1) by (cases g) auto
    from typed_replay [OF st this replay(2)] show ?thesis .
  qed
  have returns: "typed_state accepted st'"
    if sec: "task_section ops it rnd i (peer t) (phase t) g (common s) = (Inr (Ok q), st')" for q st'
    by (rule section_returns [OF sound assms(2) ok(2) sec])
      (use st typed_quiet typed_mark [OF sound st(1)] typed_register [OF sound i' st(1)] in \<open>auto simp del: task_call.simps\<close>)
  show ?thesis
  proof (cases rule: section_turn_cases [OF inv assms(2) run i'(1), of ops rnd sem])
    case (1 g' st')
    from goes [OF 1(1)] others show ?thesis by (auto simp: 1(5) typed_inv_def)
  next
    case (2 p st')
    from returns [OF 2(1)] others show ?thesis by (auto simp: 2(3) typed_inv_def)
  next
    case (3 st')
    from returns [OF 3(1)] others show ?thesis by (auto simp: 3(3) typed_inv_def)
  qed
qed

lemma fine_step_typed:
  assumes "orders_ok it"
  shows "fine_step sem ops env it rnd s s' \<Longrightarrow> fine_inv free s \<Longrightarrow> typed_inv accepted s \<Longrightarrow> typed_inv accepted s'"
proof (induction rule: fine_step.induct)
  case (accept s acc)
  then show ?case by (auto simp: typed_inv_def fine_accept_def split: result.splits prod.splits option.splits)
next
  case (cleanup s time)
  then show ?case by (simp add: typed_inv_def typed_state_def cleanup_rate_limits_def)
next
  case (turn s before t g after i)
  then show ?case by (intro typed_turn [OF _ assms])
next
  case (received s c w)
  with accepted_recv [OF received(1)] show ?case by (auto simp: typed_inv_def typed_state_def)
next
  case (writer_done s before t after u tok)
  then show ?case by (auto simp: typed_inv_def)
qed

lemma fine_reachable_typed:
  assumes "semaphore sem free" "free permits = MAX_CONNECTIONS" "orders_ok it"
  shows "fine_reachable sem ops env it rnd permits chans s \<Longrightarrow> typed_inv accepted s"
proof (induction rule: fine_reachable.induct)
  case start
  then show ?case
    by (simp add: typed_inv_def typed_state_def fine_new_def new_shared_state_def history_new_def new_registry_def hm_empty_def hm_or_def)
next
  case (step s s')
  then show ?case using fine_step_typed [OF assms(3)] fine_reachable_inv [OF assms] by blast
qed

end

lemma sendable_decodes:
  assumes "sendable m"
  shows "\<exists>f. decode_frame m = Ok (Some f, []) \<and> version f = CURRENT_PROTOCOL_VERSION \<and>
    (kind f = Chat \<and> (\<exists>l. from_utf8 (payload f) = Some l \<and> trim l \<noteq> []) \<or>
     kind f = Presence \<and> (\<exists>us. parse_presence (payload f) = Some us \<and> list_all registered_name us \<and> length us \<le> MAX_CONNECTIONS))"
  using assms unfolding sendable_def
proof (elim disjE exE conjE)
  fix l assume l: "room_line l" "m = frame_bytes (line_frame l)"
  with decode_frame_wf [OF frames_wf(1) [OF l(1)], of "[]"] from_utf8_as_bytes [of l] show ?thesis
    by (intro exI [of _ "line_frame l"]) (simp add: line_frame_def room_line_def)
next
  fix us assume u: "list_all registered_name us" "length us \<le> MAX_CONNECTIONS" "m = frame_bytes (names_frame us)"
  with decode_frame_wf [OF frames_wf(2) [OF u(1,2)], of "[]"] encode_presence_registered(3) [OF u(1,2)] show ?thesis
    by (intro exI [of _ "names_frame us"]) (simp add: names_frame_def)
qed

subsection \<open>Properties\<close>

text \<open>
  C8. The channels are well typed: in every reachable state of the server every message put on a
  client's channel, or kept for it until its replay, is exactly one frame of the current version,
  either a chat frame whose payload is valid UTF-8 and not blank, or a presence frame that parses
  to at most 256 valid names; and the history holds only lines that can be sent this way.
\<close>

theorem channels_well_typed:
  assumes "traced_mpsc ops queued capacity accepted env" and "semaphore sem free" and "free permits = MAX_CONNECTIONS"
    and "orders_ok it" and "fine_reachable sem ops env it rnd permits chans s"
    and "d \<in> set (hm_or [] a (outboxes (common s)))" and "m \<in> set (accepted (channels (common s) (cd_writer d)) @ cd_pending d)"
  shows "list_all room_line (retained (common s)) \<and>
    (\<exists>f. decode_frame m = Ok (Some f, []) \<and> version f = CURRENT_PROTOCOL_VERSION \<and>
       (kind f = Chat \<and> (\<exists>l. from_utf8 (payload f) = Some l \<and> trim l \<noteq> []) \<or>
        kind f = Presence \<and> (\<exists>us. parse_presence (payload f) = Some us \<and> list_all registered_name us \<and> length us \<le> MAX_CONNECTIONS)))"
proof -
  have t: "typed_state accepted (common s)"
    using traced_mpsc.fine_reachable_typed [OF assms(1-5)] by (simp add: typed_inv_def)
  then have "list_all room_line (retained (common s))" unfolding typed_state_def by (rule conjunct1)
  moreover have "list_all sendable (accepted (channels (common s) (cd_writer d)) @ cd_pending d)"
    using typed_entry [OF t assms(6)] by simp
  then have "sendable m" using assms(7) unfolding list_all_iff by (rule bspec)
  from sendable_decodes [OF this]
  have "\<exists>f. decode_frame m = Ok (Some f, []) \<and> version f = CURRENT_PROTOCOL_VERSION \<and>
     (kind f = Chat \<and> (\<exists>l. from_utf8 (payload f) = Some l \<and> trim l \<noteq> []) \<or>
      kind f = Presence \<and> (\<exists>us. parse_presence (payload f) = Some us \<and> list_all registered_name us \<and> length us \<le> MAX_CONNECTIONS))" .
  ultimately show ?thesis by (rule conjI)
qed

end
