(* ===== verification/Announcements.thy ===== *)
theory Announcements
  imports Fine_Inv
begin

section \<open>Who has entered and who has left\<close>

text \<open>
  The flag \<^verbatim>\<open>joined\<close> of \<^verbatim>\<open>ConnectionHandler\<close>, an \<^verbatim>\<open>AtomicBool\<close> that a connection's handler shares with
  its writer. The handler stores it after its join line was recorded and before it waits for the
  first frame; the writer loads it after it removed the client, and announces that the client has
  left only when it is set. \<open>Sections\<close> takes what the load yields as an input. Here the system of
  \<open>Sections\<close> is put beside the flags, the load yields what is stored, and storing is a step of its
  own, so that every task may run between the recording of a join line and the store, and between
  the removal of a client and the load. What the tasks announced is kept for the specification.
\<close>

subsection \<open>Announcements\<close>

datatype notice = Entered ustr | Gone ustr

text \<open>The line of an announcement, as the history keeps it.\<close>

fun notice_line :: "notice \<Rightarrow> ustr" where
  "notice_line (Entered u) = trim_end_matches 0x0A (join_line u)"
| "notice_line (Gone u) = trim_end_matches 0x0A (leave_line u)"

fun notice_of :: "phase \<Rightarrow> (token \<times> notice) option" where
  "notice_of (RecordJoin u tok) = Some (tok, Entered u)"
| "notice_of (RecordLeave u tok f) = Some (tok, Gone u)"
| "notice_of (WriterLeave u tok) = Some (tok, Gone u)"
| "notice_of p = None"

text \<open>The section that records a line announces it.\<close>

fun announces :: "phase \<Rightarrow> stage \<Rightarrow> stage + 'a \<Rightarrow> (token \<times> notice) list" where
  "announces p Start (Inl (Recording r)) = (case notice_of p of None \<Rightarrow> [] | Some x \<Rightarrow> [x])"
| "announces p g r = []"

definition said :: "token \<Rightarrow> (token \<times> notice) list \<Rightarrow> notice list" where
  "said tok xs = map snd (filter (\<lambda>(t, x). t = tok) xs)"

subsection \<open>The system with its flags\<close>

text \<open>A connection's flag goes by the token of its client; \<^verbatim>\<open>ConnectionHandler::new\<close> creates it false.\<close>

record ('s, 'w) flagged_system =
  core :: "('s, 'w) fine_system"
  joined_flags :: "token \<Rightarrow> bool"
  announced :: "(token \<times> notice) list"

definition flagged_new :: "'s \<Rightarrow> (chan_id \<Rightarrow> 'w) \<Rightarrow> ('s, 'w) flagged_system" where
  "flagged_new permits chans = \<lparr>core = fine_new permits chans, joined_flags = (\<lambda>_. False), announced = []\<rparr>"

text \<open>\<^verbatim>\<open>joined.load\<close>.\<close>

fun load_joined :: "phase \<Rightarrow> (token \<Rightarrow> bool) \<Rightarrow> 'w inputs \<Rightarrow> 'w inputs" where
  "load_joined (CheckJoined u tok) flags i = i\<lparr>has_joined := flags tok\<rparr>"
| "load_joined p flags i = i"

text \<open>\<^verbatim>\<open>self.joined.store\<close>, before the first \<^verbatim>\<open>select!\<close>.\<close>

definition store_joined :: "token \<Rightarrow> ('s, 'w) flagged_system \<Rightarrow> ('s, 'w) flagged_system" where
  "store_joined tok s = s\<lparr>joined_flags := (joined_flags s)(tok := True)\<rparr>"

fun has_stored :: "phase \<Rightarrow> (token \<Rightarrow> bool) \<Rightarrow> bool" where
  "has_stored (Talk u tok) flags = flags tok"
| "has_stored p flags = True"

definition flagged_turn ::
  "'s sem_ops \<Rightarrow> 'w chan_ops \<Rightarrow> map_orders \<Rightarrow> (rat \<Rightarrow> rat) \<Rightarrow> 'w inputs \<Rightarrow> (task \<times> stage) list \<Rightarrow> task \<Rightarrow> stage \<Rightarrow>
     (task \<times> stage) list \<Rightarrow> ('s, 'w) flagged_system \<Rightarrow> ('s, 'w) flagged_system"
where
  "flagged_turn sem ops it rnd i earlier t g later s =
     (let i' = load_joined (phase t) (joined_flags s) i in
      s\<lparr>core := section_turn sem ops it rnd i' earlier t g later (core s),
        announced := announced s @
          announces (phase t) g (fst (task_section ops it rnd i' (peer t) (phase t) g (common (core s))))\<rparr>)"

inductive flagged_step ::
  "'s sem_ops \<Rightarrow> 'w chan_ops \<Rightarrow> 'w chan_env \<Rightarrow> map_orders \<Rightarrow> (rat \<Rightarrow> rat) \<Rightarrow>
     ('s, 'w) flagged_system \<Rightarrow> ('s, 'w) flagged_system \<Rightarrow> bool"
  for sem ops env it rnd
where
  accept: "flagged_step sem ops env it rnd s (s\<lparr>core := fine_accept sem accepted (core s)\<rparr>)"
| cleanup: "flagged_step sem ops env it rnd s
    (s\<lparr>core := (core s)\<lparr>common := snd (cleanup_rate_limits time (common (core s)))\<rparr>\<rparr>)"
| turn: "running (core s) = before @ (t, g) # after \<Longrightarrow> fine_inputs_ok env i (core s) \<Longrightarrow> may_run t g (core s) \<Longrightarrow>
    has_stored (phase t) (joined_flags s) \<Longrightarrow>
    flagged_step sem ops env it rnd s (flagged_turn sem ops it rnd i before t g after s)"
| store: "(t, Start) \<in> set (running (core s)) \<Longrightarrow> phase t = Talk u tok \<Longrightarrow>
    flagged_step sem ops env it rnd s (store_joined tok s)"
| received: "recv env (channels (common (core s)) c) w \<Longrightarrow>
    flagged_step sem ops env it rnd s
      (s\<lparr>core := (core s)\<lparr>common := (common (core s))\<lparr>channels := (channels (common (core s)))(c := w)\<rparr>\<rparr>\<rparr>)"
| writer_done: "running (core s) = before @ (t, Start) # after \<Longrightarrow> phase t = Writing u tok \<Longrightarrow>
    flagged_step sem ops env it rnd s (s\<lparr>core := (core s)\<lparr>running := before @ after\<rparr>\<rparr>)"

inductive flagged_reachable ::
  "'s sem_ops \<Rightarrow> 'w chan_ops \<Rightarrow> 'w chan_env \<Rightarrow> map_orders \<Rightarrow> (rat \<Rightarrow> rat) \<Rightarrow> 's \<Rightarrow> (chan_id \<Rightarrow> 'w) \<Rightarrow>
     ('s, 'w) flagged_system \<Rightarrow> bool"
  for sem ops env it rnd permits chans
where
  start: "flagged_reachable sem ops env it rnd permits chans (flagged_new permits chans)"
| step: "flagged_reachable sem ops env it rnd permits chans s \<Longrightarrow> flagged_step sem ops env it rnd s s' \<Longrightarrow>
    flagged_reachable sem ops env it rnd permits chans s'"

subsection \<open>The flags only narrow what the system can do\<close>

text \<open>A step of the system with flags is a step of the system of \<open>Sections\<close>, or leaves that as it is.\<close>

lemma load_joined_ok [simp]: "fine_inputs_ok env (load_joined p flags i) s = fine_inputs_ok env i s"
  by (cases p) (simp_all add: fine_inputs_ok_def inputs_ok_def)

lemma flagged_step_core:
  assumes "flagged_step sem ops env it rnd s s'"
  shows "core s' = core s \<or> fine_step sem ops env it rnd (core s) (core s')"
  using assms
proof cases
  case (turn before t g after i)
  then have "fine_step sem ops env it rnd (core s)
      (section_turn sem ops it rnd (load_joined (phase t) (joined_flags s) i) before t g after (core s))"
    by (intro fine_step.turn) simp_all
  then show ?thesis by (simp add: turn(1) flagged_turn_def Let_def)
qed (auto simp: store_joined_def intro: fine_step.intros)

lemma flagged_core:
  "flagged_reachable sem ops env it rnd permits chans s \<Longrightarrow> fine_reachable sem ops env it rnd permits chans (core s)"
proof (induction rule: flagged_reachable.induct)
  case start
  show ?case unfolding flagged_new_def by simp (rule fine_reachable.start)
next
  case (step s s')
  then show ?case using flagged_step_core by (metis fine_reachable.step)
qed

lemma flagged_steps_core:
  "(flagged_step sem ops env it rnd)\<^sup>*\<^sup>* s s' \<Longrightarrow> (fine_step sem ops env it rnd)\<^sup>*\<^sup>* (core s) (core s')"
proof (induction rule: rtranclp_induct)
  case (step s1 s2)
  then show ?case using flagged_step_core [OF step(2)] by (metis rtranclp.rtrancl_into_rtrancl)
qed simp

lemma said_simps [simp]:
  "said tok [] = []" "said tok (xs @ ys) = said tok xs @ said tok ys"
  "said tok ((t, x) # xs) = (if t = tok then x # said tok xs else said tok xs)"
  by (simp_all add: said_def)

end
