(* ===== verification/Room_Order.thy ===== *)
theory Room_Order
  imports Wire_Types Announcements
begin

section \<open>The room as its clients see it\<close>

text \<open>
  The properties of the system of critical sections, and a run of it: from the start of the server
  to the moment at which its only client has received the list of names and its own join line.
\<close>

subsection \<open>A channel that remembers\<close>

text \<open>A bounded queue with the messages its receiver took.\<close>

type_synonym traced_chan = "bytes list \<times> bounded_chan"

definition traced_ops :: "traced_chan chan_ops" where
  "traced_ops =
     \<lparr>try_send = (\<lambda>(taken, c) m. let (r, c') = try_send bounded_ops c m in (r, (taken, c'))),
      is_closed = (\<lambda>(taken, c). bc_closed c)\<rparr>"

definition traced_new :: traced_chan where
  "traced_new = ([], bounded_new OUTBOUND_QUEUE_SIZE)"

fun traced_recv :: "traced_chan \<Rightarrow> traced_chan \<Rightarrow> bool" where
  "traced_recv (taken, c) (taken', c') \<longleftrightarrow>
     (\<exists>m ms. bc_queue c = m # ms \<and> taken' = taken @ [m] \<and> c' = c\<lparr>bc_queue := ms\<rparr>) \<or>
     taken' = taken \<and> c' = c\<lparr>bc_closed := True\<rparr>"

definition traced_env :: "traced_chan chan_env" where
  "traced_env = \<lparr>recv = traced_recv, newly = (\<lambda>c. c = traced_new)\<rparr>"

definition traced_accepted :: "traced_chan \<Rightarrow> bytes list" where
  "traced_accepted = (\<lambda>(taken, c). taken @ bc_queue c)"

interpretation traced: traced_mpsc traced_ops "\<lambda>(taken, c). bc_queue c" "\<lambda>(taken, c). bc_capacity c"
  traced_accepted traced_env
  by unfold_locales
    (auto simp: traced_ops_def bounded_ops_def traced_env_def traced_accepted_def traced_new_def bounded_new_def Let_def
      split: if_splits)

subsection \<open>A run\<close>

definition ann :: "chan_id \<Rightarrow> traced_chan inputs" where
  "ann c = \<lparr>shaken = Ok (lit ''ann''), fresh = traced_new, channel = c, watch = 1, now = 0, time_of_day = lit ''12:00'',
     selected = None, has_joined = False\<rparr>"

abbreviation room_reachable :: "(nat, traced_chan) fine_system \<Rightarrow> bool" where
  "room_reachable \<equiv> fine_reachable counting_ops traced_ops traced_env bounded_orders (\<lambda>x. x) 256 (\<lambda>_. traced_new)"

abbreviation room_turn ::
  "chan_id \<Rightarrow> task \<Rightarrow> stage \<Rightarrow> (task \<times> stage) list \<Rightarrow> (nat, traced_chan) fine_system \<Rightarrow> (nat, traced_chan) fine_system" where
  "room_turn c t g after \<equiv> section_turn counting_ops traced_ops bounded_orders (\<lambda>x. x) (ann c) [] t g after"

abbreviation room_next :: "(nat, traced_chan) fine_system \<Rightarrow> (nat, traced_chan) fine_system \<Rightarrow> bool" where
  "room_next \<equiv> fine_step counting_ops traced_ops traced_env bounded_orders (\<lambda>x. x)"

lemma ann_inputs:
  assumes "unused_channel c (outboxes (common s))" "c \<notin> replay_channels (running s)"
  shows "fine_inputs_ok traced_env (ann c) s"
proof -
  have "inputs_ok (ann c) (common s)" using assms(1) registered_ann by (simp add: inputs_ok_def ann_def noon)
  with assms(2) show ?thesis by (simp add: fine_inputs_ok_def ann_def traced_env_def)
qed

lemma room_step:
  assumes "running s = (t, g) # after" "unused_channel c (outboxes (common s))"
    "c \<notin> replay_channels (running s)" "may_run t g s" "room_turn c t g after s = s'"
  shows "room_next s s'"
proof -
  have "fine_inputs_ok traced_env (ann c) s" by (rule ann_inputs [OF assms(2,3)])
  with assms show ?thesis using fine_step.turn [of s "[]" t g after traced_env "ann c"] by auto
qed

text \<open>The run is one of the system with flags; up to the join line no flag is stored and nothing is
  announced.\<close>

abbreviation flagged_room :: "(nat, traced_chan) fine_system \<Rightarrow> bool" where
  "flagged_room s \<equiv> flagged_reachable counting_ops traced_ops traced_env bounded_orders (\<lambda>x. x) 256 (\<lambda>_. traced_new)
     \<lparr>core = s, joined_flags = (\<lambda>_. False), announced = []\<rparr>"

lemma flagged_room_core: "flagged_room s \<Longrightarrow> room_reachable s"
  using flagged_core by fastforce

lemma flagged_room_step:
  assumes "flagged_room s" "running s = (t, g) # after" "unused_channel c (outboxes (common s))"
    "c \<notin> replay_channels (running s)" "may_run t g s" "room_turn c t g after s = s'"
    "notice_of (phase t) = None" "has_stored (phase t) (\<lambda>_. False)"
  shows "flagged_room s'"
proof -
  let ?f = "\<lambda>s. \<lparr>core = s, joined_flags = (\<lambda>_. False), announced = []\<rparr>"
  have load: "load_joined (phase t) (\<lambda>_. False) (ann c) = ann c" by (cases "phase t") (simp_all add: ann_def)
  have "announces (phase t) g r = []" for r :: "stage + (phase option, unit) result"
    using assms(7) by (cases "(phase t, g, r)" rule: announces.cases) simp_all
  with assms(2,6) load have "flagged_turn counting_ops traced_ops bounded_orders (\<lambda>x. x) (ann c) [] t g after (?f s) = ?f s'"
    by (simp add: flagged_turn_def)
  moreover have "fine_inputs_ok traced_env (ann c) s" by (rule ann_inputs [OF assms(3,4)])
  ultimately have "flagged_step counting_ops traced_ops traced_env bounded_orders (\<lambda>x. x) (?f s) (?f s')"
    using flagged_step.turn [of "?f s" "[]" t g after traced_env "ann c" counting_ops traced_ops bounded_orders "\<lambda>x. x"] assms(2,5,8)
    by simp
  from flagged_reachable.step [OF assms(1) this] show ?thesis .
qed

definition ann_task :: "phase \<Rightarrow> task" where
  "ann_task p = \<lparr>peer = localhost, holds = Some \<lparr>permit_ip = addr_ip localhost\<rparr>, phase = p\<rparr>"

definition ann_writer :: task where
  "ann_writer = \<lparr>peer = localhost, holds = None, phase = Writing (lit ''ann'') 0\<rparr>"

text \<open>The server with this one client: whether it has its name, whether it is ready, its channel,
  the history, the phase and the stage of its task, the barrier and the recorded lines.\<close>

definition ann_state :: "ustr option \<Rightarrow> bool \<Rightarrow> traced_chan \<Rightarrow> ustr list \<Rightarrow> traced_chan server_state" where
  "ann_state u rdy c hist =
     \<lparr>clients = mutex_new \<lparr>by_addr = [(localhost, [\<lparr>cs_token = 0, cs_username = u\<rparr>])], per_ip = [(addr_ip localhost, 1)], total = 1\<rparr>,
      deliveries = mutex_new [(localhost, [\<lparr>cd_addr = localhost, cd_token = 0, cd_writer = 1, cd_disconnect = Some 1,
        cd_ready = rdy, cd_pending = []\<rparr>])],
      history = mutex_new \<lparr>entries = hist, limit = MESSAGE_HISTORY_LIMIT\<rparr>,
      rate_limits = mutex_new hm_empty, replay_barrier = mutex_new (),
      channels = (\<lambda>_. traced_new)(1 := c), signals = [], next_token = 1\<rparr>"

definition ann_room ::
  "traced_chan server_state \<Rightarrow> (task \<times> stage) list \<Rightarrow> bool \<Rightarrow> (ustr \<times> bytes) list \<Rightarrow> (nat, traced_chan) fine_system" where
  "ann_room st ts lk L =
     \<lparr>admits = \<lparr>global = 255, per_ip_counts = mutex_new [(addr_ip localhost, 1)]\<rparr>, common = st, running = ts,
      locked = lk, record_log = L\<rparr>"

lemmas ann_defs = ann_def ann_task_def ann_writer_def ann_state_def ann_room_def

lemmas shared_defs = mutex_new_def mutex_set_def hm_or_def hm_empty_def hm_values_def hm_keys_def Let_def limits
  bounded_orders_def localhost_def update_client_def find_client_def

lemma ann_running: "running (ann_room st ts lk L) = ts"
  by (simp add: ann_room_def)

lemma start_flagged: "flagged_room (fine_new 256 (\<lambda>_. traced_new))"
  using flagged_reachable.start by (simp add: flagged_new_def)

lemma admitted_flagged:
  "flagged_room (ann_room (new_shared_state (\<lambda>_. traced_new)) [(ann_task Handshaking, Start)] False [])"
proof -
  have "fine_accept counting_ops (Ok localhost) (fine_new 256 (\<lambda>_. traced_new)) =
      ann_room (new_shared_state (\<lambda>_. traced_new)) [(ann_task Handshaking, Start)] False []"
    by (simp add: fine_accept_def fine_new_def try_acquire_def counting_ops_def admission_new_def ann_defs shared_defs)
  then show ?thesis
    using flagged_reachable.step [OF start_flagged flagged_step.accept [where accepted = "Ok localhost"]] by simp
qed

lemma shaken_room:
  "flagged_room (ann_room (new_shared_state (\<lambda>_. traced_new)) [(ann_task (Register (lit ''ann'')), Start)] False [])"
  by (rule flagged_room_step [OF admitted_flagged ann_running, where c = 1])
    (simp_all add: section_turn_def ann_defs shared_defs new_shared_state_def new_registry_def unused_channel_def
      replay_channels_def may_run_def)

lemma registered_room:
  "flagged_room (ann_room (ann_state None False traced_new []) [(ann_task (Name (lit ''ann'') 0), Start)] False [])"
  by (rule flagged_room_step [OF shaken_room ann_running, where c = 1])
    (simp_all add: section_turn_def ann_defs shared_defs new_shared_state_def new_registry_def unused_channel_def
      replay_channels_def may_run_def register_pending_client_def register_client_with_status_def limit_reached_def
      registry_add_def delivery_add_def registry_new_def history_new_def)

abbreviation named_room :: "bool \<Rightarrow> traced_chan \<Rightarrow> ustr list \<Rightarrow> phase \<Rightarrow> stage \<Rightarrow> bool \<Rightarrow> (ustr \<times> bytes) list \<Rightarrow>
    (nat, traced_chan) fine_system" where
  "named_room rdy c hist p g lk L \<equiv>
     ann_room (ann_state (Some (lit ''ann'')) rdy c hist) [(ann_task p, g), (ann_writer, Start)] lk L"

lemma named_flagged: "flagged_room (named_room False traced_new [] (Replay (lit ''ann'') 0) Start False [])"
  by (rule flagged_room_step [OF registered_room ann_running, where c = 2])
    (simp_all add: section_turn_def ann_defs shared_defs unused_channel_def replay_channels_def may_run_def set_client_username_def)

lemma named_step:
  assumes "\<not> (g = Start \<and> takes_barrier p \<and> lk)" "channel_of g \<noteq> Some 2"
    "room_turn 2 (ann_task p) g [(ann_writer, Start)] (named_room rdy c hist p g lk L) = s"
  shows "room_next (named_room rdy c hist p g lk L) s"
  by (rule room_step [OF ann_running, where c = 2])
    (use assms in \<open>auto simp: ann_defs unused_channel_def replay_channels_iff may_run_def shared_defs\<close>)

lemma flagged_named_step:
  assumes "flagged_room (named_room rdy c hist p g lk L)" "\<not> (g = Start \<and> takes_barrier p \<and> lk)" "channel_of g \<noteq> Some 2"
    "room_turn 2 (ann_task p) g [(ann_writer, Start)] (named_room rdy c hist p g lk L) = s"
    "notice_of p = None" "has_stored p (\<lambda>_. False)"
  shows "flagged_room s"
  by (rule flagged_room_step [OF assms(1) ann_running, where c = 2])
    (use assms(2-6) in \<open>auto simp: ann_defs unused_channel_def replay_channels_iff may_run_def shared_defs\<close>)

lemma replaying_flagged:
  "flagged_room (named_room False traced_new [] (Replay (lit ''ann'') 0) (Replaying (Copying 1)) True [])"
  by (rule flagged_named_step [OF named_flagged]) (simp_all add: section_turn_def ann_defs shared_defs)

lemma sending_flagged:
  "flagged_room (named_room False traced_new [] (Replay (lit ''ann'') 0) (Replaying (Sending 1 [])) True [])"
  by (rule flagged_named_step [OF replaying_flagged]) (simp_all add: section_turn_def ann_defs shared_defs snapshot_def)

lemma ready_flagged: "flagged_room (named_room True traced_new [] (ShowUsers (lit ''ann'') 0) Start False [])"
  by (rule flagged_named_step [OF sending_flagged])
    (simp_all add: section_turn_def ann_defs shared_defs mark_client_ready_def fun_upd_idem)

lemma pruned_flagged: "flagged_room (named_room True traced_new [] (ShowUsers (lit ''ann'') 0) (Updating (Pruning [])) False [])"
  by (rule flagged_named_step [OF ready_flagged])
    (simp_all add: section_turn_def ann_defs shared_defs prune_section_def is_overloaded_def traced_ops_def traced_new_def bounded_new_def)

definition ann_names :: bytes where
  "ann_names = frame_bytes \<lparr>version = CURRENT_PROTOCOL_VERSION, kind = Presence, payload = presence_payload [lit ''ann'']\<rparr>"

lemma ann_names: "encode_presence [lit ''ann''] = Ok ann_names" "wf_frame \<lparr>version = CURRENT_PROTOCOL_VERSION, kind = Presence,
    payload = presence_payload [lit ''ann'']\<rparr>"
  unfolding ann_names_def by (rule encode_presence_registered; simp add: registered_ann limits)+

lemma spreading_flagged:
  "flagged_room (named_room True traced_new [] (ShowUsers (lit ''ann'') 0) (Updating (Spreading ann_names)) False [])"
  by (rule flagged_named_step [OF pruned_flagged])
    (simp_all add: section_turn_def ann_defs shared_defs usernames_def List.map_filter_simps ann_names)

text \<open>The channel of the client after its receiver took some messages; others are queued.\<close>

definition carried :: "bytes list \<Rightarrow> bytes list \<Rightarrow> traced_chan" where
  "carried got ms = (got, \<lparr>bc_queue = ms, bc_capacity = OUTBOUND_QUEUE_SIZE, bc_closed = False\<rparr>)"

lemma carried_new: "traced_new = carried [] []"
  by (simp add: carried_def traced_new_def bounded_new_def)

lemma carried_send: "length ms < OUTBOUND_QUEUE_SIZE \<Longrightarrow> try_send traced_ops (carried got ms) m = (Sent, carried got (ms @ [m]))"
  by (simp add: carried_def traced_ops_def bounded_ops_def)

lemma shown_flagged:
  "flagged_room (named_room True (carried [] [ann_names]) [] (ShowUsers (lit ''ann'') 0) (Updating (Dropping [])) False [])"
  by (rule flagged_named_step [OF spreading_flagged])
    (simp_all add: section_turn_def ann_defs shared_defs broadcast_section_def broadcast_client_def carried_new carried_send)

lemma joining_flagged:
  "flagged_room (named_room True (carried [] [ann_names]) [] (RecordJoin (lit ''ann'') 0) Start False [])"
  by (rule flagged_named_step [OF shown_flagged]) (simp_all add: section_turn_def ann_defs shared_defs)

definition ann_line :: ustr where
  "ann_line = trim_end_matches 0x0A (join_line (lit ''ann''))"

definition ann_joined :: bytes where
  "ann_joined = chat_bytes (trim_end (join_line (lit ''ann'')))"

lemma ann_joined: "encode_frame Chat (as_bytes (trim_end (join_line (lit ''ann'')))) = Ok ann_joined"
  unfolding ann_joined_def by (rule encode_short, rule short_join_leave, rule registered_ann)

lemmas replaying_reachable = flagged_room_core [OF replaying_flagged]
  and ready_reachable = flagged_room_core [OF ready_flagged]
  and joining_reachable = flagged_room_core [OF joining_flagged]

text \<open>The last steps: the join line is recorded and broadcast, and the client receives its first message.\<close>

abbreviation joining_room :: "(nat, traced_chan) fine_system" where
  "joining_room \<equiv> named_room True (carried [] [ann_names]) [] (RecordJoin (lit ''ann'') 0) Start False []"

abbreviation heard_room :: "(nat, traced_chan) fine_system" where
  "heard_room \<equiv> named_room True (carried [ann_names] [ann_joined]) [ann_line] (Talk (lit ''ann'') 0) Start False
     [(ann_line, ann_joined)]"

lemma joined_steps: "room_next\<^sup>*\<^sup>* joining_room heard_room"
proof -
  let ?recorded = "named_room True (carried [] [ann_names]) [ann_line] (RecordJoin (lit ''ann'') 0)
     (Recording (Recorded (join_line (lit ''ann'')) ann_joined)) True [(ann_line, ann_joined)]"
  let ?said = "named_room True (carried [] [ann_names, ann_joined]) [ann_line] (RecordJoin (lit ''ann'') 0)
     (Recording (Evicting [] False)) True [(ann_line, ann_joined)]"
  let ?talking = "named_room True (carried [] [ann_names, ann_joined]) [ann_line] (Talk (lit ''ann'') 0) Start False
     [(ann_line, ann_joined)]"
  have "room_next joining_room ?recorded"
    by (rule named_step) (simp_all add: section_turn_def ann_defs shared_defs ann_joined ann_line_def history_record_def)
  moreover have "room_next ?recorded ?said"
    by (rule named_step)
      (simp_all add: section_turn_def ann_defs shared_defs broadcast_section_def broadcast_client_def carried_send)
  moreover have "room_next ?said ?talking"
    by (rule named_step) (simp_all add: section_turn_def ann_defs shared_defs)
  moreover have "room_next ?talking heard_room"
  proof -
    have "recv traced_env (channels (common ?talking) 1) (carried [ann_names] [ann_joined])"
      by (simp add: ann_defs traced_env_def carried_def)
    from fine_step.received [OF this] show ?thesis by (simp add: ann_defs del: fun_upd_apply)
  qed
  ultimately show ?thesis by (meson rtranclp.rtrancl_refl rtranclp.rtrancl_into_rtrancl)
qed

lemma heard_reachable: "room_reachable heard_room"
  by (rule fine_reachable_steps [OF joining_reachable joined_steps])

lemma delivery_pending: "sound st \<Longrightarrow> d \<in> set (hm_or [] a (outboxes st)) \<Longrightarrow> cd_ready d \<Longrightarrow> cd_pending d = []"
  using delivery_inv_or [of "outboxes st" d a] by (simp add: sound_def settled_def server_inv_def delivery_ok_def)

lemma ready_client_lines:
  assumes "traced_mpsc ops queued capacity accepted env" and "semaphore sem free" and "free permits = MAX_CONNECTIONS"
    and "orders_ok it" and "fine_reachable sem ops env it rnd permits chans s0" and "(fine_step sem ops env it rnd)\<^sup>*\<^sup>* s0 s"
    and "\<not> locked s" and "d \<in> set (hm_or [] a (outboxes (common s)))" and "cd_ready d"
  shows "\<exists>k m. k \<le> m \<and> m \<le> length (record_log s) \<and>
    ((\<exists>d0 \<in> set (hm_or [] a (outboxes (common s0))). cd_token d0 = cd_token d) \<longrightarrow> k \<le> length (record_log s0)) \<and>
    (next_token (common s0) \<le> cd_token d \<longrightarrow> length (record_log s0) \<le> Suc k) \<and>
    filter is_chat (accepted (channels (common s) (cd_writer d))) =
      map chat_bytes (kept_lines (take m (record_log s))) @ map snd (drop k (record_log s))"
proof -
  have inv0: "fine_inv free s0" by (rule fine_reachable_inv [OF assms(2-5)])
  obtain K0 where K0: "order_inv accepted K0 s0" using traced_mpsc.fine_reachable_order [OF assms(1-5)] by blast
  obtain K where inv: "fine_inv free s" and K: "order_inv accepted K s" "\<forall>tok < next_token (common s0). K tok = K0 tok"
      "\<forall>tok. next_token (common s0) \<le> tok \<longrightarrow> tok < next_token (common s) \<longrightarrow> length (record_log s0) \<le> Suc (K tok)"
    using traced_mpsc.fine_steps_order [OF assms(1,2,4) inv0 K0 assms(6)] by blast
  have o: "ordered K (outboxes (common s)) (acc_of accepted (common s)) (record_log s) (running s)"
    and o0: "ordered K0 (outboxes (common s0)) (acc_of accepted (common s0)) (record_log s0) (running s0)"
    using K(1) K0 by (simp_all add: order_inv_def)
  have "recordings (running s) = {}" using fine_invD(3) [OF inv] assms(7) by (intro no_recordings) simp
  with orderedD(2) [OF o assms(8)] assms(9) delivery_pending [OF fine_invD(4) [OF inv] assms(8,9)]
  obtain m where "K (cd_token d) \<le> m" "m \<le> length (record_log s)"
    "filter is_chat (accepted (channels (common s) (cd_writer d))) =
      map chat_bytes (kept_lines (take m (record_log s))) @ map snd (drop (K (cd_token d)) (record_log s))"
    by (auto simp: client_ok_def delivered_def in_order_def acc_of_def chats_def replayed_def live_def)
  moreover have "K (cd_token d) \<le> length (record_log s0)"
    if d0: "d0 \<in> set (hm_or [] a (outboxes (common s0)))" "cd_token d0 = cd_token d" for d0
  proof -
    have "length (delivered R L a' tok) \<le> length L" for R L a' tok by (simp add: delivered_def)
    moreover have "K0 (cd_token d) \<le> length (delivered (recordings (running s0)) (record_log s0) a (cd_token d))"
      using orderedD(2) [OF o0 d0(1)] le_trans unfolding client_ok_def in_order_def d0(2) by blast
    ultimately have "K0 (cd_token d) \<le> length (record_log s0)" using le_trans by blast
    with K(2) entry_token [OF fine_invD(4) [OF inv0] d0(1)] d0(2) show ?thesis by simp
  qed
  moreover have "length (record_log s0) \<le> Suc (K (cd_token d))" if "next_token (common s0) \<le> cd_token d"
    using K(3) that entry_token [OF fine_invD(4) [OF inv] assms(8)] by simp
  ultimately show ?thesis by blast
qed

subsection \<open>Properties\<close>

text \<open>
  C3. Every client sees the lines of the room in one and the same order, whatever the interleaving of
  the critical sections. Whenever the barrier is free, the history holds the last hundred recorded
  lines, and the chat frames a ready client has been sent are the lines kept at some later moment
  and then every line after the first \<open>k\<close>, none lost and none out of order, where \<open>k\<close> is what was
  recorded when it registered: no more than at any moment \<open>s0\<close> at which it was registered, and at
  most one less (a line on its way) than at any moment at which it was not yet.
\<close>

theorem lines_in_order:
  assumes "traced_mpsc ops queued capacity accepted env" and "semaphore sem free" and "free permits = MAX_CONNECTIONS"
    and "orders_ok it" and "fine_reachable sem ops env it rnd permits chans s0" and "(fine_step sem ops env it rnd)\<^sup>*\<^sup>* s0 s"
    and "\<not> locked s"
  shows "retained (common s) = kept_lines (record_log s) \<and> (\<forall>x \<in> set (record_log s). log_entry x) \<and>
    prefix (record_log s0) (record_log s) \<and>
    (\<forall>a d. d \<in> set (hm_or [] a (outboxes (common s))) \<longrightarrow> cd_ready d \<longrightarrow>
       (\<exists>k m. k \<le> m \<and> m \<le> length (record_log s) \<and>
          ((\<exists>d0 \<in> set (hm_or [] a (outboxes (common s0))). cd_token d0 = cd_token d) \<longrightarrow> k \<le> length (record_log s0)) \<and>
          (next_token (common s0) \<le> cd_token d \<longrightarrow> length (record_log s0) \<le> Suc k) \<and>
          filter is_chat (accepted (channels (common s) (cd_writer d))) =
            map chat_bytes (kept_lines (take m (record_log s))) @ map snd (drop k (record_log s))))"
proof (intro conjI allI impI)
  obtain K0 where "order_inv accepted K0 s0" using traced_mpsc.fine_reachable_order [OF assms(1-5)] by blast
  from traced_mpsc.fine_steps_order [OF assms(1,2,4) fine_reachable_inv [OF assms(2-5)] this assms(6)]
  obtain K where ord: "order_inv accepted K s" and "prefix (record_log s0) (record_log s)" by blast
  then show "prefix (record_log s0) (record_log s)" "retained (common s) = kept_lines (record_log s)"
    by (simp_all add: order_inv_def)
  show "\<forall>x \<in> set (record_log s). log_entry x" using ord orderedD(1) unfolding order_inv_def by blast
qed (rule ready_client_lines [OF assms])

theorem lines_in_order_witness:
  "\<exists>m \<le> 1. filter is_chat [ann_names, ann_joined] =
     map chat_bytes (kept_lines (take m [(ann_line, ann_joined)])) @ map snd [(ann_line, ann_joined)]"
proof -
  let ?d = "\<lparr>cd_addr = localhost, cd_token = 0, cd_writer = 1, cd_disconnect = Some 1, cd_ready = True, cd_pending = []\<rparr>"
  have "256 = MAX_CONNECTIONS" "\<not> locked heard_room" by (simp_all add: limits ann_room_def)
  note all = lines_in_order [OF traced.traced_mpsc_axioms counting.semaphore_axioms this(1) bounded_orders_ok joining_reachable
      joined_steps this(2), THEN conjunct2, THEN conjunct2, THEN conjunct2, rule_format, of ?d localhost]
  have "?d \<in> set (hm_or [] localhost (outboxes (common heard_room)))" "cd_ready ?d"
    "\<exists>d0 \<in> set (hm_or [] localhost (outboxes (common joining_room))). cd_token d0 = cd_token ?d"
    by (simp_all add: ann_defs shared_defs)
  with all [OF this(1,2)] show ?thesis by (auto simp: ann_defs shared_defs traced_accepted_def carried_def simp del: filter.simps)
qed

text \<open>
  C4. At every moment of every run of the critical sections the shared state is sound, no section of a
  task that may run panics, at most one task holds the barrier and exactly one does while it is
  locked, and every registered client belongs to a task that holds one of at most 256 permits, of
  which no address has more than four.
\<close>

theorem sections_stay_sound:
  assumes "semaphore sem free" and "free permits = MAX_CONNECTIONS" and "orders_ok it"
    and "fine_reachable sem ops env it rnd permits chans s"
  shows "sound (common s) \<and> length (holders (running s)) = (if locked s then 1 else 0) \<and>
    (\<forall>(t, g) \<in> set (running s). \<forall>i. inputs_ok i (common s) \<longrightarrow>
       fst (task_section ops it rnd i (peer t) (phase t) g (common s)) \<notin> {Inr Panic}) \<and>
    members (common s) \<subseteq> set (handled (map fst (running s))) \<and>
    card (members (common s)) \<le> size (permits_out (map fst (running s))) \<and>
    size (permits_out (map fst (running s))) \<le> MAX_CONNECTIONS \<and>
    (\<forall>ip. count (permits_out (map fst (running s))) ip \<le> MAX_CONNECTIONS_PER_IP)"
proof -
  have inv: "fine_inv free s" by (rule fine_reachable_inv [OF assms])
  note sys = fine_invD(1) [OF inv]
  have "fst (task_section ops it rnd i (peer t) (phase t) g (common s)) \<noteq> Inr Panic"
    if t: "(t, g) \<in> set (running s)" "inputs_ok i (common s)" for t g i
  proof -
    obtain before after where "running s = before @ (t, g) # after" using t(1) by (meson split_list)
    note ok = running_task(1,2) [OF inv this]
    obtain r st' where "task_section ops it rnd i (peer t) (phase t) g (common s) = (r, st')"
      "section_sound (peer t) (phase t) r (common s) st'"
      by (rule task_section_sound [OF fine_invD(4) [OF inv] assms(3) ok t(2), of ops rnd "peer t"], rule that)
    then show ?thesis by (auto simp: section_sound_def)
  qed
  moreover have "members (common s) \<subseteq> set (handled (map fst (running s)))"
    "size (permits_out (map fst (running s))) \<le> MAX_CONNECTIONS"
    "\<forall>ip. count (permits_out (map fst (running s))) ip \<le> MAX_CONNECTIONS_PER_IP"
    using system_invD(3,6) [OF sys] by (simp_all add: admission_inv_def)
  ultimately show ?thesis
    using fine_invD(3,4) [OF inv] clients_within_permits [OF sys] by auto
qed

theorem sections_stay_sound_witness:
  "sound (ann_state (Some (lit ''ann'')) False traced_new [])"
  using sections_stay_sound [OF counting.semaphore_axioms _ bounded_orders_ok replaying_reachable]
  by (simp add: limits) (simp add: ann_room_def)

theorem barrier_released_witness:
  "\<exists>s'. fine_step counting_ops traced_ops traced_env bounded_orders (\<lambda>x. x)
      (named_room False traced_new [] (Replay (lit ''ann'') 0) (Replaying (Copying 1)) True []) s' \<and>
     (\<not> locked s' \<or> barrier_left (running s') < 102)"
proof -
  have "256 = MAX_CONNECTIONS" "newly traced_env traced_new"
    "locked (named_room False traced_new [] (Replay (lit ''ann'') 0) (Replaying (Copying 1)) True [])"
    "barrier_left (running (named_room False traced_new [] (Replay (lit ''ann'') 0) (Replaying (Copying 1)) True [])) = 102"
    by (simp_all add: ann_room_def traced_env_def limits)
  then show ?thesis
    using barrier_released [OF counting.semaphore_axioms _ bounded_orders_ok _ replaying_reachable, of traced_new] by metis
qed

theorem channels_well_typed_witness:
  "\<exists>f. decode_frame ann_joined = Ok (Some f, []) \<and> version f = CURRENT_PROTOCOL_VERSION \<and> kind f \<noteq> Handshake"
proof -
  let ?s = heard_room
  let ?d = "\<lparr>cd_addr = localhost, cd_token = 0, cd_writer = 1, cd_disconnect = Some 1, cd_ready = True, cd_pending = []\<rparr>"
  have "256 = MAX_CONNECTIONS" "?d \<in> set (hm_or [] localhost (outboxes (common ?s)))"
    "ann_joined \<in> set (traced_accepted (channels (common ?s) (cd_writer ?d)) @ cd_pending ?d)"
    by (simp_all add: ann_defs shared_defs traced_accepted_def carried_def)
  from channels_well_typed [OF traced.traced_mpsc_axioms counting.semaphore_axioms this(1) bounded_orders_ok heard_reachable this(2,3)]
  show ?thesis by auto
qed

end
