(* ===== verification/Races.thy ===== *)
theory Races
  imports Room_Order
begin

section \<open>Races between tasks\<close>

text \<open>
  What a broadcast, a published line and a list of names do to one ready client; and consequences of
  where the critical sections begin and end: interleavings of two tasks that end with something a
  client should not have been sent, a line twice or a list of names older than the one before it
  (\<open>older_list_after_newer\<close>); and a client whose removal by another task nobody announces.
\<close>

subsection \<open>One broadcast, one client\<close>

context mpsc
begin

lemma send_room:
  assumes "\<not> is_closed ops w" "length (queued w) < capacity w"
  shows "fst (try_send ops w m) = Sent" "queued (snd (try_send ops w m)) = queued w @ [m]"
    "capacity (snd (try_send ops w m)) = capacity w" "\<not> is_closed ops (snd (try_send ops w m))"
  using send_free [OF assms, of m] by auto

text \<open>A client with room is served: a ready one through its channel, a waiting one in its pending list.\<close>

lemma broadcast_serves:
  assumes "settled st" "orders_ok it" "d \<in> set (hm_or [] a (outboxes st))"
    and "if cd_ready d then \<not> is_closed ops (channels st (cd_writer d)) \<and>
           length (queued (channels st (cd_writer d))) < capacity (channels st (cd_writer d))
         else length (cd_pending d) < PENDING_MESSAGES_LIMIT"
  obtains b st' where "broadcast ops it st m None = (Ok b, st')" "settled st'" "history st' = history st"
    "after_broadcast m None d \<in> set (hm_or [] a (outboxes st'))"
    "channels st' (cd_writer d) = (if cd_ready d then snd (try_send ops (channels st (cd_writer d)) m) else channels st (cd_writer d))"
proof -
  note set = settledD(1,2) [OF assms(1)]
  have wf: "hm_wf (outboxes st)" using set(1) by (simp add: server_inv_def delivery_inv_def)
  obtain st' where b: "broadcast ops it st m None = (Ok (\<exists>a. \<exists>d \<in> set (hm_or [] a (outboxes st)). cannot_serve ops (channels st) m None d), st')"
    "history st' = history st"
    "channels st' = sent_channels ops m None (concat (map snd (outboxes st))) (channels st)"
    "\<And>a. hm_or [] a (outboxes st') =
       map (after_broadcast m None) (filter (\<lambda>d. \<not> cannot_serve ops (channels st) m None d) (hm_or [] a (outboxes st)))"
    by (rule broadcast_spec [OF set(1) assms(2) set(2), of ops m None], rule that)
  have st': "settled st'" by (rule broadcast_settled [OF assms(1,2), of ops m None]) (use b(1) in simp)
  have ok: "\<not> cannot_serve ops (channels st) m None d"
    using assms(4) send_room [of "channels st (cd_writer d)" m] by (auto simp: cannot_serve_def split: if_splits)
  have own: "channels st' (cd_writer d) =
      (if cd_ready d then snd (try_send ops (channels st (cd_writer d)) m) else channels st (cd_writer d))"
    unfolding b(3) sent_channels_own [OF wf set(2) assms(3)] by (simp add: is_target_def)
  have "after_broadcast m None d \<in> set (hm_or [] a (outboxes st'))"
    unfolding b(4) set_map set_filter using assms(3) ok by blast
  with st' own b(1,2) that show ?thesis by blast
qed

end

lemma recorded_last:
  assumes "history_ok h" "trim_end_matches 0x0A l = l" "limit h = MESSAGE_HISTORY_LIMIT"
  shows "\<exists>ls. entries (history_record l h) = ls @ [l]"
  using assms by (cases "entries h") (auto simp: history_record_def Let_def limits)

text \<open>A list of names is sent to a ready client that stays, and is the last thing it is sent.\<close>

lemma presence_served:
  assumes "mpsc ops queued capacity" and "settled st" and "orders_ok it"
    and "d \<in> set (hm_or [] a (outboxes st))" and "cd_ready d" and "\<not> is_closed ops (channels st (cd_writer d))"
    and "length (queued (channels st (cd_writer d))) < capacity (channels st (cd_writer d))"
  obtains st1 us st2 where "prune_overloaded_clients ops it st = (Ok (), st1)" "settled st1" "shrinks st st1"
    "mset us = shown_names st1" "list_all registered_name us" "length us \<le> MAX_CONNECTIONS"
    "broadcast_presence ops it st = (Ok (), st2)" "settled st2" "history st2 = history st"
    "d \<in> set (hm_or [] a (outboxes st2))"
    "channels st2 (cd_writer d) = snd (try_send ops (channels st (cd_writer d))
       (frame_bytes \<lparr>version = CURRENT_PROTOCOL_VERSION, kind = Presence, payload = presence_payload us\<rparr>))"
proof -
  obtain st1 us st2 x where pr: "prune_overloaded_clients ops it st = (Ok (), st1)" "settled st1" "mset us = shown_names st1"
      "list_all registered_name us" "length us \<le> MAX_CONNECTIONS"
      "broadcast ops it st1 (frame_bytes \<lparr>version = CURRENT_PROTOCOL_VERSION, kind = Presence, payload = presence_payload us\<rparr>) None = (Ok x, st2)"
      "broadcast_presence ops it st = (Ok (), st2)" "settled st2" "history st2 = history st"
    by (rule broadcast_presence_settled [OF assms(2,3), of ops], rule that)
  let ?f = "frame_bytes \<lparr>version = CURRENT_PROTOCOL_VERSION, kind = Presence, payload = presence_payload us\<rparr>"
  have c1: "channels st1 = channels st" and sh: "shrinks st st1" and d1: "d \<in> set (hm_or [] a (outboxes st1))"
    by (rule prune_settled [OF assms(2,3), of ops], use pr(1) assms(4-6) in \<open>simp add: same_rest_def is_overloaded_def\<close>)+
  have "d \<in> set (hm_or [] a (outboxes st2))" "channels st2 (cd_writer d) = snd (try_send ops (channels st (cd_writer d)) ?f)"
    by (rule mpsc.broadcast_serves [OF assms(1) pr(2) assms(3) d1, of ?f];
        use pr(6) assms(5-7) c1 in \<open>simp add: after_broadcast_def\<close>)+
  with pr sh that show ?thesis by blast
qed

text \<open>How often a name is listed, address by address.\<close>

lemma filter_flatten:
  "hm_wf m \<Longrightarrow> finite K \<Longrightarrow> set (hm_keys m) \<subseteq> K \<Longrightarrow>
     length (filter P (concat (map snd m))) = (\<Sum>a\<in>K. length (filter P (hm_or [] a m)))"
proof (induction m)
  case (Cons p m)
  obtain k v where p: "p = (k, v)" by (cases p)
  have k: "k \<in> K" "hm_or [] k m = []" using Cons.prems p by (auto simp: hm_or_None hm_get_None)
  have "(\<Sum>a\<in>K. length (filter P (hm_or [] a (p # m)))) =
      length (filter P v) + (\<Sum>a\<in>K - {k}. length (filter P (hm_or [] a m)))"
    using Cons.prems(2) k(1) by (auto simp: sum.remove [of K k] p hm_or_Cons intro!: sum.cong split: if_splits)
  also have "\<dots> = length (filter P v) + (\<Sum>a\<in>K. length (filter P (hm_or [] a m)))"
    using Cons.prems(2) k by (simp add: sum.remove [of K k])
  finally show ?case using Cons p by simp
qed (simp add: hm_or_None)

lemma shown_names_count: "count (shown_names st) n = length (filter (\<lambda>c. cs_username c = Some n) (concat (map snd (sessions st))))"
proof -
  have "count (mset (List.map_filter cs_username cs)) n = length (filter (\<lambda>c. cs_username c = Some n) cs)" for cs
    by (induction cs) (auto simp: List.map_filter_simps split: option.split)
  then show ?thesis by (simp only: shown_names_def)
qed

lemma shown_names_shrink:
  assumes "hm_wf (sessions st)" and "hm_wf (sessions st')"
    and "\<And>a. \<exists>P. hm_or [] a (sessions st') = filter P (hm_or [] a (sessions st))"
  shows "count (shown_names st') n \<le> count (shown_names st) n"
    and "c \<in> set (hm_or [] b (sessions st)) \<Longrightarrow> c \<notin> set (hm_or [] b (sessions st')) \<Longrightarrow> cs_username c = Some n \<Longrightarrow>
      count (shown_names st') n < count (shown_names st) n"
proof -
  let ?K = "insert b (set (hm_keys (sessions st)) \<union> set (hm_keys (sessions st')))"
  let ?n = "\<lambda>st a. length (filter (\<lambda>c. cs_username c = Some n) (hm_or [] a (sessions st)))"
  have s: "count (shown_names st) n = (\<Sum>a\<in>?K. ?n st a)" "count (shown_names st') n = (\<Sum>a\<in>?K. ?n st' a)"
    unfolding shown_names_count by (rule filter_flatten; use assms(1,2) in auto)+
  have le: "?n st' a \<le> ?n st a" for a
  proof -
    obtain P where "hm_or [] a (sessions st') = filter P (hm_or [] a (sessions st))" using assms(3) by blast
    then show ?thesis by (simp add: length_filter_conv_card) (rule card_mono, auto)
  qed
  then show "count (shown_names st') n \<le> count (shown_names st) n" unfolding s by (intro sum_mono)
  assume c: "c \<in> set (hm_or [] b (sessions st))" "c \<notin> set (hm_or [] b (sessions st'))" "cs_username c = Some n"
  obtain P where P: "hm_or [] b (sessions st') = filter P (hm_or [] b (sessions st))" using assms(3) by blast
  let ?xs = "filter (\<lambda>c. cs_username c = Some n) (hm_or [] b (sessions st))"
  have "?n st' b = length (filter P ?xs)" unfolding P by (simp add: conj_commute)
  moreover have "c \<in> set ?xs" "\<not> P c" using c P by auto
  ultimately have "?n st' b < ?n st b" using length_filter_less [of c ?xs P] by simp
  then show "count (shown_names st') n < count (shown_names st) n"
    unfolding s using le by (intro sum_strict_mono_ex1) auto
qed

text \<open>
  A task lists the names and broadcasts the list in two critical sections; in between a client is
  removed and that is announced. A client that stays gets the newer list and then the older one.
\<close>

lemma older_list_after_newer:
  assumes "mpsc ops queued capacity" and "sound st" and "orders_ok it"
    and "d \<in> set (hm_or [] a (outboxes st))" and "cd_ready d" and "\<not> is_closed ops (channels st (cd_writer d))"
    and "length (queued (channels st (cd_writer d))) + 2 \<le> capacity (channels st (cd_writer d))"
    and "c \<in> set (hm_or [] b (sessions st))" and "cs_username c = Some n" and "(b, cs_token c) \<noteq> (a, cd_token d)"
  obtains us vs st1 st2 ds st3 where
    "list_all registered_name us" "length us \<le> MAX_CONNECTIONS" "mset us = shown_names st"
    "list_all registered_name vs" "length vs \<le> MAX_CONNECTIONS" "count (mset vs) n < count (mset us) n"
    "presence_section ops it (Updating (Pruning [])) st = (Inl (Updating (Spreading
       (frame_bytes \<lparr>version = CURRENT_PROTOCOL_VERSION, kind = Presence, payload = presence_payload us\<rparr>))), st)"
    "remove_client_if_current st b (cs_token c) = (Ok True, st1)" "(b, cs_token c) \<notin> members st1"
    "broadcast_presence ops it st1 = (Ok (), st2)"
    "presence_section ops it (Updating (Spreading
       (frame_bytes \<lparr>version = CURRENT_PROTOCOL_VERSION, kind = Presence, payload = presence_payload us\<rparr>))) st2 =
       (Inl (Updating (Dropping ds)), st3)"
    "queued (channels st3 (cd_writer d)) = queued (channels st (cd_writer d)) @
       [frame_bytes \<lparr>version = CURRENT_PROTOCOL_VERSION, kind = Presence, payload = presence_payload vs\<rparr>,
        frame_bytes \<lparr>version = CURRENT_PROTOCOL_VERSION, kind = Presence, payload = presence_payload us\<rparr>]"
proof -
  let ?w = "cd_writer d" and ?t = "cs_token c"
  note set = sound_settled [OF assms(2)]
  obtain us where us: "usernames (clients_order it) st = (Ok us, st)" "list_all registered_name us"
      "length us \<le> MAX_CONNECTIONS" "mset us = shown_names st"
    by (rule usernames_settled [OF set, of "clients_order it"]) (use assms(3) that in \<open>simp_all add: orders_ok_def\<close>)
  let ?older = "frame_bytes \<lparr>version = CURRENT_PROTOCOL_VERSION, kind = Presence, payload = presence_payload us\<rparr>"
  obtain st1 where rm: "remove_client_if_current st b ?t = (Ok ((b, ?t) \<in> members st), st1)" "settled st1" "shrinks st st1"
      "same_rest st st1" "members st1 = members st - {(b, ?t)}"
    by (rule remove_settled [OF set, of b ?t], rule that)
  have mem: "(b, ?t) \<in> members st" using assms(8) by (auto simp: members_def)
  have d1: "d \<in> set (hm_or [] a (outboxes st1))"
    by (rule remove_spec [OF settledD(1) [OF set], of b ?t]) (use rm(1) assms(4,10) in auto)
  have c1: "channels st1 = channels st" using rm(4) by (simp add: same_rest_def)
  have room: "\<not> is_closed ops (channels st1 ?w)" "length (queued (channels st1 ?w)) < capacity (channels st1 ?w)"
    using assms(6,7) c1 by simp_all
  obtain st1' vs st2 where pr: "shrinks st1 st1'" "settled st1'" "mset vs = shown_names st1'"
      "list_all registered_name vs" "length vs \<le> MAX_CONNECTIONS" "broadcast_presence ops it st1 = (Ok (), st2)" "settled st2"
      "d \<in> set (hm_or [] a (outboxes st2))"
      "channels st2 ?w = snd (try_send ops (channels st1 ?w)
         (frame_bytes \<lparr>version = CURRENT_PROTOCOL_VERSION, kind = Presence, payload = presence_payload vs\<rparr>))"
    by (rule presence_served [OF assms(1) rm(2) assms(3) d1 assms(5) room], rule that)
  let ?newer = "frame_bytes \<lparr>version = CURRENT_PROTOCOL_VERSION, kind = Presence, payload = presence_payload vs\<rparr>"
  obtain ds st3 where sp: "broadcast_section ops it st2 ?older None = (Ok ds, st3)"
      "channels st3 = sent_channels ops ?older None (concat (map snd (outboxes st2))) (channels st2)"
    by (rule broadcast_section_spec [OF pr(7) assms(3), of ops ?older None], rule that)
  have wf: "hm_wf (outboxes st2)" using settledD(1) [OF pr(7)] by (simp add: server_inv_def delivery_inv_def)
  have "channels st3 ?w = snd (try_send ops (channels st2 ?w) ?older)"
    unfolding sp(2) sent_channels_own [OF wf settledD(2) [OF pr(7)] pr(8)] using assms(5) by (simp add: is_target_def)
  then have q: "queued (channels st3 ?w) = queued (channels st ?w) @ [?newer, ?older]"
    using mpsc.send_room [OF assms(1,6), of ?newer] mpsc.send_room(2) [OF assms(1), of "channels st2 ?w" ?older] assms(7) pr(9) c1
    by simp
  have swf: "hm_wf (sessions st)" "hm_wf (sessions st1)" "hm_wf (sessions st1')"
    using settledD(1) [OF set] settledD(1) [OF rm(2)] settledD(1) [OF pr(2)] by (auto simp: server_inv_def dest: registry_invD(1))
  have "c \<notin> set (hm_or [] b (sessions st1))" using rm(5) by (auto simp: members_def)
  then have "count (shown_names st1) n < count (shown_names st) n"
    using shown_names_shrink(2) [OF swf(1,2) _ assms(8) _ assms(9)] rm(3) by (auto simp: shrinks_def)
  moreover have "count (shown_names st1') n \<le> count (shown_names st1) n"
    using shown_names_shrink(1) [OF swf(2,3)] pr(1) by (auto simp: shrinks_def)
  ultimately have less: "count (mset vs) n < count (mset us) n" by (simp add: us(4) pr(3))
  have "presence_section ops it (Updating (Pruning [])) st = (Inl (Updating (Spreading ?older)), st)"
    by (simp add: us(1) encode_presence_registered(1) [OF us(2,3)])
  moreover have "presence_section ops it (Updating (Spreading ?older)) st2 = (Inl (Updating (Dropping ds)), st3)"
    by (simp add: sp(1))
  ultimately show ?thesis
    using that us(2-4) pr(4,5) less rm(1,5) mem pr(6) q by auto
qed

text \<open>What is published reaches every ready client with room, once, and at most a list of names after it.\<close>

lemma publish_delivers:
  assumes "mpsc ops queued capacity" and "sound st" and "orders_ok it"
    and "d \<in> set (hm_or [] a (outboxes st))" and "cd_ready d" and "\<not> is_closed ops (channels st (cd_writer d))"
    and "length (queued (channels st (cd_writer d))) + 2 \<le> capacity (channels st (cd_writer d))" and "short_line l"
  obtains st' behind where "publish ops it st l f = (Ok (), st')"
    "history st' = mutex_set (history_record l (guarded (history st))) (history st)"
    "queued (channels st' (cd_writer d)) = queued (channels st (cd_writer d)) @ f # behind"
    "behind = [] \<or> (\<exists>us. list_all registered_name us \<and> length us \<le> MAX_CONNECTIONS \<and>
       behind = [frame_bytes \<lparr>version = CURRENT_PROTOCOL_VERSION, kind = Presence, payload = presence_payload us\<rparr>])"
proof -
  let ?w = "cd_writer d" and ?h = "mutex_set (history_record l (guarded (history st))) (history st)"
  let ?st = "st\<lparr>history := ?h\<rparr>"
  have set: "settled ?st" using assms(2) by (simp add: sound_def settled_def server_inv_def healthy_def names_ok_def)
  have h: "healthy st" using assms(2) by (simp add: sound_def settled_def server_inv_def)
  have d: "d \<in> set (hm_or [] a (outboxes ?st))" using assms(4) by simp
  obtain b st1 where b: "broadcast ops it ?st f None = (Ok b, st1)" "settled st1" "history st1 = ?h"
    "after_broadcast f None d \<in> set (hm_or [] a (outboxes st1))"
    "channels st1 ?w = snd (try_send ops (channels st ?w) f)"
    by (rule mpsc.broadcast_serves [OF assms(1) set assms(3) d, of f]) (use assms(5-7) that in auto)
  have rec: "record_and_broadcast ops it st l f None = (Ok b, st1)"
    using b(1) h by (simp add: record_and_broadcast_def healthy_def)
  have "length (queued (channels st ?w)) < capacity (channels st ?w)" using assms(7) by simp
  note sent = mpsc.send_room [OF assms(1,6) this, of f, folded b(5)]
  have d1: "d \<in> set (hm_or [] a (outboxes st1))" using b(4) assms(5) by (simp add: after_broadcast_def)
  show ?thesis
  proof (cases b)
    case False
    with rec b(3) sent that [of st1 "[]"] show ?thesis by (simp add: publish_def)
  next
    case True
    have room: "length (queued (channels st1 ?w)) < capacity (channels st1 ?w)" using sent assms(7) by simp
    obtain us st2 where p: "list_all registered_name us" "length us \<le> MAX_CONNECTIONS" "broadcast_presence ops it st1 = (Ok (), st2)"
        "history st2 = history st1" "channels st2 ?w = snd (try_send ops (channels st1 ?w)
          (frame_bytes \<lparr>version = CURRENT_PROTOCOL_VERSION, kind = Presence, payload = presence_payload us\<rparr>))"
      by (rule presence_served [OF assms(1) b(2) assms(3) d1 assms(5) sent(4) room], rule that)
    let ?names = "frame_bytes \<lparr>version = CURRENT_PROTOCOL_VERSION, kind = Presence, payload = presence_payload us\<rparr>"
    have "queued (channels st2 ?w) = queued (channels st ?w) @ f # [?names]"
      using mpsc.send_room(2) [OF assms(1) sent(4) room, of ?names] sent(2) by (simp add: p(5))
    moreover have "publish ops it st l f = (Ok (), st2)" using rec p(3) True by (simp add: publish_def)
    ultimately show ?thesis using that [of st2 "[?names]"] p(1,2,4) b(3) by auto
  qed
qed

subsection \<open>Properties\<close>

text \<open>
  C32. A line recorded between the registration of a client and its history replay is sent to it
  twice, a defect: the replay sends it with the history, and the flush of the pending messages
  sends it again.
\<close>

theorem line_received_twice:
  assumes "mpsc ops queued capacity" and "sound st" and "orders_ok it"
    and "find_client a tok (outboxes st) = Some d" and "\<not> cd_ready d" and "cd_pending d = []"
    and "queued (channels st (cd_writer d)) = []" and "capacity (channels st (cd_writer d)) = OUTBOUND_QUEUE_SIZE"
    and "\<not> is_closed ops (channels st (cd_writer d))"
    and "short_line l" and "trim_end_matches 0x0A l = l"
  shows "\<exists>b st1 st2 ms. record_and_broadcast ops it st l (chat_bytes l) None = (Ok b, st1) \<and>
    send_message_history ops st1 a tok = (Ok (), st2) \<and>
    queued (channels st2 (cd_writer d)) = ms @ [chat_bytes l, chat_bytes l]"
proof -
  let ?h = "mutex_set (history_record l (guarded (history st))) (history st)"
  let ?st = "st\<lparr>history := ?h\<rparr>"
  have set: "settled ?st" using assms(2) by (simp add: sound_def settled_def server_inv_def healthy_def names_ok_def)
  have h: "healthy st" and inv: "server_inv st" using assms(2) by (simp_all add: sound_def settled_def server_inv_def)
  have d: "d \<in> set (hm_or [] a (outboxes ?st))" "cd_token d = tok" using find_client_iff [OF inv] assms(4) by simp_all
  obtain b st1 where b: "broadcast ops it ?st (chat_bytes l) None = (Ok b, st1)" "settled st1" "history st1 = ?h"
    "after_broadcast (chat_bytes l) None d \<in> set (hm_or [] a (outboxes st1))"
    "channels st1 (cd_writer d) = channels st (cd_writer d)"
    by (rule mpsc.broadcast_serves [OF assms(1) set assms(3) d(1), of "chat_bytes l"]) (use assms(5,6) that in \<open>auto simp: limits\<close>)
  let ?d = "d\<lparr>cd_pending := [chat_bytes l]\<rparr>"
  have rec: "record_and_broadcast ops it st l (chat_bytes l) None = (Ok b, st1)"
    using b(1) h by (simp add: record_and_broadcast_def healthy_def)
  have sound1: "sound st1" by (rule sound_record [OF assms(2) b(2) assms(10) b(3)])
  then have inv1: "server_inv st1" by (simp add: sound_def settled_def)
  have "after_broadcast (chat_bytes l) None d = ?d"
    using assms(5,6) by (simp add: after_broadcast_def is_target_def limits)
  then have "find_client a tok (outboxes st1) = Some ?d" using b(4) d(2) by (simp add: find_client_iff [OF inv1])
  from mpsc.replay_fits [OF assms(1) sound1 this] assms(5,7-9) b(5) obtain st2 w where
    r: "send_message_history ops st1 a tok = (Ok (), st2)" "channels st2 (cd_writer d) = w"
      "queued w = map chat_bytes (retained st1) @ [chat_bytes l]" by auto
  have hist: "history_ok (guarded (history st))" "limit (guarded (history st)) = MESSAGE_HISTORY_LIMIT"
    using assms(2) by (simp_all add: sound_def)
  have "\<exists>ls. retained st1 = ls @ [l]" using recorded_last [OF hist(1) assms(11) hist(2)] by (simp add: b(3))
  with rec r show ?thesis by auto
qed

theorem line_received_twice_witness:
  "\<exists>b st1 st2 ms. record_and_broadcast bounded_ops bounded_orders one_client (lit ''hi'') (chat_bytes (lit ''hi'')) None = (Ok b, st1) \<and>
    send_message_history bounded_ops st1 localhost 0 = (Ok (), st2) \<and>
    bc_queue (channels st2 0) = ms @ [chat_bytes (lit ''hi''), chat_bytes (lit ''hi'')]"
proof -
  have f: "find_client localhost 0 (outboxes one_client) =
      Some \<lparr>cd_addr = localhost, cd_token = 0, cd_writer = 0, cd_disconnect = Some 0, cd_ready = False, cd_pending = []\<rparr>"
    by (simp add: one_client_simps find_client_def)
  have c: "channels one_client 0 = bounded_new OUTBOUND_QUEUE_SIZE"
    by (simp add: one_client_history no_clients_def new_shared_state_def)
  have "short_line (lit ''hi'')" "trim_end_matches 0x0A (lit ''hi'') = lit ''hi''"
    by (simp_all add: short_line_def lit_Cons lit_Nil len_utf8_def limits trim_end_matches_def)
  then show ?thesis
    using line_received_twice [OF bounded.mpsc_axioms one_client_sound bounded_orders_ok f, of "lit ''hi''"]
    by (simp add: c bounded_new_def bounded_ops_def)
qed

text \<open>Two clients at one address, the first ready.\<close>

definition two_clients :: "traced_chan server_state" where
  "two_clients = snd (register_pending_client (ann_state (Some (lit ''ann'')) True traced_new []) localhost 2 2)"

lemma two_clients:
  "sound two_clients" "(localhost, 1) \<in> members two_clients" "channels two_clients 1 = traced_new"
  "\<lparr>cd_addr = localhost, cd_token = 0, cd_writer = 1, cd_disconnect = Some 1, cd_ready = True, cd_pending = []\<rparr>
     \<in> set (hm_or [] localhost (outboxes two_clients))"
proof -
  let ?st = "ann_state (Some (lit ''ann'')) True traced_new []"
  have "256 = MAX_CONNECTIONS" by (simp add: limits)
  from fine_invD(4) [OF fine_reachable_inv [OF counting.semaphore_axioms this bounded_orders_ok ready_reachable]]
  have s: "sound ?st" by (simp add: ann_room_def)
  have u: "unused_channel 2 (outboxes ?st)" by (simp add: ann_defs shared_defs unused_channel_def)
  have r: "fst (register_pending_client ?st localhost 2 2) = Ok 1"
    by (simp add: ann_defs shared_defs register_pending_client_def register_client_with_status_def limit_reached_def registry_add_def)
  show "sound two_clients" "(localhost, 1) \<in> members two_clients"
    by (rule register_pending_sound [OF s u, of localhost 2]; use r in \<open>auto simp: two_clients_def\<close>)+
  show "channels two_clients 1 = traced_new"
    "\<lparr>cd_addr = localhost, cd_token = 0, cd_writer = 1, cd_disconnect = Some 1, cd_ready = True, cd_pending = []\<rparr>
     \<in> set (hm_or [] localhost (outboxes two_clients))"
    by (simp_all add: two_clients_def ann_defs shared_defs register_pending_client_def register_client_with_status_def
        limit_reached_def registry_add_def delivery_add_def)
qed

text \<open>
  C34. A client that a broadcast evicts leaves without a leave line, a defect: the broadcast removes
  it, and since it is then no longer registered, neither the end of its session nor the end of
  its writer records that it has left, although its join line was recorded.
\<close>

theorem evicted_leaves_silently:
  assumes "sound st" and "orders_ok it" and "registered_name u" and "short_line l"
    and "d \<in> set (hm_or [] a (outboxes st))" and "cannot_serve ops (channels st) f None d"
  shows "\<exists>st1. record_and_broadcast ops it st l f None = (Ok True, st1) \<and> sound st1 \<and> (a, cd_token d) \<notin> members st1 \<and>
    (\<exists>st2. finish_session ops it st1 a u (cd_token d) True = (Ok (), st2) \<and> history st2 = history st1) \<and>
    (\<exists>st2. writer_stopped ops it st1 a (cd_token d) u True = (Ok (), st2) \<and> history st2 = history st1)"
proof -
  let ?st = "st\<lparr>history := mutex_set (history_record l (guarded (history st))) (history st)\<rparr>"
  have inv: "server_inv ?st" "own_channels (outboxes ?st)" and h: "healthy st"
    using assms(1) by (simp_all add: sound_def settled_def server_inv_def healthy_def)
  obtain st1 where b: "broadcast ops it ?st f None =
      (Ok (\<exists>a. \<exists>d \<in> set (hm_or [] a (outboxes ?st)). cannot_serve ops (channels ?st) f None d), st1)"
    "\<And>a. hm_or [] a (sessions st1) = filter (\<lambda>c. \<forall>d \<in> set (hm_or [] a (outboxes ?st)). cd_token d = cs_token c \<longrightarrow>
       \<not> cannot_serve ops (channels ?st) f None d) (hm_or [] a (sessions ?st))"
    by (rule broadcast_spec [OF inv(1) assms(2) inv(2), of ops f None], rule that)
  have r: "record_and_broadcast ops it st l f None = (Ok True, st1)"
    using b(1) assms(5,6) h by (auto simp: record_and_broadcast_def healthy_def)
  have sound1: "sound st1"
    by (rule record_and_broadcast_sound [OF assms(1,2,4), of ops f None]) (use r in simp)
  have gone: "(a, cd_token d) \<notin> members st1"
    using assms(5,6) unfolding members_def b(2) by auto
  obtain st2 where f: "finish_session ops it st1 a u (cd_token d) True = (Ok (), st2)" "history st2 = history st1"
    by (rule finish_session_sound [OF sound1 assms(2,3), of ops a "cd_token d" True]) (use gone that in simp)
  obtain st3 where w: "writer_stopped ops it st1 a (cd_token d) u True = (Ok (), st3)" "history st3 = history st1"
    by (rule writer_stopped_sound [OF sound1 assms(2,3), of ops a "cd_token d" True]) (use gone that in simp)
  show ?thesis using r sound1 gone f w by blast
qed

theorem evicted_leaves_silently_witness:
  "\<exists>st1 st2. record_and_broadcast traced_ops bounded_orders
       (two_clients\<lparr>channels := (channels two_clients)(1 := ([], \<lparr>bc_queue = [], bc_capacity = 0, bc_closed = False\<rparr>))\<rparr>)
       (lit ''hi'') [7] None = (Ok True, st1) \<and> (localhost, 0) \<notin> members st1 \<and>
     finish_session traced_ops bounded_orders st1 localhost (lit ''ann'') 0 True = (Ok (), st2) \<and> history st2 = history st1"
proof -
  let ?c = "([], \<lparr>bc_queue = [], bc_capacity = 0, bc_closed = False\<rparr>) :: traced_chan"
  let ?st = "two_clients\<lparr>channels := (channels two_clients)(1 := ?c)\<rparr>"
  let ?d = "\<lparr>cd_addr = localhost, cd_token = 0, cd_writer = 1, cd_disconnect = Some 1, cd_ready = True, cd_pending = []\<rparr>"
  have s: "sound ?st" using two_clients(1) by simp
  have l: "short_line (lit ''hi'')" by (simp add: short_line_def lit_Cons lit_Nil len_utf8_def limits)
  have d: "?d \<in> set (hm_or [] localhost (outboxes ?st))" using two_clients(4) by simp
  have "cannot_serve traced_ops (channels ?st) [7] None ?d"
    by (simp add: cannot_serve_def is_target_def traced_ops_def bounded_ops_def)
  from evicted_leaves_silently [OF s bounded_orders_ok registered_ann l d this] show ?thesis by auto
qed

end
