(* ===== verification/Room_Screen.thy ===== *)
theory Room_Screen
  imports End_To_End Races
begin

section \<open>The room on the client's screen\<close>

text \<open>
  From the server's tasks to a client's screen: the critical sections, the channel, the blocking decoder,
  the events of the reader thread, the app and the frame put together. The order of the lines, one
  message from the key to the panel, and a list of names that is out of date.
\<close>

fun event_lines :: "network_event list \<Rightarrow> ustr list" where
  "event_lines [] = []"
| "event_lines (Message l # es) = l # event_lines es"
| "event_lines (e # es) = event_lines es"

lemma event_lines_append [simp]: "event_lines (es @ es') = event_lines es @ event_lines es'"
  by (induction es rule: event_lines.induct) simp_all

lemma sendable_event:
  assumes "sendable m"
  shows "\<exists>f es. m = frame_bytes f \<and> wf_frame f \<and> process_frame f = (True, es) \<and> list_all (\<lambda>e. \<not> is_disconnected e) es \<and>
    map chat_bytes (event_lines es) = filter is_chat [m]"
  using assms unfolding sendable_def
proof (elim disjE exE conjE)
  fix l assume l: "room_line l" "m = frame_bytes (line_frame l)"
  then have "is_chat m" "m = chat_bytes l"
    using is_chat_frame [OF frames_wf(1) [OF l(1)]] by (simp_all add: line_frame_def chat_bytes_def)
  with l frames_wf(1) [OF l(1)] show ?thesis
    by (intro exI [of _ "line_frame l"] exI [of _ "[Message l]"])
      (simp add: process_frame_def line_frame_def room_line_def from_utf8_as_bytes)
next
  fix us assume u: "list_all registered_name us" "length us \<le> MAX_CONNECTIONS" "m = frame_bytes (names_frame us)"
  then have "\<not> is_chat m" using is_chat_frame [OF frames_wf(2) [OF u(1,2)]] by (simp add: names_frame_def)
  with u frames_wf(2) [OF u(1,2)] encode_presence_registered(3) [OF u(1,2)] show ?thesis
    by (intro exI [of _ "names_frame us"] exI [of _ "[UserList us]"]) (simp add: process_frame_def names_frame_def)
qed

lemma sendable_events:
  "list_all sendable ms \<Longrightarrow> \<exists>fs es. ms = map frame_bytes fs \<and> list_all wf_frame fs \<and> frame_events fs = (es, True) \<and>
     list_all (\<lambda>e. \<not> is_disconnected e) es \<and> map chat_bytes (event_lines es) = filter is_chat ms"
proof (induction ms)
  case Nil
  then show ?case by (intro exI [of _ "[]"]) simp
next
  case (Cons m ms)
  then obtain fs es where fs: "ms = map frame_bytes fs" "list_all wf_frame fs" "frame_events fs = (es, True)"
    "list_all (\<lambda>e. \<not> is_disconnected e) es" "map chat_bytes (event_lines es) = filter is_chat ms" by auto
  have "sendable m" using Cons.prems by simp
  from sendable_event [OF this] obtain f es1 where f: "m = frame_bytes f" "wf_frame f" "process_frame f = (True, es1)"
    "list_all (\<lambda>e. \<not> is_disconnected e) es1" "map chat_bytes (event_lines es1) = filter is_chat [m]" by blast
  have "filter is_chat (m # ms) = filter is_chat [m] @ filter is_chat ms" by simp
  with fs f show ?case by (intro exI [of _ "f # fs"] exI [of _ "es1 @ es"]) simp
qed

subsection \<open>From a queue to the events and the app\<close>

lemma frame_events_append:
  "frame_events fs = (es, True) \<Longrightarrow> frame_events fs' = (es', ok) \<Longrightarrow> frame_events (fs @ fs') = (es @ es', ok)"
proof (induction fs arbitrary: es)
  case (Cons f fs)
  then show ?case by (auto split: prod.splits bool.splits)
qed simp

text \<open>A reader that is given what is queued for its client, and then some frames.\<close>

lemma reader_hands_over:
  assumes "byte_reader rd avail alive" and "alive r" and "list_all sendable ms" and "list_all wf_frame fs"
    and "avail r = concat (ms @ map frame_bytes fs)" and "frame_events fs = (es', True)" and "length ms + length fs < n"
  obtains es where "reader_loop debug rd n r = (es @ es' @ [Disconnected (lit ''server disconnected'')], Finished)"
    "list_all (\<lambda>e. \<not> is_disconnected e) es"
proof -
  obtain gs es where gs: "ms = map frame_bytes gs" "list_all wf_frame gs" "frame_events gs = (es, True)"
    "list_all (\<lambda>e. \<not> is_disconnected e) es"
    using sendable_events [OF assms(3)] by blast
  have "list_all wf_frame (gs @ fs)" "avail r = concat (map frame_bytes (gs @ fs))" "length (gs @ fs) < n"
    using gs(1,2) assms(4,5,7) by simp_all
  from byte_reader.reader_loop_stream [OF assms(1,2) this, of debug] frame_events_append [OF gs(3) assms(6)] gs(4) that
  show ?thesis by simp
qed

lemma drain_append: "drain_network_events (es @ es') app = seq (drain_network_events es app) (\<lambda>_ app. drain_network_events es' app)"
proof (induction es arbitrary: app)
  case (Cons e es)
  then show ?case by (cases "drain_event e app"; cases "fst (drain_event e app)") auto
qed simp

lemma update_keeps_messages: "update_connected_users us app = (r, app') \<Longrightarrow> ca_messages app' = ca_messages app"
  by (auto simp: update_connected_users_def Let_def split: if_splits)

lemma drain_message_last:
  assumes "app_inv app" and "behind = [] \<or> (\<exists>us. behind = [UserList us])"
    and "drain_network_events (es @ Message l # behind) app = (r, app')"
  shows "last (map cm_text (ca_messages app')) = l"
proof -
  obtain app1 where d: "drain_network_events es app = (Ok (), app1)" "app_inv app1"
    using drain_network_events_inv [OF assms(1)] by blast
  have "last (map cm_text (ca_messages (receive_message l app1))) = l"
    using receive_message_confirmed [OF d(2)] by (simp add: push_message_messages Let_def limits)
  moreover have "ca_messages app' = ca_messages (receive_message l app1)"
    using assms(2)
  proof (elim disjE exE)
    fix us assume "behind = [UserList us]"
    moreover obtain x app2 where "update_connected_users us (receive_message l app1) = (x, app2)" by fastforce
    ultimately show ?thesis
      using assms(3) d(1) update_keeps_messages by (cases x) (auto simp: drain_append drain_event_def)
  qed (use assms(3) d(1) in \<open>simp add: drain_append drain_event_def\<close>)
  ultimately show ?thesis by simp
qed

text \<open>A reader that is given some bytes in one piece.\<close>

definition given :: "bytes \<Rightarrow> script" where
  "given bs = (if bs = [] then [] else [Data bs])"

lemma given: "script_live (given bs)" "script_bytes (given bs) = bs"
  by (simp_all add: given_def)

text \<open>The room of \<open>two_clients\<close> with the second one named.\<close>

definition ann_and_bob :: "traced_chan server_state" where
  "ann_and_bob = snd (set_client_username two_clients localhost 1 (lit ''bob''))"

lemma registered_bob: "registered_name (lit ''bob'')"
  by (simp add: registered_name_def is_valid_username_def lit_Cons lit_Nil trim_def trim_start_def trim_end_def
      is_whitespace_def is_control_def len_utf8_def limits is_scalar_def)

lemma ann_and_bob:
  "sound ann_and_bob" "channels ann_and_bob 1 = traced_new"
  "\<lparr>cs_token = 1, cs_username = Some (lit ''bob'')\<rparr> \<in> set (hm_or [] localhost (sessions ann_and_bob))"
  "\<lparr>cd_addr = localhost, cd_token = 0, cd_writer = 1, cd_disconnect = Some 1, cd_ready = True, cd_pending = []\<rparr>
     \<in> set (hm_or [] localhost (outboxes ann_and_bob))"
proof -
  obtain st' where u: "set_client_username two_clients localhost 1 (lit ''bob'') =
       (if 1 \<in> cs_token ` set (hm_or [] localhost (sessions two_clients)) then Ok () else Err UnknownClient, st')"
    "server_inv st'" "same_rest two_clients st'" "deliveries st' = deliveries two_clients"
    "\<And>b. hm_or [] b (sessions st') =
        (if b = localhost then update_first (\<lambda>c. cs_token c = 1) (\<lambda>c. c\<lparr>cs_username := Some (lit ''bob'')\<rparr>) (hm_or [] localhost (sessions two_clients))
         else hm_or [] b (sessions two_clients))"
    by (rule set_username_spec [OF settledD(1) [OF sound_settled [OF two_clients(1)]], of localhost 1 "lit ''bob''"], rule that)
  have st: "ann_and_bob = st'" by (simp only: ann_and_bob_def u(1) snd_conv)
  note set = sound_settled [OF two_clients(1)]
  have "names_ok st'"
    unfolding names_ok_def
  proof (intro allI ballI impI)
    fix b c x assume c: "c \<in> set (hm_or [] b (sessions st'))" "cs_username c = Some x"
    then have "c \<in> set (hm_or [] b (sessions two_clients)) \<or> x = lit ''bob''"
      unfolding u(5) by (auto split: if_splits dest: set_update_first)
    with c(2) settledD(3) [OF set] registered_bob show "registered_name x" by (auto simp: names_ok_def)
  qed
  then have "settled st'" using u(2,4) settledD(2) [OF set] by (simp add: settled_def)
  then show "sound ann_and_bob" unfolding st by (rule sound_same_history [OF two_clients(1)]) (use u(3) in \<open>simp add: same_rest_def\<close>)
  show "channels ann_and_bob 1 = traced_new" unfolding st using u(3) two_clients(3) by (simp add: same_rest_def)
  show "\<lparr>cd_addr = localhost, cd_token = 0, cd_writer = 1, cd_disconnect = Some 1, cd_ready = True, cd_pending = []\<rparr>
     \<in> set (hm_or [] localhost (outboxes ann_and_bob))" unfolding st u(4) by (rule two_clients(4))
  show "\<lparr>cs_token = 1, cs_username = Some (lit ''bob'')\<rparr> \<in> set (hm_or [] localhost (sessions ann_and_bob))"
    unfolding st u(5)
    by (simp add: two_clients_def ann_defs shared_defs register_pending_client_def register_client_with_status_def
        limit_reached_def registry_add_def)
qed

subsection \<open>Properties\<close>

text \<open>
  C2. From the tasks of the server to the screen: a client's reader thread that is given any part of
  what the server put on the client's channel hands the user interface, without an error before
  the end, the lines of the room in the order in which they were recorded: first those of the
  replay, then every line recorded since the client registered; all of them, if it was given all.
\<close>

theorem room_reaches_screen:
  assumes "traced_mpsc ops queued capacity accepted env" and "semaphore sem free" and "free permits = MAX_CONNECTIONS"
    and "orders_ok it" and "fine_reachable sem ops env it rnd permits chans s0" and "(fine_step sem ops env it rnd)\<^sup>*\<^sup>* s0 s"
    and "\<not> locked s" and "d \<in> set (hm_or [] a (outboxes (common s)))" and "cd_ready d"
    and "byte_reader rd avail alive" and "alive r" and "avail r = concat got" and "length got < n"
    and "prefix got (accepted (channels (common s) (cd_writer d)))"
  shows "\<exists>es k m ordered_lines. reader_loop debug rd n r = (es @ [Disconnected (lit ''server disconnected'')], Finished) \<and>
    list_all (\<lambda>e. \<not> is_disconnected e) es \<and> k \<le> m \<and> m \<le> length (record_log s) \<and>
    ((\<exists>d0 \<in> set (hm_or [] a (outboxes (common s0))). cd_token d0 = cd_token d) \<longrightarrow> k \<le> length (record_log s0)) \<and>
    ordered_lines = map chat_bytes (kept_lines (take m (record_log s))) @ map snd (drop k (record_log s)) \<and>
    prefix (map chat_bytes (event_lines es)) ordered_lines \<and>
    (got = accepted (channels (common s) (cd_writer d)) \<longrightarrow> map chat_bytes (event_lines es) = ordered_lines)"
proof -
  let ?all = "accepted (channels (common s) (cd_writer d))"
  obtain k m where km: "k \<le> m" "m \<le> length (record_log s)"
    "(\<exists>d0 \<in> set (hm_or [] a (outboxes (common s0))). cd_token d0 = cd_token d) \<longrightarrow> k \<le> length (record_log s0)"
    "filter is_chat ?all = map chat_bytes (kept_lines (take m (record_log s))) @ map snd (drop k (record_log s))"
    using ready_client_lines [OF assms(1-9)] by blast
  have "typed_state accepted (common s)"
    using traced_mpsc.fine_reachable_typed [OF assms(1-4) fine_reachable_steps [OF assms(5,6)]] by (simp add: typed_inv_def)
  then have "list_all sendable ?all" using typed_entry [OF _ assms(8)] by blast
  then have "list_all sendable got" using assms(14) by (auto simp: prefix_def)
  then obtain fs es where fs: "got = map frame_bytes fs" "list_all wf_frame fs" "frame_events fs = (es, True)"
    "list_all (\<lambda>e. \<not> is_disconnected e) es" "map chat_bytes (event_lines es) = filter is_chat got"
    using sendable_events by blast
  have "reader_loop debug rd n r = (es @ [Disconnected (lit ''server disconnected'')], Finished)"
    using byte_reader.reader_loop_stream [OF assms(10,11) fs(2), of n debug] assms(12,13) fs(1,3) by simp
  moreover have "prefix (filter is_chat got) (filter is_chat ?all)" using assms(14) by (auto simp: prefix_def)
  ultimately show ?thesis
    unfolding km(4) [symmetric] fs(5) [symmetric]
    using km(1-3) fs(4,5) by (intro exI [of _ es] exI [of _ k] exI [of _ m]) (simp add: km(4))
qed

theorem room_reaches_screen_witness:
  "\<exists>es m. reader_loop (\<lambda>_. []) script_ops 3 [Data (ann_names @ ann_joined)] =
       (es @ [Disconnected (lit ''server disconnected'')], Finished) \<and> m \<le> 1 \<and>
     map chat_bytes (event_lines es) =
       map chat_bytes (kept_lines (take m [(ann_line, ann_joined)])) @ map snd [(ann_line, ann_joined)]"
proof -
  let ?s = heard_room
  let ?d = "\<lparr>cd_addr = localhost, cd_token = 0, cd_writer = 1, cd_disconnect = Some 1, cd_ready = True, cd_pending = []\<rparr>"
  have all: "traced_accepted (channels (common ?s) (cd_writer ?d)) = [ann_names, ann_joined]"
    by (simp add: ann_defs traced_accepted_def carried_def)
  have "256 = MAX_CONNECTIONS" "\<not> locked ?s" "?d \<in> set (hm_or [] localhost (outboxes (common ?s)))" "cd_ready ?d"
    by (simp_all add: ann_defs shared_defs)
  note room = room_reaches_screen [OF traced.traced_mpsc_axioms counting.semaphore_axioms this(1) bounded_orders_ok joining_reachable
      joined_steps this(2-4) script.byte_reader_axioms, of "[Data (ann_names @ ann_joined)]" "[ann_names, ann_joined]" 3, unfolded all]
  have "ann_names \<noteq> []" using frame_bytes_nonempty [OF ann_names(2)] by (simp add: ann_names_def)
  then obtain es k m where r: "reader_loop (\<lambda>_. []) script_ops 3 [Data (ann_names @ ann_joined)] =
       (es @ [Disconnected (lit ''server disconnected'')], Finished)" "m \<le> length (record_log ?s)"
     "(\<exists>d0 \<in> set (hm_or [] localhost (outboxes (common joining_room))). cd_token d0 = cd_token ?d) \<longrightarrow> k \<le> length (record_log joining_room)"
     "map chat_bytes (event_lines es) = map chat_bytes (kept_lines (take m (record_log ?s))) @ map snd (drop k (record_log ?s))"
    using room [of "\<lambda>_. []"] by auto
  have log: "record_log ?s = [(ann_line, ann_joined)]" "record_log joining_room = []" by (simp_all add: ann_room_def)
  have "\<exists>d0 \<in> set (hm_or [] localhost (outboxes (common joining_room))). cd_token d0 = cd_token ?d"
    by (simp add: ann_defs shared_defs)
  with r(3) have "k = 0" unfolding log by simp
  with r(1,2,4) show ?thesis unfolding log by auto
qed

text \<open>
  C1. A message typed at one client is the last line on another one's screen. The client writes
  the message as one frame; the server, given that frame, records the line made of the author's
  name, the time and exactly the typed text, and sends it: the queue of every ready client that
  has room, and whose writer has not stopped, ends with it, but for a list of names that may follow.
  When the reader thread of such a client is given what is in its queue, which may hold earlier
  lines and lists, and the user interface handles the events, the last line of the messages panel
  is that line.
\<close>

theorem message_reaches_screen:
  assumes "valid_str c" and "trim c \<noteq> []" and "str_len c \<le> MAX_CHAT_MESSAGE_BYTES"
    and "mpsc ops queued capacity" and "sound st" and "orders_ok it" and "turn_ok t" and "valid_str (hour_minute t)"
    and "registered_name u" and "allow_message rnd (clock t) st a = (Ok (), st1)"
    and "st2 = (if latency \<noteq> 0 then slept t st1 else st1)"
    and "d \<in> set (hm_or [] b (outboxes st2))" and "cd_ready d" and "\<not> is_closed ops (channels st2 (cd_writer d))"
    and "length (queued (channels st2 (cd_writer d))) + 2 \<le> capacity (channels st2 (cd_writer d))"
    and "list_all sendable (queued (channels st2 (cd_writer d)))"
    and "f = \<lparr>version = CURRENT_PROTOCOL_VERSION, kind = Chat, payload = as_bytes c\<rparr>"
    and "handle_frame ops it rnd latency t st a u f = (res, st3)"
    and "byte_reader rd avail alive" and "alive r" and "avail r = concat (queued (channels st3 (cd_writer d)))"
    and "length (queued (channels st3 (cd_writer d))) < n"
    and "ui_ok ui" and "roomy area" and "app_inv app" and "names_short app"
  shows "\<exists>bs l es app' calls shown. send_message so conn c = (case write_all so (cc_stream conn) bs of (x, s) \<Rightarrow> (x, conn\<lparr>cc_stream := s\<rparr>)) \<and>
    decode_frame bs = Ok (Some f, []) \<and> res = Ok () \<and> l = format_chat_message u (hour_minute t) c \<and>
    history st3 = mutex_set (history_record l (guarded (history st2))) (history st2) \<and>
    reader_loop debug rd n r = (es @ [Disconnected (lit ''server disconnected'')], Finished) \<and>
    drain_network_events es app = (Ok (), app') \<and> render ui app' area = Ok calls \<and>
    panel_lines ''Messages'' calls = [shown] \<and> last shown = l"
proof -
  let ?w = "cd_writer d" and ?l = "format_chat_message u (hour_minute t) c"
  have tm: "str_len (hour_minute t) = 5" "sound_step (slept t)" using assms(7) by (simp_all add: turn_ok_def)
  have line: "room_line ?l" by (rule room_lines(3) [OF assms(9,8) tm(1) assms(1,3)])
  then have short: "short_line ?l" "short_line c" using assms(3) by (simp_all add: room_line_def short_line_def limits)
  have sound2: "sound st2"
    using allow_message_sound(1) [OF assms(5), of rnd "clock t" a] assms(10,11) tm(2) by (simp add: sound_step_def)
  obtain st' behind where p: "publish ops it st2 ?l (chat_bytes ?l) = (Ok (), st')"
    "history st' = mutex_set (history_record ?l (guarded (history st2))) (history st2)"
    "queued (channels st' ?w) = queued (channels st2 ?w) @ chat_bytes ?l # behind"
    "behind = [] \<or> (\<exists>us. list_all registered_name us \<and> length us \<le> MAX_CONNECTIONS \<and> behind = [frame_bytes (names_frame us)])"
    by (rule publish_delivers [OF assms(4) sound2 assms(6,12-15) short(1), of "chat_bytes ?l", folded names_frame_def], rule that)
  have run: "res = Ok ()" "st3 = st'"
    using assms(1-3,10,11,17,18) p(1) encode_short [OF short(1)] by (auto simp: handle_frame_def from_utf8_as_bytes Let_def)
  obtain gs es' where gs: "behind = map frame_bytes gs" "list_all wf_frame gs" "frame_events gs = (es', True)"
      "es' = [] \<or> (\<exists>us. es' = [UserList us])"
  proof (cases "behind = []")
    case False
    with p(4) obtain us where us: "list_all registered_name us" "length us \<le> MAX_CONNECTIONS" "behind = [frame_bytes (names_frame us)]" by blast
    with that [of "[names_frame us]" "[UserList us]"] frames_wf(2) [OF us(1,2)] encode_presence_registered(3) [OF us(1,2)]
    show ?thesis by (simp add: process_frame_def names_frame_def)
  qed (use that [of "[]" "[]"] in simp)
  let ?fs = "line_frame ?l # gs"
  have "process_frame (line_frame ?l) = (True, [Message ?l])"
    using line by (simp add: process_frame_def line_frame_def room_line_def from_utf8_as_bytes)
  then have fe: "frame_events ?fs = ([Message ?l] @ es', True)" using gs(3) by simp
  have wf: "list_all wf_frame ?fs" using gs(2) frames_wf(1) [OF line] by simp
  have q: "queued (channels st3 ?w) = queued (channels st2 ?w) @ map frame_bytes ?fs"
    using p(3) gs(1) run(2) by (simp add: chat_bytes_def line_frame_def)
  obtain es where es: "reader_loop debug rd n r = (es @ ([Message ?l] @ es') @ [Disconnected (lit ''server disconnected'')], Finished)"
    by (rule reader_hands_over [OF assms(19,20,16) wf _ fe, of n debug]) (use assms(21,22) q that in simp_all)
  let ?es = "es @ Message ?l # es'"
  have "list_all event_ok ?es"
    using byte_reader.reader_events_ok [OF assms(19,20), of debug n] es by simp
  moreover obtain app' where d: "drain_network_events ?es app = (Ok (), app')" "app_inv app'"
    using drain_network_events_inv [OF assms(25)] by blast
  ultimately have names: "names_short app'" using drain_names [OF _ assms(25,26), of ?es] by simp
  have "length (ca_messages app') \<le> 65535" using d(2) by (simp add: app_inv_def limits)
  then obtain calls where frame: "render ui app' area = Ok calls" "panel_lines ''Messages'' calls = [map cm_text (ca_messages app')]"
    by (rule render_frame [OF assms(23) names assms(24)]) (use that in \<open>simp add: panel_lines_def\<close>)
  have "last (map cm_text (ca_messages app')) = ?l" by (rule drain_message_last [OF assms(25) gs(4) d(1)])
  with frame es d(1) run p(2) send_message_short [OF assms(3), of so conn] chat_bytes_decode [OF short(2)] assms(17)
  show ?thesis
    by (intro exI [of _ "chat_bytes c"] exI [of _ ?l] exI [of _ ?es] exI [of _ app'] exI [of _ calls]
        exI [of _ "map cm_text (ca_messages app')"]) (simp add: chat_bytes_def)
qed

theorem message_reaches_screen_witness:
  "\<exists>res st3 es app' calls shown. handle_frame traced_ops bounded_orders (\<lambda>x. x) 0 quiet_turn two_clients localhost (lit ''ann'')
       \<lparr>version = CURRENT_PROTOCOL_VERSION, kind = Chat, payload = as_bytes (lit ''hi'')\<rparr> = (res, st3) \<and>
     drain_network_events es (chat_app_new (lit ''ann'') []) = (Ok (), app') \<and> render same_ui app' screen = Ok calls \<and>
     panel_lines ''Messages'' calls = [shown] \<and> last shown = format_chat_message (lit ''ann'') (lit ''12:30'') (lit ''hi'')"
proof -
  let ?d = "\<lparr>cd_addr = localhost, cd_token = 0, cd_writer = 1, cd_disconnect = Some 1, cd_ready = True, cd_pending = []\<rparr>"
  let ?q = "\<lambda>(taken :: bytes list, c). bc_queue c" and ?cap = "\<lambda>(taken :: bytes list, c). bc_capacity c"
  let ?t = "quiet_turn :: traced_chan turn" and ?f = "\<lparr>version = CURRENT_PROTOCOL_VERSION, kind = Chat, payload = as_bytes (lit ''hi'')\<rparr>"
  have hi: "trim (lit ''hi'') \<noteq> []" "str_len (lit ''hi'') \<le> MAX_CHAT_MESSAGE_BYTES"
    by (simp_all add: lit_Cons lit_Nil trim_def trim_start_def trim_end_def is_whitespace_def len_utf8_def limits)
  have t: "valid_str (hour_minute ?t)" by (simp add: quiet_turn_def)
  have "fst (allow_message (\<lambda>x. x) (clock ?t) two_clients localhost) = Ok ()"
    by (simp add: allow_message_def two_clients_def ann_defs shared_defs register_pending_client_def register_client_with_status_def
        limit_reached_def registry_add_def limiter_of_def refill_def as_secs_f64_def)
  then obtain st1 where al: "allow_message (\<lambda>x. x) (clock ?t) two_clients localhost = (Ok (), st1)" by (metis prod.collapse)
  then have same: "deliveries st1 = deliveries two_clients" "channels st1 = channels two_clients"
    using allow_message_frame [of "\<lambda>x. x" "clock ?t" two_clients localhost] by simp_all
  have chan: "\<not> is_closed traced_ops (channels st1 (cd_writer ?d))" "?q (channels st1 (cd_writer ?d)) = []"
      "length (?q (channels st1 (cd_writer ?d))) + 2 \<le> ?cap (channels st1 (cd_writer ?d))"
    by (simp_all add: same(2) two_clients(3) [simplified] traced_new_def traced_ops_def bounded_new_def limits)
  have st2: "st1 = (if (0 :: nat) \<noteq> 0 then slept ?t st1 else st1)" and d: "?d \<in> set (hm_or [] localhost (outboxes st1))" "cd_ready ?d"
    and q: "list_all sendable (?q (channels st1 (cd_writer ?d)))"
    using two_clients(4) chan(2) by (simp_all add: same(1))
  obtain res st3 where h: "handle_frame traced_ops bounded_orders (\<lambda>x. x) 0 ?t two_clients localhost (lit ''ann'') ?f = (res, st3)"
    by fastforce
  have app: "app_inv (chat_app_new (lit ''ann'') [])" "names_short (chat_app_new (lit ''ann'') [])"
    by (rule chat_app_new_inv) (simp add: names_short_def chat_app_new_def lit_Cons lit_Nil len_utf8_def)
  from message_reaches_screen [OF valid_str_lit hi traced.mpsc_axioms two_clients(1) bounded_orders_ok quiet_turn_ok t registered_ann
      al st2 d chan(1,3) q refl h script.byte_reader_axioms given lessI same_ui_ok screen_roomy(1) app, of null_sock null_conn "\<lambda>_. []"]
  show ?thesis using h unfolding quiet_turn_def by auto
qed

text \<open>
  C33. A list of names can arrive after a newer one, a defect. A task lists the names and broadcasts
  the list in two critical sections; when in between another client is removed and that is announced, a
  client that stays is sent the newer list, which names the removed client once less often, and
  then the older one. Its reader thread hands them over in that order, and once the events are
  handled it shows the older list, with the client that has left.
\<close>

theorem presence_overtaken:
  assumes "mpsc ops queued capacity" and "sound st" and "orders_ok it"
    and "d \<in> set (hm_or [] a (outboxes st))" and "cd_ready d" and "\<not> is_closed ops (channels st (cd_writer d))"
    and "length (queued (channels st (cd_writer d))) + 2 \<le> capacity (channels st (cd_writer d))"
    and "list_all sendable (queued (channels st (cd_writer d)))"
    and "c \<in> set (hm_or [] b (sessions st))" and "cs_username c = Some gone" and "(b, cs_token c) \<noteq> (a, cd_token d)"
    and "presence_section ops it (Updating (Pruning [])) st = (Inl (Updating (Spreading older)), st0)"
    and "remove_client_if_current st0 b (cs_token c) = (was_there, st1)"
    and "broadcast_presence ops it st1 = (told, st2)"
    and "presence_section ops it (Updating (Spreading older)) st2 = (goes_on, st3)"
    and "byte_reader rd avail alive" and "alive r" and "avail r = concat (queued (channels st3 (cd_writer d)))"
    and "length (queued (channels st3 (cd_writer d))) < n" and "app_inv app"
  shows "\<exists>us vs newer es app'. mset us = shown_names st \<and> encode_presence us = Ok older \<and> st0 = st \<and>
    was_there = Ok True \<and> told = Ok () \<and> encode_presence vs = Ok newer \<and> count (mset vs) gone < count (mset us) gone \<and>
    queued (channels st3 (cd_writer d)) = queued (channels st (cd_writer d)) @ [newer, older] \<and>
    reader_loop debug rd n r = (es @ [UserList vs, UserList us, Disconnected (lit ''server disconnected'')], Finished) \<and>
    drain_network_events (es @ [UserList vs, UserList us]) app = (Ok (), app') \<and> ca_connected_users app' = us"
proof -
  obtain us vs s1 s2 ds s3 where us: "list_all registered_name us" "length us \<le> MAX_CONNECTIONS" "mset us = shown_names st"
    and vs: "list_all registered_name vs" "length vs \<le> MAX_CONNECTIONS" "count (mset vs) gone < count (mset us) gone"
    and run: "presence_section ops it (Updating (Pruning [])) st = (Inl (Updating (Spreading (frame_bytes (names_frame us)))), st)"
    "remove_client_if_current st b (cs_token c) = (Ok True, s1)" "(b, cs_token c) \<notin> members s1"
    "broadcast_presence ops it s1 = (Ok (), s2)"
    "presence_section ops it (Updating (Spreading (frame_bytes (names_frame us)))) s2 = (Inl (Updating (Dropping ds)), s3)"
    "queued (channels s3 (cd_writer d)) = queued (channels st (cd_writer d)) @ [frame_bytes (names_frame vs), frame_bytes (names_frame us)]"
    by (rule older_list_after_newer [OF assms(1-7,9-11), folded names_frame_def], rule that)
  have eqs: "older = frame_bytes (names_frame us)" "st0 = st" "was_there = Ok True" "st1 = s1" "told = Ok ()" "st2 = s2" "st3 = s3"
    using run assms(12-15) by auto
  have enc: "encode_presence us = Ok (frame_bytes (names_frame us))" "encode_presence vs = Ok (frame_bytes (names_frame vs))"
    using encode_presence_registered(1) [OF us(1,2)] encode_presence_registered(1) [OF vs(1,2)] by (simp_all add: names_frame_def)
  let ?fs = "[names_frame vs, names_frame us]"
  have wf: "list_all wf_frame ?fs" using frames_wf(2) [OF us(1,2)] frames_wf(2) [OF vs(1,2)] by simp
  have fe: "frame_events ?fs = ([UserList vs, UserList us], True)"
    using encode_presence_registered(3) [OF us(1,2)] encode_presence_registered(3) [OF vs(1,2)]
    by (simp add: process_frame_def names_frame_def)
  have q: "queued (channels st3 (cd_writer d)) = queued (channels st (cd_writer d)) @ map frame_bytes ?fs"
    using run(6) by (simp add: eqs)
  obtain es where es: "reader_loop debug rd n r = (es @ [UserList vs, UserList us] @ [Disconnected (lit ''server disconnected'')], Finished)"
    by (rule reader_hands_over [OF assms(16,17,8) wf _ fe, of n debug]) (use assms(18,19) q that in simp_all)
  obtain app1 where d1: "drain_network_events (es @ [UserList vs]) app = (Ok (), app1)" "app_inv app1"
    using drain_network_events_inv [OF assms(20)] by blast
  obtain app' where d2: "update_connected_users us app1 = (Ok (), app')" using app_mention_steps_inv(1) [OF d1(2)] by blast
  have "drain_network_events ((es @ [UserList vs]) @ [UserList us]) app = (Ok (), app')"
    unfolding drain_append [of "es @ [UserList vs]"] using d1(1) d2 by (simp add: drain_event_def)
  moreover have "ca_connected_users app' = us" by (rule update_users [OF d2])
  ultimately show ?thesis
    using us(3) vs(3) enc es q
    by (intro exI [of _ us] exI [of _ vs] exI [of _ "frame_bytes (names_frame vs)"] exI [of _ es] exI [of _ app'])
      (simp add: eqs)
qed

theorem presence_overtaken_witness:
  "\<exists>older st1 st2 st3 g es us vs app'.
     presence_section traced_ops bounded_orders (Updating (Pruning [])) ann_and_bob = (Inl (Updating (Spreading older)), ann_and_bob) \<and>
     remove_client_if_current ann_and_bob localhost 1 = (Ok True, st1) \<and>
     broadcast_presence traced_ops bounded_orders st1 = (Ok (), st2) \<and>
     presence_section traced_ops bounded_orders (Updating (Spreading older)) st2 = (g, st3) \<and>
     drain_network_events (es @ [UserList vs, UserList us]) (chat_app_new (lit ''ann'') []) = (Ok (), app') \<and>
     count (mset vs) (lit ''bob'') < count (mset (ca_connected_users app')) (lit ''bob'')"
proof -
  let ?d = "\<lparr>cd_addr = localhost, cd_token = 0, cd_writer = 1, cd_disconnect = Some 1, cd_ready = True, cd_pending = []\<rparr>"
  let ?c = "\<lparr>cs_token = 1, cs_username = Some (lit ''bob'')\<rparr>"
  let ?q = "\<lambda>(taken :: bytes list, c). bc_queue c" and ?cap = "\<lambda>(taken :: bytes list, c). bc_capacity c"
  have chan: "\<not> is_closed traced_ops (channels ann_and_bob (cd_writer ?d))" "?q (channels ann_and_bob (cd_writer ?d)) = []"
      "length (?q (channels ann_and_bob (cd_writer ?d))) + 2 \<le> ?cap (channels ann_and_bob (cd_writer ?d))"
    by (simp_all add: ann_and_bob(2) [simplified] traced_new_def traced_ops_def bounded_new_def limits)
  have d: "cd_ready ?d" and c: "cs_username ?c = Some (lit ''bob'')" "(localhost, cs_token ?c) \<noteq> (localhost, cd_token ?d)"
    and q: "list_all sendable (?q (channels ann_and_bob (cd_writer ?d)))"
    using chan(2) by simp_all
  obtain older where o: "presence_section traced_ops bounded_orders (Updating (Pruning [])) ann_and_bob =
      (Inl (Updating (Spreading older)), ann_and_bob)"
    by (rule older_list_after_newer [OF traced.mpsc_axioms ann_and_bob(1) bounded_orders_ok ann_and_bob(4) d chan(1,3) ann_and_bob(3) c], rule that)
  obtain x st1 where r: "remove_client_if_current ann_and_bob localhost (cs_token ?c) = (x, st1)" by fastforce
  obtain y st2 where p: "broadcast_presence traced_ops bounded_orders st1 = (y, st2)" by fastforce
  obtain z st3 where s: "presence_section traced_ops bounded_orders (Updating (Spreading older)) st2 = (z, st3)" by fastforce
  from presence_overtaken [OF traced.mpsc_axioms ann_and_bob(1) bounded_orders_ok ann_and_bob(4) d chan(1,3) q ann_and_bob(3) c
      o r p s script.byte_reader_axioms given lessI chat_app_new_inv [of "lit ''ann''" "[]"], of "\<lambda>_. []"]
  show ?thesis using o r p s by auto
qed

end
