(* ===== verification/Announcements_Inv.thy ===== *)
theory Announcements_Inv
  imports Announcements Ordering_Server
begin

section \<open>What is kept about announcements\<close>

text \<open>
  A task speaks for a client; before its join line is recorded it is about to enter it, and after
  it removed the client it is about to announce that it has left. The invariant \<open>flag_inv\<close> counts:
  at most one task is about to enter a client that has not entered, at most one is about to
  announce the leaving of a client that is no longer registered. \<open>turn_events\<close> says once what a
  turn can be for this purpose, so that each invariant is proved over five kinds of events.
\<close>

subsection \<open>Whom a task speaks for\<close>

fun voice :: "phase \<Rightarrow> (ustr \<times> token) option" where
  "voice (Name u tok) = Some (u, tok)"
| "voice (Replay u tok) = Some (u, tok)"
| "voice (ShowUsers u tok) = Some (u, tok)"
| "voice (RecordJoin u tok) = Some (u, tok)"
| "voice (JoinUsers u tok) = Some (u, tok)"
| "voice (Talk u tok) = Some (u, tok)"
| "voice (Compose u tok c) = Some (u, tok)"
| "voice (LineUsers u tok) = Some (u, tok)"
| "voice (Finish u tok j f) = Some (u, tok)"
| "voice (RecordLeave u tok f) = Some (u, tok)"
| "voice (LeaveUsers u tok f) = Some (u, tok)"
| "voice (Writing u tok) = Some (u, tok)"
| "voice (CheckJoined u tok) = Some (u, tok)"
| "voice (WriterLeave u tok) = Some (u, tok)"
| "voice p = None"

fun to_enter :: "token \<Rightarrow> phase \<Rightarrow> stage \<Rightarrow> bool" where
  "to_enter k (Name u tok) g = (tok = k)"
| "to_enter k (Replay u tok) g = (tok = k)"
| "to_enter k (ShowUsers u tok) g = (tok = k)"
| "to_enter k (RecordJoin u tok) g = (tok = k \<and> g = Start)"
| "to_enter k p g = False"

fun to_leave :: "token \<Rightarrow> phase \<Rightarrow> stage \<Rightarrow> bool" where
  "to_leave k (RecordLeave u tok f) g = (tok = k \<and> g = Start)"
| "to_leave k (CheckJoined u tok) g = (tok = k)"
| "to_leave k (WriterLeave u tok) g = (tok = k \<and> g = Start)"
| "to_leave k p g = False"

fun has_entered :: "token \<Rightarrow> phase \<Rightarrow> stage \<Rightarrow> bool" where
  "has_entered k (RecordJoin u tok) g = (tok = k \<and> g \<noteq> Start)"
| "has_entered k (JoinUsers u tok) g = (tok = k)"
| "has_entered k (Talk u tok) g = (tok = k)"
| "has_entered k (Compose u tok c) g = (tok = k)"
| "has_entered k (LineUsers u tok) g = (tok = k)"
| "has_entered k (Finish u tok j f) g = (tok = k \<and> j)"
| "has_entered k (RecordLeave u tok f) g = (tok = k)"
| "has_entered k (LeaveUsers u tok f) g = (tok = k)"
| "has_entered k (WriterLeave u tok) g = (tok = k)"
| "has_entered k p g = False"

definition entering :: "token \<Rightarrow> (task \<times> stage) list \<Rightarrow> nat" where
  "entering k ts = length (filter (\<lambda>(t, g). to_enter k (phase t) g) ts)"

definition leaving :: "token \<Rightarrow> (task \<times> stage) list \<Rightarrow> nat" where
  "leaving k ts = length (filter (\<lambda>(t, g). to_leave k (phase t) g) ts)"

lemma counts [simp]:
  "entering k [] = 0" "entering k (xs @ ys) = entering k xs + entering k ys"
  "entering k ((t, g) # ts) = (if to_enter k (phase t) g then Suc (entering k ts) else entering k ts)"
  "leaving k [] = 0" "leaving k (xs @ ys) = leaving k xs + leaving k ys"
  "leaving k ((t, g) # ts) = (if to_leave k (phase t) g then Suc (leaving k ts) else leaving k ts)"
  by (simp_all add: entering_def leaving_def)

subsection \<open>What a turn is\<close>

text \<open>With the next phase as a one-task list: a plain turn, a registration, a removal by a task that
  then announces it, or the recording of an announcement.\<close>

definition plain_turn :: "(token \<Rightarrow> bool) \<Rightarrow> phase \<Rightarrow> stage \<Rightarrow> phase \<Rightarrow> stage \<Rightarrow> bool" where
  "plain_turn flags p g p' g' \<longleftrightarrow>
     (voice p' = None \<or> voice p' = voice p) \<and> (\<forall>k. to_enter k p' g' \<longrightarrow> to_enter k p g) \<and>
     (\<forall>k. to_leave k p' g' \<longrightarrow> to_leave k p g) \<and> (\<forall>k. has_entered k p' g' \<longrightarrow> has_entered k p g \<or> flags k)"

definition removal_turn :: "'w server_state \<Rightarrow> 'w server_state \<Rightarrow> socket_addr \<Rightarrow> phase \<Rightarrow> phase \<Rightarrow> bool" where
  "removal_turn st st' a p p' \<longleftrightarrow>
     (\<exists>u tok. voice p = Some (u, tok) \<and> voice p' = Some (u, tok) \<and> (a, tok) \<in> members st \<and>
       members st' = members st - {(a, tok)} \<and> to_leave tok p' Start \<and> (\<forall>k. \<not> to_enter k p' Start) \<and>
       (\<forall>k. has_entered k p' Start \<longrightarrow> has_entered k p Start))"

lemmas move_defs = plain_turn_def resume_Inr after_call_Ok

lemma presence_move:
  assumes "kind_of_call p = Presence_update" "task_section ops it rnd i a p g st = (Inr (Ok (Some p')), st')"
  shows "plain_turn flags p g p' Start"
  using assms by (cases p) (auto simp: move_defs split: if_splits)

lemma line_move:
  assumes "kind_of_call p = Line" "task_section ops it rnd i a p g st = (Inr (Ok (Some p')), st')"
  shows "plain_turn flags p g p' Start"
proof -
  have start: "line_section ops it line content Start st \<noteq> (Inr (Ok b), st')" for line content b
    by (simp split: result.split)
  show ?thesis
    using assms start by (cases p; cases "g = Start") (auto simp: move_defs Let_def simp del: line_section.simps split: if_splits)
qed

lemma removal_move:
  assumes "sound st" "kind_of_call p = Removal" "task_call ops it rnd (load_joined p flags i) a p st = (Ok (Some p'), st')"
  shows "plain_turn flags p Start p' Start \<or> removal_turn st st' a p p'"
proof -
  have rm: "b \<longleftrightarrow> (a, tok) \<in> members st" "members st' = members st - {(a, tok)}"
    if "remove_client_if_current st a tok = (Ok b, st')" for tok b
    using remove_sound [OF assms(1), of a tok] that shrinks_frame by (metis prod.inject result.inject(1))+
  show ?thesis
    using assms(2,3) by (cases p) (auto simp: move_defs removal_turn_def dest: rm split: if_splits)
qed

lemma joining_move:
  assumes "kind_of_call p = Joining" "task_section ops it rnd i a p g st = (Inr (Ok (Some p')), st')" "\<And>u. p \<noteq> Register u"
  shows "plain_turn flags p g p' Start"
  using assms by (cases p) (auto simp: move_defs split: prod.splits)

lemma frame_move:
  assumes "kind_of_call p = Frame_read" "task_call ops it rnd i a p st = (Ok (Some p'), st')"
  shows "plain_turn flags p Start p' Start"
  using assms by (cases p) (auto simp: move_defs frame_phase_def split: option.splits result.splits if_splits)

text \<open>A section of an announcing task that goes on with its call has recorded the announcement, when
  it was the first one.\<close>

lemma announce_section:
  assumes "notice_of p = Some (tok, x)" "task_section ops it rnd i a p g st = (Inl g', st')"
  shows "recorded_by g g' = (if g = Start then [(notice_line x, snd (the_elem (set (recorded_by g g'))))] else [])"
    "g = Start \<Longrightarrow> \<exists>l f. g' = Recording (Recorded l f)"
proof -
  have start: "(\<exists>f. g' = Recording (Recorded line f)) \<and> (\<exists>f. recorded_by g g' = [(trim_end_matches 0x0A line, f)])"
    if "line_section ops it line content g st = (Inl g', st')" "g = Start" for line content
    using that by (auto split: result.splits if_splits)
  have later: "recorded_by g g' = []" if "g \<noteq> Start" using that by (cases "(g, g')" rule: recorded_by.cases) simp_all
  have inl: "resume out nxt failed = (Inl g', st') \<longleftrightarrow> out = (Inl g', st')" for out :: "(bool, _) section_result" and nxt failed
    by (cases "(out, nxt, failed)" rule: resume.cases) (simp_all split: prod.split)
  note facts = assms later start
  show "recorded_by g g' = (if g = Start then [(notice_line x, snd (the_elem (set (recorded_by g g'))))] else [])"
    by (cases p; use facts in \<open>fastforce simp: inl simp del: line_section.simps\<close>)
  show "g = Start \<Longrightarrow> \<exists>l f. g' = Recording (Recorded l f)"
    by (cases p; use facts in \<open>fastforce simp: inl simp del: line_section.simps\<close>)
qed

lemma section_move:
  assumes "sound st" "call_sound a p (Some p') st st'" "\<forall>u tok. voice p = Some (u, tok) \<longrightarrow> tok < next_token st"
    and "task_section ops it rnd (load_joined p flags i) a p g st = (Inr (Ok (Some p')), st')"
  obtains (plain) "plain_turn flags p g p' Start" "members st' \<subseteq> members st" "next_token st' = next_token st"
    | (registers) u where "p = Register u" "p' = Name u (next_token st)" "members st' = insert (a, next_token st) (members st)"
        "next_token st' = Suc (next_token st)"
    | (removes) "removal_turn st st' a p p'" "next_token st' = next_token st"
proof (cases "\<exists>u. p = Register u")
  case True
  then obtain u where p: "p = Register u" ..
  with assms(4) have "\<exists>tok. p' = Name u tok" by (auto simp: after_call_Ok split: prod.splits)
  with assms(2) p show ?thesis by (intro registers [of u]) (auto simp: call_sound_def keeps_client_def adds_client_def)
next
  case False
  have "phase_token p' = None \<or> phase_token p \<noteq> None \<or> (\<exists>u tok. voice p = Some (u, tok) \<and> phase_token p' = Some tok)"
    using assms(4) False by (cases p) (auto simp: resume_Inr after_call_Ok split: prod.splits if_splits)
  with assms(2,3) have rest: "members st' \<subseteq> members st" "next_token st' = next_token st"
    by (auto simp: call_sound_def keeps_client_def adds_client_def)
  have calls: "task_call ops it rnd (load_joined p flags i) a p st = (Ok (Some p'), st')"
    if "kind_of_call p = Removal \<or> kind_of_call p = Frame_read"
    using that assms(4) by (cases p) (auto simp del: task_call.simps split: prod.splits)
  have stage: "plain_turn flags p Start p' Start \<Longrightarrow> plain_turn flags p g p' Start"
    if "kind_of_call p = Removal \<or> kind_of_call p = Frame_read"
    using that by (cases p) (simp_all add: plain_turn_def)
  show ?thesis
  proof (cases "kind_of_call p")
    case Joining
    with False plain rest joining_move [OF _ assms(4)] show ?thesis by blast
  next
    case Presence_update
    with plain rest presence_move [OF _ assms(4)] show ?thesis by blast
  next
    case Line
    with plain rest line_move [OF _ assms(4)] show ?thesis by blast
  next
    case Frame_read
    with plain rest stage frame_move [OF _ calls] show ?thesis by blast
  next
    case Removal
    with removal_move [OF assms(1) _ calls] have "plain_turn flags p Start p' Start \<or> removal_turn st st' a p p'" by blast
    then show ?thesis using plain rest stage Removal removes by blast
  qed
qed

text \<open>What a turn of the system can be. The list \<open>ts\<close> takes the place of the task.\<close>

definition keeps_plain ::
  "(token \<Rightarrow> bool) \<Rightarrow> task \<Rightarrow> stage \<Rightarrow> (task \<times> stage) list \<Rightarrow> bool" where
  "keeps_plain flags t g ts \<longleftrightarrow>
     (\<forall>k. entering k ts \<le> entering k [(t, g)]) \<and> (\<forall>k. leaving k ts \<le> leaving k [(t, g)]) \<and>
     (\<forall>(t', g') \<in> set ts. (voice (phase t') = None \<or> voice (phase t') = voice (phase t)) \<and>
       (\<forall>k. has_entered k (phase t') g' \<longrightarrow> has_entered k (phase t) g \<or> flags k))"

lemma keeps_plainD:
  assumes "keeps_plain flags t g ts"
  shows "entering k ts \<le> entering k [(t, g)]" "leaving k ts \<le> leaving k [(t, g)]"
    "(t', g') \<in> set ts \<Longrightarrow> voice (phase t') = Some v \<Longrightarrow> voice (phase t) = Some v"
    "(t', g') \<in> set ts \<Longrightarrow> has_entered k (phase t') g' \<Longrightarrow> has_entered k (phase t) g \<or> flags k"
proof -
  note D = assms [unfolded keeps_plain_def]
  show "entering k ts \<le> entering k [(t, g)]" "leaving k ts \<le> leaving k [(t, g)]" using D by blast+
  assume "(t', g') \<in> set ts"
  with D have "voice (phase t') = None \<or> voice (phase t') = voice (phase t)"
    "has_entered k (phase t') g' \<longrightarrow> has_entered k (phase t) g \<or> flags k" by blast+
  then show "voice (phase t') = Some v \<Longrightarrow> voice (phase t) = Some v"
    "has_entered k (phase t') g' \<Longrightarrow> has_entered k (phase t) g \<or> flags k" by auto
qed

lemma keeps_plain_Nil: "keeps_plain flags t g []"
  by (simp add: keeps_plain_def)

lemma spawned_none: "\<not> (\<exists>u tok u' tok'. p = Name u tok \<and> p' = Replay u' tok') \<Longrightarrow> spawned a p (Some p') = []"
  by (cases p; simp; cases p'; simp)

lemma keeps_plain_moved:
  assumes "plain_turn flags (phase t) g p' Start"
  shows "keeps_plain flags t g ((t\<lparr>phase := p'\<rparr>, Start) # map (\<lambda>t. (t, Start)) (spawned a (phase t) (Some p')))"
proof (cases "\<exists>u tok u' tok'. phase t = Name u tok \<and> p' = Replay u' tok'")
  case True
  with assms show ?thesis by (auto simp: keeps_plain_def plain_turn_def)
next
  case False
  with assms spawned_none [of "phase t" p' a] show ?thesis by (auto simp: keeps_plain_def plain_turn_def)
qed

lemma keeps_plain_stage:
  assumes "g' \<noteq> Start" "announces (phase t) g (Inl g') = []" "notice_of (phase t) \<noteq> None \<Longrightarrow> g \<noteq> Start"
  shows "keeps_plain flags t g [(t, g')]"
  using assms by (cases "phase t") (auto simp: keeps_plain_def)

lemma flagged_turn_cases:
  assumes "fine_inv free (core s)" "orders_ok it" "running (core s) = before @ (t, g) # after" "inputs_ok i (common (core s))"
    and voice: "\<forall>u tok. voice (phase t) = Some (u, tok) \<longrightarrow> tok < next_token (common (core s))"
    and turn: "s' = flagged_turn sem ops it rnd i before t g after s"
  obtains (plain) ys zs where "running (core s') = before @ ys @ after @ zs" "announced s' = announced s"
      "keeps_plain (joined_flags s) t g (ys @ zs)" "members (common (core s')) \<subseteq> members (common (core s))"
      "next_token (common (core s')) = next_token (common (core s))" "prefix (record_log (core s)) (record_log (core s'))"
    | (registers) u where "phase t = Register u" "announced s' = announced s" "record_log (core s') = record_log (core s)"
      "running (core s') = before @ (t\<lparr>phase := Name u (next_token (common (core s)))\<rparr>, Start) # after"
      "members (common (core s')) = insert (peer t, next_token (common (core s))) (members (common (core s)))"
      "next_token (common (core s')) = Suc (next_token (common (core s)))"
    | (removes) p' where "removal_turn (common (core s)) (common (core s')) (peer t) (phase t) p'"
      "running (core s') = before @ (t\<lparr>phase := p'\<rparr>, Start) # after"
      "announced s' = announced s" "next_token (common (core s')) = next_token (common (core s))"
      "record_log (core s') = record_log (core s)"
    | (announcement) tok x l f where "notice_of (phase t) = Some (tok, x)" "g = Start" "announced s' = announced s @ [(tok, x)]"
      "running (core s') = before @ (t, Recording (Recorded l f)) # after"
      "members (common (core s')) \<subseteq> members (common (core s))"
      "next_token (common (core s')) = next_token (common (core s))"
      "\<exists>f. record_log (core s') = record_log (core s) @ [(notice_line x, f)]"
proof -
  let ?i = "load_joined (phase t) (joined_flags s) i"
  have i: "inputs_ok ?i (common (core s))" using assms(4) by (cases "phase t") (simp_all add: inputs_ok_def)
  have s': "core s' = section_turn sem ops it rnd ?i before t g after (core s)"
    "announced s' = announced s @ announces (phase t) g (fst (task_section ops it rnd ?i (peer t) (phase t) g (common (core s))))"
    by (simp_all add: turn flagged_turn_def Let_def)
  show ?thesis
  proof (cases rule: section_turn_cases [OF assms(1-3) i, of ops rnd sem])
    case (1 g' st')
    show ?thesis
    proof (cases "notice_of (phase t) = None \<or> g \<noteq> Start")
      case True
      then have a: "announces (phase t) g (Inl g' :: stage + unit) = []" "\<And>r :: stage + (phase option, unit) result.
          announces (phase t) g (Inl g') = []"
        by (cases "(phase t, g, Inl g' :: stage + unit)" rule: announces.cases; auto)+
      have "keeps_plain (joined_flags s) t g [(t, g')]" by (rule keeps_plain_stage [OF 1(3) a(1)]) (use True in auto)
      then show ?thesis using 1 a(2) by (intro plain [of "[(t, g')]" "[]"]) (simp_all add: s' calm_def)
    next
      case False
      then obtain tok x where x: "notice_of (phase t) = Some (tok, x)" "g = Start" by auto
      note rec = announce_section [OF x(1) 1(1)]
      from rec(2) [OF x(2)] obtain l f where g': "g' = Recording (Recorded l f)" by blast
      show ?thesis using 1 x rec(1) g'
        by (intro announcement [of tok x l f]) (auto simp: s' calm_def)
    qed
  next
    case (2 p st')
    note moved = 2
    have keep: "announced s' = announced s" "record_log (core s') = record_log (core s)" "common (core s') = st'"
      by (simp_all add: s' moved(1,3))
    have run: "running (core s') = before @ (t\<lparr>phase := p\<rparr>, Start) # after @ map (\<lambda>t. (t, Start)) (spawned (peer t) (phase t) (Some p))"
      by (simp add: s' moved(3))
    show ?thesis
    proof (cases rule: section_move [OF fine_invD(4) [OF assms(1)] moved(2) voice moved(1)])
      case 1
      then show ?thesis
        using keep run keeps_plain_moved [OF 1(1), of "peer t"]
        by (intro plain [of "[(t\<lparr>phase := p\<rparr>, Start)]" "map (\<lambda>t. (t, Start)) (spawned (peer t) (phase t) (Some p))"]) simp_all
    next
      case (2 u)
      with keep run spawned_none [of "phase t" p "peer t"] show ?thesis by (intro registers [of u]) simp_all
    next
      case 3
      have "spawned (peer t) (phase t) (Some p) = []"
        by (rule spawned_none) (use 3 in \<open>auto simp: removal_turn_def\<close>)
      with 3 keep run show ?thesis by (intro removes [of p]) simp_all
    qed
  next
    case (3 st')
    have "prefix (record_log (core s)) (record_log (core s'))" by (simp add: s' 3(3))
    with 3 show ?thesis
      by (intro plain [of "[]" "[]"]) (simp_all add: s' keeps_plain_Nil call_sound_def keeps_client_def adds_client_def)
  qed
qed

subsection \<open>The invariant\<close>

text \<open>Over the tasks, the announcements, the flags, the registered clients and the next token; \<open>N\<close>
  gives the name of each client.\<close>

definition paired ::
  "(token \<Rightarrow> ustr) \<Rightarrow> token \<Rightarrow> (socket_addr \<times> token) set \<Rightarrow> (token \<Rightarrow> bool) \<Rightarrow> (task \<times> stage) list \<Rightarrow>
     (token \<times> notice) list \<Rightarrow> bool"
where
  "paired N n M flags ts A \<longleftrightarrow>
     (\<forall>(t, g) \<in> set ts. \<forall>u k. voice (phase t) = Some (u, k) \<longrightarrow> k < n \<and> N k = u) \<and>
     (\<forall>k. said k A \<noteq> [] \<longrightarrow> k < n) \<and>
     (\<forall>k. said k A \<in> {[], [Entered (N k)], [Entered (N k), Gone (N k)]}) \<and>
     (\<forall>k. entering k ts + (if said k A = [] then 0 else 1) \<le> 1) \<and>
     (\<forall>k. leaving k ts + (if length (said k A) = 2 then 1 else 0) \<le> (if k \<in> snd ` M then 0 else 1)) \<and>
     (\<forall>k. flags k \<or> (\<exists>(t, g) \<in> set ts. has_entered k (phase t) g) \<longrightarrow> said k A \<noteq> [])"

lemma pairedD:
  assumes "paired N n M flags ts A"
  shows "(t, g) \<in> set ts \<Longrightarrow> voice (phase t) = Some (u, k) \<Longrightarrow> k < n \<and> N k = u"
    "said k A \<noteq> [] \<Longrightarrow> k < n"
    "said k A = [] \<or> said k A = [Entered (N k)] \<or> said k A = [Entered (N k), Gone (N k)]"
    "entering k ts + (if said k A = [] then 0 else 1) \<le> 1"
    "leaving k ts + (if length (said k A) = 2 then 1 else 0) \<le> (if k \<in> snd ` M then 0 else 1)"
    "flags k \<Longrightarrow> said k A \<noteq> []" "(t, g) \<in> set ts \<Longrightarrow> has_entered k (phase t) g \<Longrightarrow> said k A \<noteq> []"
  using assms unfolding paired_def by (blast+)?

lemma pairedI:
  assumes "\<And>t g u k. (t, g) \<in> set ts \<Longrightarrow> voice (phase t) = Some (u, k) \<Longrightarrow> k < n \<and> N k = u"
    "\<And>k. said k A \<noteq> [] \<Longrightarrow> k < n"
    "\<And>k. said k A = [] \<or> said k A = [Entered (N k)] \<or> said k A = [Entered (N k), Gone (N k)]"
    "\<And>k. entering k ts + (if said k A = [] then 0 else 1) \<le> 1"
    "\<And>k. leaving k ts + (if length (said k A) = 2 then 1 else 0) \<le> (if k \<in> snd ` M then 0 else 1)"
    "\<And>k. flags k \<Longrightarrow> said k A \<noteq> []" "\<And>t g k. (t, g) \<in> set ts \<Longrightarrow> has_entered k (phase t) g \<Longrightarrow> said k A \<noteq> []"
  shows "paired N n M flags ts A"
  unfolding paired_def using assms by (intro conjI allI ballI impI) (auto; fail)+

lemma paired_plain:
  assumes "paired N n M flags (before @ (t, g) # after) A" "keeps_plain flags t g (ys @ zs)" "M' \<subseteq> M"
  shows "paired N n M' flags (before @ ys @ after @ zs) A"
proof (rule pairedI)
  note D = pairedD [OF assms(1)] and P = keeps_plainD [OF assms(2)]
  have old: "(t', g') \<in> set (before @ (t, g) # after) \<or> (t', g') \<in> set (ys @ zs)"
    if "(t', g') \<in> set (before @ ys @ after @ zs)" for t' g' using that by auto
  show "k < n \<and> N k = u" if "(t', g') \<in> set (before @ ys @ after @ zs)" "voice (phase t') = Some (u, k)" for t' g' u k
    using old [OF that(1)]
  proof
    assume "(t', g') \<in> set (ys @ zs)"
    from P(3) [OF this that(2)] show ?thesis by (intro D(1) [of t g]) simp_all
  qed (rule D(1) [OF _ that(2)])
  show "said k A \<noteq> []" if "(t', g') \<in> set (before @ ys @ after @ zs)" "has_entered k (phase t') g'" for t' g' k
    using old [OF that(1)]
  proof
    assume "(t', g') \<in> set (ys @ zs)"
    from P(4) [OF this that(2)] show ?thesis using D(7) [of t g k] D(6) [of k] by auto
  qed (rule D(7) [OF _ that(2)])
  show "k < n" if "said k A \<noteq> []" for k by (rule D(2) [OF that])
  show "said k A = [] \<or> said k A = [Entered (N k)] \<or> said k A = [Entered (N k), Gone (N k)]" for k by (rule D(3))
  show "said k A \<noteq> []" if "flags k" for k by (rule D(6) [OF that])
  have e: "entering k (before @ ys @ after @ zs) \<le> entering k (before @ (t, g) # after)"
    and l: "leaving k (before @ ys @ after @ zs) \<le> leaving k (before @ (t, g) # after)" for k
  proof -
    show "entering k (before @ ys @ after @ zs) \<le> entering k (before @ (t, g) # after)"
      "leaving k (before @ ys @ after @ zs) \<le> leaving k (before @ (t, g) # after)"
      using P(1,2) [of k] by (simp_all split: if_splits)
  qed
  show "entering k (before @ ys @ after @ zs) + (if said k A = [] then 0 else 1) \<le> 1" for k
    using e [of k] D(4) [of k] by linarith
  have "(if k \<in> snd ` M then 0 else 1) \<le> (if k \<in> snd ` M' then 0 else 1 :: nat)" for k using assms(3) by auto
  then show "leaving k (before @ ys @ after @ zs) + (if length (said k A) = 2 then 1 else 0) \<le> (if k \<in> snd ` M' then 0 else 1)" for k
    using l [of k] D(5) [of k] by (meson add_le_mono1 le_trans)
qed

lemma paired_registers:
  assumes "paired N n M flags (before @ (t, g) # after) A" "phase t = Register u"
  shows "paired (N(n := u)) (Suc n) (insert (a, n) M) flags (before @ (t\<lparr>phase := Name u n\<rparr>, Start) # after) A"
proof (rule pairedI)
  note D = pairedD [OF assms(1)]
  let ?N = "N(n := u)" and ?ts = "before @ (t\<lparr>phase := Name u n\<rparr>, Start) # after"
  have new: "said n A = []" using D(2) [of n] by auto
  have old: "(t', g') = (t\<lparr>phase := Name u n\<rparr>, Start) \<or> (t', g') \<in> set (before @ (t, g) # after)"
    if "(t', g') \<in> set ?ts" for t' g' using that by auto
  show "k < Suc n \<and> ?N k = v" if "(t', g') \<in> set ?ts" "voice (phase t') = Some (v, k)" for t' g' v k
    using old [OF that(1)]
  proof
    assume "(t', g') \<in> set (before @ (t, g) # after)"
    from D(1) [OF this that(2)] show ?thesis by simp
  qed (use that(2) in simp)
  show "said k A \<noteq> []" if "(t', g') \<in> set ?ts" "has_entered k (phase t') g'" for t' g' k
    using old [OF that(1)]
  proof
    assume "(t', g') \<in> set (before @ (t, g) # after)"
    from D(7) [OF this that(2)] show ?thesis .
  qed (use that(2) in simp)
  show "k < Suc n" if "said k A \<noteq> []" for k using D(2) [OF that] by simp
  show "said k A = [] \<or> said k A = [Entered (?N k)] \<or> said k A = [Entered (?N k), Gone (?N k)]" for k
    using D(3) [of k] new by (cases "k = n") simp_all
  show "said k A \<noteq> []" if "flags k" for k by (rule D(6) [OF that])
  have none: "\<not> to_enter n (phase t') g' \<and> \<not> to_leave n (phase t') g'" if "(t', g') \<in> set (before @ (t, g) # after)" for t' g'
    using D(1) [OF that] by (cases "phase t'") auto
  then have zero: "entering n (before @ after) = 0" "leaving n (before @ after) = 0"
    by (auto simp: entering_def leaving_def filter_empty_conv)
  show "entering k ?ts + (if said k A = [] then 0 else 1) \<le> 1" for k
    using D(4) [of k] zero(1) new assms(2) by (cases "k = n") simp_all
  show "leaving k ?ts + (if length (said k A) = 2 then 1 else 0) \<le> (if k \<in> snd ` insert (a, n) M then 0 else 1)" for k
    using D(5) [of k] zero(2) new assms(2) by (cases "k = n") simp_all
qed

lemma paired_removes:
  assumes "paired N n M flags (before @ (t, g) # after) A" "removal_turn st st' (peer t) (phase t) p'"
    and "members st = M" "\<And>a b k. (a, k) \<in> M \<Longrightarrow> (b, k) \<in> M \<Longrightarrow> a = b"
  shows "paired N n (members st') flags (before @ (t\<lparr>phase := p'\<rparr>, Start) # after) A"
proof -
  note D = pairedD [OF assms(1)]
  obtain u tok where r: "voice (phase t) = Some (u, tok)" "voice p' = Some (u, tok)" "(peer t, tok) \<in> M"
    "members st' = M - {(peer t, tok)}" "to_leave tok p' Start" "\<And>k. \<not> to_enter k p' Start"
    "\<And>k. has_entered k p' Start \<Longrightarrow> has_entered k (phase t) Start"
    using assms(2,3) by (auto simp: removal_turn_def)
  let ?ts = "before @ (t\<lparr>phase := p'\<rparr>, Start) # after"
  have old: "(t', g') = (t\<lparr>phase := p'\<rparr>, Start) \<or> (t', g') \<in> set (before @ (t, g) # after)"
    if "(t', g') \<in> set ?ts" for t' g' using that by auto
  have entered: "has_entered k (phase t) g" if "has_entered k (phase t) Start" for k
    using that by (cases "phase t") auto
  have gone: "tok \<in> snd ` M" "tok \<notin> snd ` members st'"
  proof -
    show "tok \<in> snd ` M" by (rule image_eqI [OF _ r(3)]) simp
    have "b = peer t" if "(b, tok) \<in> M" for b by (rule assms(4) [OF that r(3)])
    then show "tok \<notin> snd ` members st'" unfolding r(4) by auto
  qed
  have only: "to_leave k p' Start \<longleftrightarrow> k = tok" for k using r(2,5) by (cases p') auto
  show ?thesis
  proof (rule pairedI)
    show "k < n \<and> N k = v" if "(t', g') \<in> set ?ts" "voice (phase t') = Some (v, k)" for t' g' v k
      using old [OF that(1)]
    proof
      assume "(t', g') = (t\<lparr>phase := p'\<rparr>, Start)"
      with that(2) r(1,2) show ?thesis by (intro D(1) [of t g]) simp_all
    qed (rule D(1) [OF _ that(2)])
    show "said k A \<noteq> []" if "(t', g') \<in> set ?ts" "has_entered k (phase t') g'" for t' g' k
      using old [OF that(1)]
    proof
      assume "(t', g') = (t\<lparr>phase := p'\<rparr>, Start)"
      with that(2) r(7) entered show ?thesis by (intro D(7) [of t g]) simp_all
    qed (rule D(7) [OF _ that(2)])
    show "entering k ?ts + (if said k A = [] then 0 else 1) \<le> 1" for k
      using D(4) [of k] r(6) [of k] by (simp split: if_splits)
    show "leaving k ?ts + (if length (said k A) = 2 then 1 else 0) \<le> (if k \<in> snd ` members st' then 0 else 1)" for k
    proof (cases "k = tok")
      case True
      with D(5) [of k] gone only show ?thesis by (simp split: if_splits)
    next
      case False
      then have "k \<in> snd ` members st' \<longleftrightarrow> k \<in> snd ` M" using r(4) by force
      with D(5) [of k] False only show ?thesis by (simp split: if_splits)
    qed
  qed (use D(2,3,6) in blast)+
qed

lemma paired_announces:
  assumes "paired N n M flags (before @ (t, Start) # after) A" "notice_of (phase t) = Some (tok, x)" "M' \<subseteq> M"
  shows "paired N n M' flags (before @ (t, Recording r) # after) (A @ [(tok, x)])"
proof -
  note D = pairedD [OF assms(1)]
  let ?ts = "before @ (t, Recording r) # after" and ?A = "A @ [(tok, x)]"
  have tok: "tok < n" using D(1) [of t Start] assms(2) by (cases "phase t") auto
  have next_said: "said tok ?A = [Entered (N tok)] \<and> to_enter tok (phase t) Start \<or>
      said tok ?A = [Entered (N tok), Gone (N tok)] \<and> to_leave tok (phase t) Start"
  proof (cases "phase t")
    case (RecordJoin u k)
    with assms(2) D(1) [of t Start u k] D(4) [of tok] show ?thesis by (auto split: if_splits)
  next
    case (RecordLeave u k f)
    with assms(2) D(1) [of t Start u k] D(3,5) [of tok] D(7) [of t Start tok] show ?thesis by (auto split: if_splits)
  next
    case (WriterLeave u k)
    with assms(2) D(1) [of t Start u k] D(3,5) [of tok] D(7) [of t Start tok] show ?thesis by (auto split: if_splits)
  qed (use assms(2) in simp_all)
  have spent: "\<not> to_enter k (phase t) (Recording r)" "\<not> to_leave k (phase t) (Recording r)" for k
    using assms(2) by (cases "phase t"; simp)+
  have own: "to_enter k (phase t) Start \<longrightarrow> k = tok" "to_leave k (phase t) Start \<longrightarrow> k = tok"
    "has_entered k (phase t) (Recording r) \<longrightarrow> k = tok" for k
    using assms(2) by (cases "phase t"; simp)+
  have more: "said k A \<noteq> [] \<Longrightarrow> said k ?A \<noteq> []" for k by simp
  have old: "(t', g') = (t, Recording r) \<or> (t', g') \<in> set (before @ (t, Start) # after)"
    if "(t', g') \<in> set ?ts" for t' g' using that by auto
  show ?thesis
  proof (rule pairedI)
    show "k < n \<and> N k = v" if "(t', g') \<in> set ?ts" "voice (phase t') = Some (v, k)" for t' g' v k
      using old [OF that(1)]
    proof
      assume "(t', g') = (t, Recording r)"
      with that(2) show ?thesis by (intro D(1) [of t Start]) simp_all
    qed (rule D(1) [OF _ that(2)])
    show "said k ?A \<noteq> []" if "(t', g') \<in> set ?ts" "has_entered k (phase t') g'" for t' g' k
      using old [OF that(1)]
    proof
      assume "(t', g') = (t, Recording r)"
      with that(2) own(3) [of k] show ?thesis by auto
    qed (rule more [OF D(7) [OF _ that(2)]])
    show "k < n" if "said k ?A \<noteq> []" for k using that D(2) [of k] tok by (cases "k = tok") auto
    show "said k ?A = [] \<or> said k ?A = [Entered (N k)] \<or> said k ?A = [Entered (N k), Gone (N k)]" for k
      using D(3) [of k] next_said by (cases "k = tok") auto
    show "said k ?A \<noteq> []" if "flags k" for k by (rule more [OF D(6) [OF that]])
    show "entering k ?ts + (if said k ?A = [] then 0 else 1) \<le> 1" for k
      using D(4) [of k] spent(1) own(1) [of k] next_said by (cases "k = tok") (auto split: if_splits)
    have fewer: "(if k \<in> snd ` M then 0 else 1) \<le> (if k \<in> snd ` M' then 0 else 1 :: nat)" for k using assms(3) by auto
    have "leaving k ?ts + (if length (said k ?A) = 2 then 1 else 0) \<le> (if k \<in> snd ` M then 0 else 1)" for k
      using D(5) [of k] spent(2) own(2) [of k] next_said by (cases "k = tok") (auto split: if_splits)
    from le_trans [OF this fewer]
    show "leaving k ?ts + (if length (said k ?A) = 2 then 1 else 0) \<le> (if k \<in> snd ` M' then 0 else 1)" for k .
  qed
qed

lemma paired_idle:
  assumes "paired N n M flags ts A" "voice (phase t) = None"
  shows "paired N n M flags (ts @ [(t, g)]) A"
proof -
  have none: "\<not> to_enter k (phase t) g" "\<not> to_leave k (phase t) g" "\<not> has_entered k (phase t) g" for k
    using assms(2) by (cases "phase t"; simp)+
  show ?thesis using assms none by (simp add: paired_def)
qed

lemma paired_stores:
  assumes "paired N n M flags ts A" "(t, g) \<in> set ts" "phase t = Talk u tok"
  shows "paired N n M (flags(tok := True)) ts A"
proof (rule pairedI)
  note D = pairedD [OF assms(1)]
  show "said k A \<noteq> []" if "(flags(tok := True)) k" for k
    using that D(6) [of k] D(7) [OF assms(2), of k] assms(3) by (auto split: if_splits)
qed (use pairedD [OF assms(1)] in blast)+

definition flag_inv :: "(token \<Rightarrow> ustr) \<Rightarrow> ('s, 'w) flagged_system \<Rightarrow> bool" where
  "flag_inv N s \<longleftrightarrow>
     paired N (next_token (common (core s))) (members (common (core s))) (joined_flags s) (running (core s)) (announced s) \<and>
     subseq (map (notice_line \<circ> snd) (announced s)) (map fst (record_log (core s)))"

lemma member_address:
  assumes "fine_inv free s" "(a, k) \<in> members (common s)" "(b, k) \<in> members (common s)"
  shows "a = b"
proof -
  note D = system_invD [OF fine_invD(1) [OF assms(1)]]
  have "(a, k) \<in> set (handled (tasks (coarse s)))" "(b, k) \<in> set (handled (tasks (coarse s)))"
    using D(6) assms(2,3) by (simp_all only: coarse_simps) blast+
  with D(4) show ?thesis by (metis (mono_tags) distinct_map inj_onD prod.inject snd_conv)
qed

lemma subseq_log:
  assumes "subseq xs (map fst L)" "prefix L L'"
  shows "subseq xs (map fst L')"
proof -
  obtain l where "L' = L @ l" using assms(2) by (auto simp: prefix_def)
  with list_emb_append_mono [OF assms(1), of "[]" "map fst l"] show ?thesis by simp
qed

lemma flagged_turn_inv:
  assumes "fine_inv free (core s)" "flag_inv N s" "orders_ok it" "running (core s) = before @ (t, g) # after"
    "inputs_ok i (common (core s))"
  shows "\<exists>N'. flag_inv N' (flagged_turn sem ops it rnd i before t g after s)"
proof -
  let ?s = "flagged_turn sem ops it rnd i before t g after s"
  note inv = assms(2) [unfolded flag_inv_def assms(4)]
  have p: "paired N (next_token (common (core s))) (members (common (core s))) (joined_flags s) (before @ (t, g) # after) (announced s)"
    and q: "subseq (map (notice_line \<circ> snd) (announced s)) (map fst (record_log (core s)))" using inv by blast+
  have voice: "\<forall>u tok. voice (phase t) = Some (u, tok) \<longrightarrow> tok < next_token (common (core s))"
    using pairedD(1) [OF p, of t g] by auto
  have flags: "joined_flags ?s = joined_flags s" by (simp add: flagged_turn_def Let_def)
  show ?thesis
  proof (cases rule: flagged_turn_cases [OF assms(1,3-5) voice refl, of sem ops rnd])
    case (1 ys zs)
    with paired_plain [OF p 1(3,4)] subseq_log [OF q 1(6)] show ?thesis by (auto simp: flag_inv_def flags)
  next
    case (2 u)
    with paired_registers [OF p 2(1), of "peer t"] q show ?thesis by (auto simp: flag_inv_def flags simp del: fun_upd_apply)
  next
    case (3 p')
    have "paired N (next_token (common (core s))) (members (common (core ?s))) (joined_flags s) (before @ (t\<lparr>phase := p'\<rparr>, Start) # after) (announced s)"
      by (rule paired_removes [OF p 3(1) refl]) (rule member_address [OF assms(1)])
    with 3 q show ?thesis by (auto simp: flag_inv_def flags)
  next
    case (4 tok x l f)
    from 4(7) obtain f' where r: "record_log (core ?s) = record_log (core s) @ [(notice_line x, f')]" by blast
    have "subseq (map (notice_line \<circ> snd) (announced ?s)) (map fst (record_log (core ?s)))"
      using q by (simp add: 4(3) r list_emb_append_mono)
    moreover have "paired N (next_token (common (core s))) (members (common (core ?s))) (joined_flags s)
        (before @ (t, Recording (Recorded l f)) # after) (announced s @ [(tok, x)])"
      by (rule paired_announces [OF p [unfolded 4(2)] 4(1,5)])
    ultimately show ?thesis using 4(3,4,6) by (auto simp: flag_inv_def flags)
  qed
qed

lemma cleanup_members [simp]:
  "members (snd (cleanup_rate_limits time st)) = members st" "next_token (snd (cleanup_rate_limits time st)) = next_token st"
  by (simp_all add: cleanup_rate_limits_def members_def)

lemma flagged_step_inv:
  assumes "fine_inv free (core s)" "flag_inv N s" "orders_ok it" "flagged_step sem ops env it rnd s s'"
  shows "\<exists>N'. flag_inv N' s'"
  using assms(4)
proof cases
  case (accept accepted)
  have "voice Handshaking = None" by simp
  with assms(2) paired_idle show ?thesis
    unfolding accept flag_inv_def
    by (intro exI [of _ N]) (auto simp: fine_accept_def split: result.split prod.split option.split)
next
  case (cleanup time)
  with assms(2) show ?thesis by (auto simp: flag_inv_def)
next
  case (turn before t g after i)
  then show ?thesis using flagged_turn_inv [OF assms(1-3) turn(2)] by (simp add: fine_inputs_ok_def)
next
  case (store t u tok)
  have "flag_inv N s'"
    using assms(2) paired_stores [OF _ store(2,3)] by (simp add: flag_inv_def store(1) store_joined_def del: fun_upd_apply)
  then show ?thesis by blast
next
  case (received c w)
  with assms(2) show ?thesis by (auto simp: flag_inv_def members_def)
next
  case (writer_done before t after u tok)
  from assms(2) have "paired N (next_token (common (core s))) (members (common (core s))) (joined_flags s) (before @ (t, Start) # after) (announced s)"
    by (simp add: flag_inv_def writer_done(2))
  from paired_plain [OF this, of "[]" "[]"] keeps_plain_Nil show ?thesis
    using assms(2) writer_done(1) by (auto simp: flag_inv_def)
qed

lemma flagged_reachable_inv:
  assumes "semaphore sem free" "free permits = MAX_CONNECTIONS" "orders_ok it"
  shows "flagged_reachable sem ops env it rnd permits chans s \<Longrightarrow> fine_inv free (core s) \<and> (\<exists>N. flag_inv N s)"
proof (induction rule: flagged_reachable.induct)
  case start
  have "flag_inv (\<lambda>_. []) (flagged_new permits chans)"
    by (simp add: flag_inv_def paired_def flagged_new_def fine_new_def)
  then show ?case using fine_new_inv [where free = free, OF assms(2)] by (auto simp: flagged_new_def)
next
  case (step s s')
  have "fine_inv free (core s')"
    by (rule fine_reachable_inv [OF assms flagged_core [OF flagged_reachable.step [OF step(1,2)]]])
  moreover obtain N where "fine_inv free (core s)" "flag_inv N s" using step.IH by blast
  ultimately show ?case using flagged_step_inv [OF _ _ assms(3) step(2)] by blast
qed

end
