(* ===== verification/Announced_Room.thy ===== *)
theory Announced_Room
  imports Announcements_Inv Room_Order
begin

section \<open>Announcements in the room\<close>

text \<open>
  The properties of the announcements, and the end of the run of \<open>Room_Order\<close>: its client enters,
  its connection ends, and it is announced to have left. The other end is the race that the flag
  leaves open: a client removed between the recording of its join line and the store.
\<close>

subsection \<open>A client that nobody will announce\<close>

text \<open>It is no longer registered and no task is about to announce that it has left.\<close>

definition forgotten :: "token \<Rightarrow> ('s, 'w) flagged_system \<Rightarrow> bool" where
  "forgotten k s \<longleftrightarrow>
     k < next_token (common (core s)) \<and> k \<notin> snd ` members (common (core s)) \<and> leaving k (running (core s)) = 0 \<and>
     length (said k (announced s)) < 2"

lemma forgotten_turn:
  assumes "fine_inv free (core s)" "flag_inv N s" "orders_ok it" "running (core s) = before @ (t, g) # after"
    "inputs_ok i (common (core s))" "forgotten k s"
  shows "forgotten k (flagged_turn sem ops it rnd i before t g after s)"
proof -
  let ?s = "flagged_turn sem ops it rnd i before t g after s"
  note F = assms(6) [unfolded forgotten_def assms(4)]
  have p: "paired N (next_token (common (core s))) (members (common (core s))) (joined_flags s) (before @ (t, g) # after) (announced s)"
    using assms(2) by (simp add: flag_inv_def assms(4))
  have voice: "\<forall>u tok. voice (phase t) = Some (u, tok) \<longrightarrow> tok < next_token (common (core s))"
    using pairedD(1) [OF p, of t g] by auto
  have quiet: "leaving k before = 0" "leaving k after = 0" "\<not> to_leave k (phase t) g" using F by (simp_all split: if_splits)
  show ?thesis
  proof (cases rule: flagged_turn_cases [OF assms(1,3-5) voice refl, of sem ops rnd])
    case (1 ys zs)
    with keeps_plainD(2) [OF 1(3), of k] quiet F show ?thesis by (auto simp: forgotten_def)
  next
    case (2 u)
    with quiet F show ?thesis by (auto simp: forgotten_def)
  next
    case (3 p')
    then obtain u tok where r: "voice p' = Some (u, tok)" "to_leave tok p' Start" "(peer t, tok) \<in> members (common (core s))"
      "members (common (core ?s)) \<subseteq> members (common (core s))" by (auto simp: removal_turn_def)
    with F have "k \<noteq> tok" by force
    moreover have "to_leave k p' Start \<Longrightarrow> k = tok" using r(1,2) by (cases p') auto
    ultimately show ?thesis using 3 r(4) quiet F by (auto simp: forgotten_def)
  next
    case (4 tok x l f)
    have "\<not> to_leave k (phase t) (Recording r)" for r using 4(1) by (cases "phase t") auto
    moreover have "length (said k (announced ?s)) < 2"
    proof (cases "k = tok")
      case True
      with 4(1,2) quiet(3) have "to_enter k (phase t) g" by (cases "phase t") auto
      with pairedD(4) [OF p, of k] have "said k (announced s) = []" by (simp split: if_splits)
      with 4(3) show ?thesis by simp
    next
      case False
      with F 4(3) show ?thesis by simp
    qed
    ultimately show ?thesis using 4(4-6) quiet F by (auto simp: forgotten_def)
  qed
qed

lemma forgotten_step:
  assumes "fine_inv free (core s)" "flag_inv N s" "orders_ok it" "flagged_step sem ops env it rnd s s'" "forgotten k s"
  shows "forgotten k s'"
  using assms(4)
proof cases
  case (accept accepted)
  with assms(5) show ?thesis
    by (auto simp: forgotten_def fine_accept_def split: result.split prod.split option.split)
next
  case (turn before t g after i)
  then show ?thesis using forgotten_turn [OF assms(1-3) turn(2) _ assms(5)] by (simp add: fine_inputs_ok_def)
next
  case (received c w)
  with assms(5) show ?thesis by (simp add: forgotten_def members_def)
qed (use assms(5) in \<open>simp_all add: forgotten_def store_joined_def\<close>)

lemma forgotten_steps:
  assumes "semaphore sem free" "free permits = MAX_CONNECTIONS" "orders_ok it"
    and "(flagged_step sem ops env it rnd)\<^sup>*\<^sup>* s s'" "flagged_reachable sem ops env it rnd permits chans s" "forgotten k s"
  shows "forgotten k s' \<and> flagged_reachable sem ops env it rnd permits chans s'"
  using assms(4)
proof (induction rule: rtranclp_induct)
  case base
  with assms(5,6) show ?case by blast
next
  case (step s1 s2)
  then have r: "flagged_reachable sem ops env it rnd permits chans s1" by blast
  with flagged_reachable_inv [OF assms(1-3)] obtain N where "fine_inv free (core s1)" "flag_inv N s1" by blast
  with step forgotten_step [OF _ _ assms(3) step(2)] flagged_reachable.step [OF r step(2)] show ?case by blast
qed

lemma announced_grows:
  "(flagged_step sem ops env it rnd)\<^sup>*\<^sup>* s s' \<Longrightarrow> prefix (announced s) (announced s')"
proof (induction rule: rtranclp_induct)
  case (step s1 s2)
  from step(2) have "prefix (announced s1) (announced s2)"
    by cases (simp_all add: flagged_turn_def Let_def store_joined_def)
  with step.IH show ?case by (rule prefix_order.trans)
qed simp

lemma said_grows:
  assumes "prefix xs ys" "said k xs = [x]" "length (said k ys) < 2"
  shows "said k ys = [x]"
proof -
  obtain zs where "ys = xs @ zs" using assms(1) by (auto simp: prefix_def)
  with assms(2,3) show ?thesis by simp
qed

subsection \<open>Two ends of the run\<close>

abbreviation room_flagged :: "(nat, traced_chan) flagged_system \<Rightarrow> bool" where
  "room_flagged \<equiv> flagged_reachable counting_ops traced_ops traced_env bounded_orders (\<lambda>x. x) 256 (\<lambda>_. traced_new)"

lemma room_flagged_step:
  assumes "room_flagged s" "running (core s) = before @ (t, g) # after" "unused_channel 2 (outboxes (common (core s)))"
    "2 \<notin> replay_channels (running (core s))" "may_run t g (core s)" "has_stored (phase t) (joined_flags s)"
    "flagged_turn counting_ops traced_ops bounded_orders (\<lambda>x. x) (ann 2) before t g after s = s'"
  shows "room_flagged s'"
  using flagged_reachable.step [OF assms(1) flagged_step.turn [OF assms(2) ann_inputs [OF assms(3,4)] assms(5,6)]] assms(7) by simp

text \<open>The join line is recorded.\<close>

definition entered_room :: "stage \<Rightarrow> phase \<Rightarrow> traced_chan \<Rightarrow> bool \<Rightarrow> (token \<Rightarrow> bool) \<Rightarrow> (nat, traced_chan) flagged_system" where
  "entered_room g p c lk flags =
     \<lparr>core = named_room True c [ann_line] p g lk [(ann_line, ann_joined)], joined_flags = flags,
      announced = [(0, Entered (lit ''ann''))]\<rparr>"

lemma entered_flagged:
  "room_flagged (entered_room (Recording (Recorded (join_line (lit ''ann'')) ann_joined)) (RecordJoin (lit ''ann'') 0)
     (carried [] [ann_names]) True (\<lambda>_. False))"
  by (rule room_flagged_step [OF joining_flagged, where before = "[]" and t = "ann_task (RecordJoin (lit ''ann'') 0)" and g = Start
        and after = "[(ann_writer, Start)]"])
    (simp_all add: entered_room_def flagged_turn_def section_turn_def ann_defs shared_defs ann_joined ann_line_def
      history_record_def unused_channel_def replay_channels_def may_run_def)

text \<open>The one end: the writer fails now, removes the client and is about to look at the flag.\<close>

definition left_state :: "traced_chan \<Rightarrow> ustr list \<Rightarrow> traced_chan server_state" where
  "left_state c hist = (ann_state (Some (lit ''ann'')) True c hist)
     \<lparr>clients := mutex_new \<lparr>by_addr = [], per_ip = [], total = 0\<rparr>, deliveries := mutex_new [], signals := [1]\<rparr>"

lemma left_state: "remove_client_if_current (ann_state (Some (lit ''ann'')) True c hist) localhost 0 = (Ok True, left_state c hist)"
  by (simp add: left_state_def ann_state_def remove_client_if_current_def registry_remove_def delivery_remove_def drop_if_empty_def hm_remove_def shared_defs)


definition crossing_room :: "(nat, traced_chan) flagged_system" where
  "crossing_room =
     \<lparr>core = ann_room (left_state (carried [] [ann_names]) [ann_line])
         [(ann_task (RecordJoin (lit ''ann'') 0), Recording (Recorded (join_line (lit ''ann'')) ann_joined)),
          (ann_writer\<lparr>phase := CheckJoined (lit ''ann'') 0\<rparr>, Start)] True [(ann_line, ann_joined)],
      joined_flags = (\<lambda>_. False), announced = [(0, Entered (lit ''ann''))]\<rparr>"

lemma crossing_flagged: "room_flagged crossing_room"
  by (rule room_flagged_step [OF entered_flagged, where t = ann_writer and g = Start and after = "[]" and
        before = "[(ann_task (RecordJoin (lit ''ann'') 0), Recording (Recorded (join_line (lit ''ann'')) ann_joined))]"])
    (simp_all add: entered_room_def crossing_room_def flagged_turn_def section_turn_def left_state ann_room_def ann_writer_def
      ann_task_def unused_channel_def replay_channels_def may_run_def, simp add: ann_state_def shared_defs)

text \<open>The other end: the client enters, the flag is stored, the connection ends, and the handler removes
  the client and announces that it has left.\<close>

abbreviation all_said :: traced_chan where
  "all_said \<equiv> carried [] [ann_names, ann_joined]"

lemma handler_step:
  assumes "room_flagged (entered_room g p c lk flags)" "\<not> (g = Start \<and> takes_barrier p \<and> lk)" "channel_of g \<noteq> Some 2"
    "has_stored p flags"
    "flagged_turn counting_ops traced_ops bounded_orders (\<lambda>x. x) (ann 2) [] (ann_task p) g [(ann_writer, Start)]
       (entered_room g p c lk flags) = s'"
  shows "room_flagged s'"
  by (rule room_flagged_step [OF assms(1), where before = "[]" and t = "ann_task p" and g = g and after = "[(ann_writer, Start)]"])
    (use assms(2-5) in \<open>auto simp: entered_room_def ann_room_def ann_task_def ann_writer_def ann_state_def unused_channel_def
      replay_channels_iff may_run_def shared_defs\<close>)

lemmas turn_defs = entered_room_def flagged_turn_def section_turn_def ann_defs shared_defs

lemma broadcast_flagged:
  "room_flagged (entered_room (Recording (Evicting [] False)) (RecordJoin (lit ''ann'') 0) all_said True (\<lambda>_. False))"
  by (rule handler_step [OF entered_flagged])
    (simp_all add: turn_defs broadcast_section_def broadcast_client_def carried_send)

lemma talking_flagged: "room_flagged (entered_room Start (Talk (lit ''ann'') 0) all_said False (\<lambda>_. False))"
  by (rule handler_step [OF broadcast_flagged]) (simp_all add: turn_defs)

lemma stored_flagged: "room_flagged (entered_room Start (Talk (lit ''ann'') 0) all_said False ((\<lambda>_. False)(0 := True)))"
proof -
  let ?s = "entered_room Start (Talk (lit ''ann'') 0) all_said False (\<lambda>_. False)"
  have "(ann_task (Talk (lit ''ann'') 0), Start) \<in> set (running (core ?s))" "phase (ann_task (Talk (lit ''ann'') 0)) = Talk (lit ''ann'') 0"
    by (simp_all add: entered_room_def ann_room_def ann_task_def)
  from flagged_reachable.step [OF talking_flagged flagged_step.store [OF this]] show ?thesis
    by (simp add: store_joined_def entered_room_def)
qed

lemma ended_flagged: "room_flagged (entered_room Start (Finish (lit ''ann'') 0 True False) all_said False ((\<lambda>_. False)(0 := True)))"
  by (rule handler_step [OF stored_flagged]) (simp_all add: turn_defs frame_phase_def)

definition leaving_room :: "stage \<Rightarrow> ustr list \<Rightarrow> bool \<Rightarrow> (ustr \<times> bytes) list \<Rightarrow> (token \<times> notice) list \<Rightarrow> (nat, traced_chan) flagged_system" where
  "leaving_room g hist lk L A =
     \<lparr>core = ann_room (left_state all_said hist) [(ann_task (RecordLeave (lit ''ann'') 0 False), g), (ann_writer, Start)] lk L,
      joined_flags = (\<lambda>_. False)(0 := True), announced = A\<rparr>"

lemma removed_flagged: "room_flagged (leaving_room Start [ann_line] False [(ann_line, ann_joined)] [(0, Entered (lit ''ann''))])"
  by (rule handler_step [OF ended_flagged])
    (simp_all add: entered_room_def leaving_room_def flagged_turn_def section_turn_def left_state ann_room_def ann_task_def)

definition ann_left :: bytes where
  "ann_left = chat_bytes (trim_end (leave_line (lit ''ann'')))"

lemma ann_left: "encode_frame Chat (as_bytes (trim_end (leave_line (lit ''ann'')))) = Ok ann_left"
  unfolding ann_left_def by (rule encode_short, rule short_join_leave, rule registered_ann)

abbreviation left_room :: "(nat, traced_chan) flagged_system" where
  "left_room \<equiv>
     leaving_room (Recording (Recorded (leave_line (lit ''ann'')) ann_left)) [ann_line, notice_line (Gone (lit ''ann''))] True
       [(ann_line, ann_joined), (notice_line (Gone (lit ''ann'')), ann_left)] [(0, Entered (lit ''ann'')), (0, Gone (lit ''ann''))]"

lemma left_flagged: "room_flagged left_room"
  by (rule room_flagged_step [OF removed_flagged, where before = "[]" and t = "ann_task (RecordLeave (lit ''ann'') 0 False)" and g = Start
        and after = "[(ann_writer, Start)]"])
    (simp_all add: leaving_room_def flagged_turn_def section_turn_def ann_defs left_state_def shared_defs ann_left
      history_record_def unused_channel_def replay_channels_def may_run_def)

subsection \<open>Properties\<close>

text \<open>
  C7. Of every client the server announces nothing, or that it has entered, or that it has entered
  and then that it has left, each once and with one name, however the handler and the writer of
  the client race; not that it has left while it is registered; and the announcements are lines
  of the history in that order.
\<close>

theorem announcements_paired:
  assumes "semaphore sem free" and "free permits = MAX_CONNECTIONS" and "orders_ok it"
    and "flagged_reachable sem ops env it rnd permits chans s"
  shows "(\<exists>u. said tok (announced s) \<in> {[], [Entered u], [Entered u, Gone u]}) \<and>
    ((a, tok) \<in> members (common (core s)) \<longrightarrow> length (said tok (announced s)) < 2) \<and>
    (joined_flags s tok \<longrightarrow> said tok (announced s) \<noteq> []) \<and>
    subseq (map (notice_line \<circ> snd) (announced s)) (map fst (record_log (core s)))"
proof -
  obtain N where f: "flag_inv N s" using flagged_reachable_inv [OF assms] by blast
  then have p: "paired N (next_token (common (core s))) (members (common (core s))) (joined_flags s) (running (core s)) (announced s)"
    by (simp add: flag_inv_def)
  have "length (said tok (announced s)) \<noteq> 2" if "(a, tok) \<in> members (common (core s))"
    using pairedD(5) [OF p, of tok] image_eqI [of tok snd, OF _ that] by (auto split: if_splits)
  with pairedD(3) [OF p, of tok] pairedD(6) [OF p, of tok] f show ?thesis by (auto simp: flag_inv_def)
qed

theorem announcements_paired_witness:
  "said 0 (announced left_room) = [Entered (lit ''ann''), Gone (lit ''ann'')] \<and>
   subseq [notice_line (Entered (lit ''ann'')), notice_line (Gone (lit ''ann''))] (map fst (record_log (core left_room)))"
proof -
  have "256 = MAX_CONNECTIONS" by (simp add: limits)
  note room = announcements_paired [OF counting.semaphore_axioms this bounded_orders_ok left_flagged, of 0]
  have a: "announced left_room = [(0, Entered (lit ''ann'')), (0, Gone (lit ''ann''))]" by (simp add: leaving_room_def)
  from room have "subseq (map (notice_line \<circ> snd) (announced left_room)) (map fst (record_log (core left_room)))" by blast
  then show ?thesis unfolding a by simp
qed

text \<open>
  C35. A client whose connection breaks just after its join line was recorded never leaves for the
  others, a defect: when its writer has removed it and finds the flag not yet stored, then in
  every continuation of the run the client is announced to have entered and never to have left.
\<close>

theorem entered_never_leaves:
  assumes "semaphore sem free" and "free permits = MAX_CONNECTIONS" and "orders_ok it"
    and "flagged_reachable sem ops env it rnd permits chans s"
    and "running (core s) = before @ (t, Start) # after" and "phase t = CheckJoined u tok" and "\<not> joined_flags s tok"
    and "said tok (announced s) \<noteq> []" and "fine_inputs_ok env i (core s)"
  shows "\<exists>v. flagged_step sem ops env it rnd s (flagged_turn sem ops it rnd i before t Start after s) \<and>
    (\<forall>s'. (flagged_step sem ops env it rnd)\<^sup>*\<^sup>* (flagged_turn sem ops it rnd i before t Start after s) s' \<longrightarrow>
       said tok (announced s') = [Entered v])"
proof -
  let ?s = "flagged_turn sem ops it rnd i before t Start after s"
  have st: "flagged_step sem ops env it rnd s ?s"
    by (rule flagged_step.turn [OF assms(5,9)]) (simp_all add: may_run_def assms(6))
  note r = flagged_reachable.step [OF assms(4) st]
  obtain N where "flag_inv N s" using flagged_reachable_inv [OF assms(1-4)] by blast
  then have p: "paired N (next_token (common (core s))) (members (common (core s))) (joined_flags s) (running (core s)) (announced s)"
    by (simp add: flag_inv_def)
  have turn: "announced ?s = announced s" "common (core ?s) = common (core s)"
    "running (core ?s) = before @ (t\<lparr>phase := WriterUsers\<rparr>, Start) # after"
    using assms(6,7) by (simp_all add: flagged_turn_def section_turn_def)
  have "leaving tok (running (core s)) = Suc (leaving tok (before @ after))" using assms(5,6) by simp
  with pairedD(5) [OF p, of tok] have "tok \<notin> snd ` members (common (core s))" "leaving tok (before @ after) = 0"
    "length (said tok (announced s)) \<noteq> 2" by (auto split: if_splits)
  moreover have "tok < next_token (common (core s))" by (rule pairedD(2) [OF p assms(8)])
  moreover note pairedD(3) [OF p, of tok]
  ultimately have f: "forgotten tok ?s" by (auto simp: forgotten_def turn)
  have once: "said tok (announced ?s) = [Entered (N tok)]" using f pairedD(3) [OF p, of tok] assms(8) by (auto simp: forgotten_def turn)
  have "said tok (announced s') = [Entered (N tok)]" if "(flagged_step sem ops env it rnd)\<^sup>*\<^sup>* ?s s'" for s'
    using said_grows [OF announced_grows [OF that] once] forgotten_steps [OF assms(1-3) that r f] by (simp add: forgotten_def)
  with st show ?thesis by blast
qed

theorem entered_never_leaves_witness:
  "\<exists>v. \<forall>s'. (flagged_step counting_ops traced_ops traced_env bounded_orders (\<lambda>x. x))\<^sup>*\<^sup>*
     (flagged_turn counting_ops traced_ops bounded_orders (\<lambda>x. x) (ann 2)
       [(ann_task (RecordJoin (lit ''ann'') 0), Recording (Recorded (join_line (lit ''ann'')) ann_joined))]
       (ann_writer\<lparr>phase := CheckJoined (lit ''ann'') 0\<rparr>) Start [] crossing_room) s' \<longrightarrow>
     said 0 (announced s') = [Entered v]"
proof -
  let ?before = "[(ann_task (RecordJoin (lit ''ann'') 0), Recording (Recorded (join_line (lit ''ann'')) ann_joined))]"
  let ?t = "ann_writer\<lparr>phase := CheckJoined (lit ''ann'') 0\<rparr>"
  have "256 = MAX_CONNECTIONS" by (simp add: limits)
  moreover have "running (core crossing_room) = ?before @ (?t, Start) # []" "phase ?t = CheckJoined (lit ''ann'') 0"
    "\<not> joined_flags crossing_room 0" "said 0 (announced crossing_room) \<noteq> []"
    by (simp_all add: crossing_room_def ann_room_def)
  moreover have "fine_inputs_ok traced_env (ann 2) (core crossing_room)"
    by (rule ann_inputs) (simp_all add: crossing_room_def ann_room_def left_state_def ann_state_def unused_channel_def
      replay_channels_def shared_defs)
  ultimately show ?thesis
    using entered_never_leaves [OF counting.semaphore_axioms _ bounded_orders_ok crossing_flagged, of ?before ?t "[]" "lit ''ann''" 0 "ann 2"]
    by blast
qed

end
