(* ===== verification/Spec2Isabelle.thy ===== *)
theory Spec2Isabelle
  imports Room_Screen Announced_Room
begin

text \<open>
  Drocsid: a terminal chat server and client.

  THE PROGRAM. \<^verbatim>\<open>crates/protocol\<close> defines the frames on the wire, presence payloads, the format of
  chat lines and mention detection; client and server both use it. \<^verbatim>\<open>crates/server\<close> accepts
  connections (\<^verbatim>\<open>lib.rs\<close>), serves each in a task (\<^verbatim>\<open>connection.rs\<close>) and keeps the shared state
  behind mutexes (\<^verbatim>\<open>state.rs\<close>, \<^verbatim>\<open>delivery.rs\<close>): the registry of clients, the delivery registry,
  the message history, the rate limits and the replay barrier. \<^verbatim>\<open>crates/client\<close> is the client's
  connection with its reader thread (\<^verbatim>\<open>network.rs\<close>) and the state of the user interface (\<^verbatim>\<open>app.rs\<close>);
  \<^verbatim>\<open>crates/tui\<close> draws it and handles the keys. \<^verbatim>\<open>crates/config\<close>, \<^verbatim>\<open>crates/cli\<close> and \<^verbatim>\<open>apps/drocsid\<close>
  start one or the other.

  THE THEORIES, in import order.
  \<^item> \<open>Prelude\<close>: results with panics (\<open>Ok\<close>, \<open>Err\<close>, \<open>Panic\<close>), the \<^verbatim>\<open>?\<close> operator \<open>seq\<close>, mutexes with
    poisoning, machine integers. \<open>Rust_Str\<close>: strings as lists of scalar values with UTF-8 and
    byte-indexed slicing. \<open>Rust_Io\<close>: readers, with the locale \<open>byte_reader\<close>. \<open>Hash_Map\<close>: hash maps
    with an arbitrary iteration order, with the locale \<open>map_ops\<close>.
  \<^item> \<open>Protocol\<close>, \<open>Protocol_Text\<close>: \<^verbatim>\<open>crates/protocol/src/lib.rs\<close>. \<open>decode_frame\<close> is the byte-level
    specification; the blocking decoder refines it for every \<open>byte_reader\<close>, and the locale
    \<open>frame_source\<close> is what both decoders promise to their callers.
  \<^item> \<open>Server_Types\<close>: the server's data and the locale \<open>mpsc\<close> for tokio's channels.
  \<^item> \<open>History\<close>, \<open>Rate_Limit\<close>, \<open>Registry\<close>, \<open>Delivery\<close>: \<^verbatim>\<open>state.rs\<close>, function by function. The
    specification of the registry is the set \<open>members\<close>; that of a broadcast is a statement per
    client (\<open>after_broadcast\<close>, \<open>cannot_serve\<close>). \<open>Presence_Facts\<close> gathers what the callers rely on.
  \<^item> \<open>Admission\<close>: the connection limits of \<^verbatim>\<open>lib.rs\<close>, with the locale \<open>semaphore\<close>.
  \<^item> \<open>Async_Frame\<close>: the server's decoder and the handshake. \<open>Connection\<close>: \<^verbatim>\<open>ConnectionHandler\<close> and
    \<^verbatim>\<open>outbound_writer\<close>. \<open>Connection_Facts\<close>: what a connection does to the shared state.
  \<^item> \<open>Server\<close>: \<^verbatim>\<open>run_server\<close>, the accept loop, the cleanup task and all connection and writer tasks
    as the step relation \<open>server_step\<close>, one call into the shared state at a time. \<open>Server_Facts\<close>:
    the invariant \<open>system_inv\<close> of every reachable state, and that a task that runs alone does what
    \<open>Connection\<close> says, whether the calls succeed, fail or panic.
  \<^item> \<open>Sections\<close>: the same tasks once more, one locked section of \<^verbatim>\<open>state.rs\<close> at a time (\<open>fine_step\<close>),
    with \<^verbatim>\<open>replay_barrier\<close> as a lock that is waited for. \<open>Sections_Facts\<close>: the sections of a call, run
    one after the other, are the call (\<open>sections_implement_call\<close>). \<open>Sections_Inv\<close>, \<open>Fine_Inv\<close>: the
    invariant \<open>fine_inv\<close>. \<open>Barrier\<close>: the barrier is given back in every run in which
    its holder is not starved.
  \<^item> \<open>Ordering\<close>, \<open>Ordering_Inv\<close>, \<open>Ordering_Lines\<close>, \<open>Ordering_Server\<close>, \<open>Total_Order\<close>: the order of the
    lines. The specification is \<open>in_order\<close>: the lines kept when the client became ready, then those
    recorded since it registered; the locale \<open>traced_mpsc\<close> extends \<open>mpsc\<close> by what a channel accepted;
    the induction ends in \<open>fine_reachable_order\<close>. \<open>Wire_Types\<close>: what may travel on a channel.
    \<open>Room_Order\<close>: the properties, a run of the system, and the interpretation of \<open>traced_mpsc\<close>.
    \<open>Races\<close>: what one broadcast does to one client, and defects that the interleavings show.
  \<^item> \<open>Announcements\<close>: the flag \<^verbatim>\<open>joined\<close> that a handler shares with its writer, beside the system of
    \<open>Sections\<close> (\<open>flagged_step\<close>); its steps are steps of that system, so everything above holds of it.
    \<open>Announcements_Inv\<close>, \<open>Announced_Room\<close>: joining and leaving are announced in pairs, and the race in
    which a client enters and is never announced to have left.
  \<^item> \<open>Client_App\<close>: \<^verbatim>\<open>app.rs\<close>, with the invariant \<open>app_inv\<close>. \<open>Client_Network\<close>: \<^verbatim>\<open>network.rs\<close>.
    \<open>Client_View\<close>: \<^verbatim>\<open>components.rs\<close>, \<^verbatim>\<open>layout.rs\<close>, \<^verbatim>\<open>theme.rs\<close>; a frame is the list of the calls made
    on it, and \<open>panels\<close> and \<open>panel_lines\<close> are what it shows under a title. \<open>Client_Tui\<close>:
    \<^verbatim>\<open>crates/tui/src/lib.rs\<close>, the main loop and the keys; \<open>client_run\<close> is the loop with the frames drawn.
  \<^item> \<open>Cli\<close>: configuration, command line and \<^verbatim>\<open>main\<close>. \<open>End_To_End\<close>: the client against the server's bytes,
    and names across the wire. \<open>Room_Screen\<close>: from the server's tasks to a client's screen.

  MODELLING DECISIONS. The server is modelled at three grains. In \<open>Connection\<close> tasks interleave
  where the handler awaits, and the other tasks are arbitrary functions on the shared state that
  keep it \<open>sound\<close>; in \<open>Server\<close> they interleave between any two calls of functions of \<^verbatim>\<open>state.rs\<close>; in
  \<open>Sections\<close> between any two critical sections of these. There receivers take messages, or are
  dropped, between sections: a section that walks the delivery registry sees each channel at one
  moment. The field \<open>record_log\<close> is no part of the program; it keeps the recorded lines for the
  specification. A client token is
  the identity of its \<^verbatim>\<open>Arc\<close>, a number never used twice. The f64 arithmetic of the rate limiter is
  over rationals with an arbitrary rounding function (\<open>f64_rounding\<close>). tokio's channels and
  semaphore, the clock, the time of day, \<^verbatim>\<open>is_alphanumeric\<close>, the sockets, the terminal, ratatui
  and clap are parameters; the locales and the predicates \<open>inputs_ok\<close>, \<open>ui_ok\<close>,
  \<open>frame_turn_ok\<close>, \<open>no_write_panic\<close> and \<open>clap_ok\<close> say what is relied on. Of ratatui that is: a layout
  splits an area into as many areas inside it as there are constraints, the inner area of a block is
  inside the block's, and painting inside the frame does not panic. Whether painting outside the frame
  panics is left open (\<open>paint_panics\<close>); the program does so when the terminal has fewer rows than the
  mention popup, at most seven, so what is shown of drawing is shown for terminals with seven
  (\<open>roomy\<close>). Styles, spans and widgets
  are kept as the terms the program builds. Arithmetic that overflows panics, as in a debug build.

  BOUNDS AND FUEL. Loops that depend on the peer or on the user run for as many turns as are
  given, and their result says when they are still running; \<open>session_ends\<close> shows that one turn more
  than there are bytes is enough for a session, and \<open>reader_loop_ends\<close> the same for the reader
  thread. The holder of the replay barrier has at most 258 sections left: two and a removal for each
  of 256 clients, or two and a send for each of 100 lines. A run of the server is an infinite sequence
  of steps; the only fairness assumed is that a task holding the barrier gets its turn again
  (\<open>holder_scheduled\<close>).

  NOT MODELLED. The records written to the log, which nothing reads back; the tokio runtime; and
  what ratatui paints for the widgets it is given.
\<close>

end
